(* ===== verification/Prelude.thy ===== *)
theory Prelude imports Main "HOL-Library.Word" begin

text \<open>
  Shared vocabulary of the development: the machine integers of the C code, byte strings and
  C strings, little-endian encodings, and the generic list and word lemmas the component
  theories use.  The x86-64 Linux ABI of the program is assumed throughout: an address, a
  \<open>size_t\<close>, an \<open>ngx_uint_t\<close> and an \<open>unsigned long\<close> are 64-bit words, a \<open>u_char\<close> an 8-bit word.
\<close>

unbundle bit_operations_syntax

type_synonym u8 = "8 word"
type_synonym u16 = "16 word"
type_synonym u32 = "32 word"
type_synonym u64 = "64 word"
type_synonym bytes = "u8 list"

text \<open>
  A \<open>char *\<close> into a constant object is the list of the bytes from the pointer to the end of the
  object: reading at an index past that list is an out-of-bounds access.
\<close>

type_synonym cptr = bytes

text \<open>The status codes of the library (\<open>config.h\<close>).\<close>

definition NGX_OK :: int where "NGX_OK = 0"
definition NGX_ERROR :: int where "NGX_ERROR = - 1"

text \<open>Facts that turn 64-bit address arithmetic into arithmetic on naturals.\<close>

named_theorems u64_arith

text \<open>String constants of the source as bytes.\<close>

definition ascii :: "string \<Rightarrow> bytes" where
  "ascii s = map of_char s"

lemma ascii_Nil [simp]: "ascii [] = []"
  by (simp add: ascii_def)

lemma ascii_Cons [simp]: "ascii (c # s) = of_char c # ascii s"
  by (simp add: ascii_def)

lemma length_ascii [simp]: "length (ascii s) = length s"
  by (simp add: ascii_def)

subsection \<open>Characters\<close>

text \<open>\<open>isspace\<close> of the C locale: space, \<open>\t\<close>, \<open>\n\<close>, \<open>\v\<close>, \<open>\f\<close>, \<open>\r\<close>.\<close>

definition isspace :: "u8 \<Rightarrow> bool" where
  "isspace c \<longleftrightarrow> c = 0x20 \<or> (0x09 \<le> c \<and> c \<le> 0x0d)"

subsection \<open>C strings and memory comparison\<close>

text \<open>The string a pointer denotes: the bytes before the terminating NUL.\<close>

definition cstr :: "cptr \<Rightarrow> bytes" where
  "cstr p = takeWhile (\<lambda>c. c \<noteq> 0) p"

text \<open>
  \<open>memcmp\<close>: the difference of the first two unequal bytes among the first \<open>n\<close>, 0 when there is
  none.  Both objects must have \<open>n\<close> bytes (\<open>None\<close> is an out-of-bounds access).
\<close>

fun memcmp_seen :: "bytes \<Rightarrow> bytes \<Rightarrow> int" where
  "memcmp_seen (a # as) (b # bs) = (if a = b then memcmp_seen as bs else uint a - uint b)"
| "memcmp_seen _ _ = 0"

definition memcmp :: "cptr \<Rightarrow> cptr \<Rightarrow> nat \<Rightarrow> int option" where
  "memcmp p q n =
     (if n \<le> length p \<and> n \<le> length q then Some (memcmp_seen (take n p) (take n q)) else None)"

lemma memcmp_seen_0_iff:
  "length as = length bs \<Longrightarrow> memcmp_seen as bs = 0 \<longleftrightarrow> as = bs"
  by (induction as bs rule: memcmp_seen.induct) (auto simp: word_uint_eq_iff)

lemma memcmp_eq_0_iff:
  "memcmp p q n = Some 0 \<longleftrightarrow> n \<le> length p \<and> n \<le> length q \<and> take n p = take n q"
  by (auto simp: memcmp_def memcmp_seen_0_iff)

lemma length_cstr_le: "length (cstr p) \<le> length p"
  by (simp add: cstr_def length_takeWhile_le)

lemma cstr_no_NUL: "0 \<notin> set (cstr p)"
  by (auto simp: cstr_def dest: set_takeWhileD)

lemma take_length_cstr: "take (length (cstr p)) p = cstr p"
  unfolding cstr_def by (metis takeWhile_eq_take)

lemma cstr_append_NUL: "0 \<notin> set s \<Longrightarrow> cstr (s @ 0 # r) = s"
  unfolding cstr_def by (induction s) auto

text \<open>The \<open>k\<close> bytes of a buffer at an offset; \<open>None\<close> where they run past its end.\<close>

definition load_buf :: "bytes \<Rightarrow> nat \<Rightarrow> nat \<Rightarrow> bytes option" where
  "load_buf str off k = (if off + k \<le> length str then Some (take k (drop off str)) else None)"

lemma length_load_buf: "load_buf str off k = Some d \<Longrightarrow> length d = k"
  by (auto simp: load_buf_def split: if_splits)

lemma load_buf_ok: "off + k \<le> length str \<Longrightarrow> load_buf str off k = Some (take k (drop off str))"
  by (simp add: load_buf_def)

subsection \<open>Little-endian bytes\<close>

fun le_bytes :: "nat \<Rightarrow> u64 \<Rightarrow> bytes" where
  "le_bytes 0 w = []"
| "le_bytes (Suc n) w = ucast w # le_bytes n (drop_bit 8 w)"

fun le_word :: "bytes \<Rightarrow> u64" where
  "le_word [] = 0"
| "le_word (b # bs) = ucast b OR push_bit 8 (le_word bs)"

lemma length_le_bytes [simp]: "length (le_bytes n w) = n"
  by (induction n arbitrary: w) auto

lemma ucast_le_word_Cons: "ucast (ucast b OR push_bit 8 w :: u64) = (b :: u8)"
  by (rule bit_word_eqI) (auto simp: bit_simps)

lemma drop_bit_ucast_u8 [simp]: "drop_bit 8 (ucast (b :: u8) :: u64) = 0"
  by (rule bit_word_eqI) (auto simp: bit_simps dest: bit_imp_le_length)

lemma drop_push_bit_u64 [simp]: "drop_bit 8 (push_bit 8 w :: u64) = take_bit 56 w"
  by (rule bit_word_eqI) (auto simp: bit_simps)

lemma le_bytes_take_bit: "8 * n \<le> m \<Longrightarrow> le_bytes n (take_bit m w) = le_bytes n w"
proof (induction n arbitrary: m w)
  case (Suc n)
  have "ucast (take_bit m w) = (ucast w :: u8)"
    by (rule bit_word_eqI) (use Suc.prems in \<open>auto simp: bit_simps\<close>)
  moreover have "drop_bit 8 (take_bit m w) = take_bit (m - 8) (drop_bit 8 w)"
    using Suc.prems by (simp add: drop_bit_take_bit)
  ultimately show ?case using Suc by simp
qed simp

lemma le_bytes_le_word: "length bs \<le> 8 \<Longrightarrow> le_bytes (length bs) (le_word bs) = bs"
proof (induction bs)
  case (Cons b bs)
  then show ?case
    by (simp add: ucast_le_word_Cons le_bytes_take_bit)
qed simp

lemma le_bytes_le_word_8: "length bs = 8 \<Longrightarrow> le_bytes 8 (le_word bs) = bs"
  using le_bytes_le_word [of bs] by simp

lemma take_le_bytes: "k \<le> n \<Longrightarrow> take k (le_bytes n w) = le_bytes k w"
proof (induction n arbitrary: k w)
  case (Suc n)
  then show ?case by (cases k) auto
qed simp

subsection \<open>Unsigned 64-bit arithmetic without wrap-around\<close>

lemma unat_add_u64 [u64_arith]:
  "unat (a :: u64) + unat b < 2 ^ 64 \<Longrightarrow> unat (a + b) = unat a + unat b"
  using unat_add_lem [of a b] by simp

lemma unat_sub_u64 [u64_arith]: "(b :: u64) \<le> a \<Longrightarrow> unat (a - b) = unat a - unat b"
  by (rule unat_sub)

lemma unat_mult_u64 [u64_arith]:
  "unat (a :: u64) * unat b < 2 ^ 64 \<Longrightarrow> unat (a * b) = unat a * unat b"
  using unat_mult_lem [of a b] by simp

lemma unat_lt_u64: "unat (a :: u64) < 2 ^ 64"
  by (rule order_less_le_trans [OF unsigned_less]) simp

lemma unat_of_nat_u64 [u64_arith]: "n < 2 ^ 64 \<Longrightarrow> unat (of_nat n :: u64) = n"
  by (simp add: unat_of_nat)

lemma of_nat_div_mod_8: "(of_nat (i div 8) * 8 + of_nat (i mod 8) :: u64) = of_nat i"
proof -
  have "(of_nat (i div 8) * 8 + of_nat (i mod 8) :: u64) = of_nat (i div 8 * 8 + i mod 8)"
    by (simp only: of_nat_add of_nat_mult of_nat_numeral)
  then show ?thesis by simp
qed

lemma unat_minus_1_u64 [u64_arith]: "unat (- 1 :: u64) = 2 ^ 64 - 1"
  by (simp add: unsigned_minus_1_eq_mask mask_eq_exp_minus_1)

lemma unat_less_256: "unat (b :: u8) < 256"
  by (rule order_less_le_trans [OF unsigned_less]) simp

lemma unat_and_not_7: "unat (x AND NOT (7::u64)) = unat x div 8 * 8"
proof -
  have 7: "(7::u64) = mask 3" by (simp add: mask_eq_exp_minus_1)
  have "x AND NOT 7 = push_bit 3 (drop_bit 3 x)"
   by (simp only: 7) (rule bit_word_eqI, auto simp: bit_simps)
  then have "unat (x AND NOT 7) = take_bit 64 (push_bit 3 (drop_bit 3 (unat x)))"
   by (simp add: unsigned_push_bit_eq unsigned_drop_bit_eq take_bit_nat_eq_self [OF unat_lt_u64])
  also have "\<dots> = take_bit 64 (unat x div 8 * 8)" by (simp add: push_bit_eq_mult drop_bit_eq_div)
  also have "\<dots> = unat x div 8 * 8" 
   using unat_lt_u64[of x] by (auto simp: take_bit_eq_mod intro!: mod_less)
  finally show ?thesis .
qed

lemma uint_of_int_u64: "0 \<le> x \<Longrightarrow> x < 2 ^ 64 \<Longrightarrow> uint (of_int x :: u64) = x"
  by (simp add: unsigned_of_int take_bit_int_eq_self)

lemma unat_neg_u64:
  assumes "(x :: u64) \<noteq> 0" shows "unat (- x) = 2 ^ 64 - unat x"
proof -
  have eq: "- x = of_nat (2 ^ 64 - unat x)" using unat_lt_u64 [of x] by (simp add: of_nat_diff)
  have "0 < unat x" using assms by (simp add: unat_gt_0)
  then have lt: "2 ^ 64 - unat x < (2 ^ 64 :: nat)" by simp
  show ?thesis unfolding eq unat_of_nat_u64 [OF lt] ..
qed

end
