(* ===== verification/Procmem.thy ===== *)
theory Procmem imports Prelude "HOL-Library.Monad_Syntax" begin

text \<open>
  The memory of the traced process and the two functions of \<open>mem.c\<close> that read and write it one
  machine word at a time through \<open>ptrace\<close>.

  A process memory maps each mapped address to its byte.  \<open>PTRACE_PEEKTEXT\<close> and
  \<open>PTRACE_POKETEXT\<close> of the C library access the eight bytes at an address: where one of them is
  not mapped the peek returns \<open>-1\<close> and the poke fails and leaves the memory unchanged.
  The buffer of \<open>write_pro_mem\<close> is a byte list; reading past it is \<open>None\<close>.
\<close>

type_synonym pmem = "u64 \<Rightarrow> u8 option"

subsection \<open>The word accesses of ptrace\<close>

definition word_bytes :: "pmem \<Rightarrow> u64 \<Rightarrow> u8 option list" where
  "word_bytes m a = map (\<lambda>i. m (a + of_nat i)) [0..<8]"

definition mapped_word :: "pmem \<Rightarrow> u64 \<Rightarrow> bool" where
  "mapped_word m a \<longleftrightarrow> None \<notin> set (word_bytes m a)"

fun store_bytes :: "pmem \<Rightarrow> u64 \<Rightarrow> bytes \<Rightarrow> pmem" where
  "store_bytes m a [] = m"
| "store_bytes m a (b # bs) = store_bytes (m(a \<mapsto> b)) (a + 1) bs"

definition peektext :: "pmem \<Rightarrow> u64 \<Rightarrow> u64" where
  "peektext m a = (if mapped_word m a then le_word (map the (word_bytes m a)) else - 1)"

definition poketext :: "pmem \<Rightarrow> u64 \<Rightarrow> u64 \<Rightarrow> pmem option" where
  "poketext m a w = (if mapped_word m a then Some (store_bytes m a (le_bytes 8 w)) else None)"

subsection \<open>The C integer arithmetic of the two loops\<close>

text \<open>
  \<open>int n = len / WORD\<close> divides in \<open>unsigned long\<close> and truncates to \<open>int\<close>;
  \<open>len % WORD\<close> is the unsigned remainder.
\<close>

definition c_words :: "int \<Rightarrow> int" where
  "c_words len = signed_take_bit 31 ((len mod 2 ^ 64) div 8)"

definition c_rest :: "int \<Rightarrow> nat" where
  "c_rest len = nat ((len mod 2 ^ 64) mod 8)"

lemma c_words_nat: "0 \<le> len \<Longrightarrow> len < 2 ^ 31 \<Longrightarrow> c_words len = int (nat len div 8)"
  unfolding c_words_def
  by (subst signed_take_bit_int_eq_self) (auto simp: zdiv_int)

lemma c_rest_nat: "0 \<le> len \<Longrightarrow> len < 2 ^ 31 \<Longrightarrow> c_rest len = nat len mod 8"
  unfolding c_rest_def by (simp add: nat_mod_distrib)

subsection \<open>read_pro_mem\<close>

text \<open>
  The test \<open>(data = ptrace(\<dots>)) < 0\<close> is written as in the source: \<open>data\<close> is a
  \<open>uint64_t\<close>.  The loop returns whether it ran to its end, the index it stopped at and the
  bytes stored through \<open>current_p\<close>.
\<close>

function read_loop :: "pmem \<Rightarrow> u64 \<Rightarrow> nat \<Rightarrow> int \<Rightarrow> bytes \<Rightarrow> bool \<times> nat \<times> bytes" where
  "read_loop m addr i n out =
     (if int i < n then
        let data = peektext m (addr + of_nat i * 8)
        in if data < 0 then (False, i, out)
           else read_loop m addr (Suc i) n (out @ le_bytes 8 data)
      else (True, i, out))"
  by pat_completeness auto
termination
  by (relation "measure (\<lambda>(m, addr, i, n, out). nat (n - int i))") auto

declare read_loop.simps [simp del]

definition read_pro_mem :: "pmem \<Rightarrow> u64 \<Rightarrow> int \<Rightarrow> int \<times> bytes" where
  "read_pro_mem m addr len =
     (case read_loop m addr 0 (c_words len) [] of
        (False, i, out) \<Rightarrow> (- 1, out)
      | (True, i, out) \<Rightarrow>
          (let remainder = c_rest len
           in if remainder \<noteq> 0 then
                let data = peektext m (addr + of_nat i * 8)
                in if data < 0 then (- 1, out) else (0, out @ le_bytes remainder data)
              else (0, out)))"

subsection \<open>write_pro_mem\<close>

function write_loop ::
  "pmem \<Rightarrow> u64 \<Rightarrow> nat \<Rightarrow> int \<Rightarrow> bytes \<Rightarrow> (bool \<times> nat \<times> pmem) option" where
  "write_loop m addr i n str =
     (if int i < n then
        case load_buf str (8 * i) 8 of
          None \<Rightarrow> None
        | Some data \<Rightarrow>
            (case poketext m (addr + of_nat i * 8) (le_word data) of
               None \<Rightarrow> Some (False, i, m)
             | Some m' \<Rightarrow> write_loop m' addr (Suc i) n str)
      else Some (True, i, m))"
  by pat_completeness auto
termination
  by (relation "measure (\<lambda>(m, addr, i, n, str). nat (n - int i))") auto

declare write_loop.simps [simp del]

definition write_pro_mem :: "pmem \<Rightarrow> u64 \<Rightarrow> bytes \<Rightarrow> int \<Rightarrow> (int \<times> pmem) option" where
  "write_pro_mem m addr str len =
     do {
       (done', i, m1) \<leftarrow> write_loop m addr 0 (c_words len) str;
       let remainder = c_rest len;
       if \<not> done' then Some (- 1, m1)
       else if remainder \<noteq> 0 then
         let data = peektext m1 (addr + of_nat i * 8)
         in if data < 0 then Some (- 1, m1)
            else do {
              part \<leftarrow> load_buf str (8 * i) remainder;
              let data' = le_word (part @ drop remainder (le_bytes 8 data));
              case poketext m1 (addr + of_nat i * 8) data' of
                None \<Rightarrow> Some (- 1, m1)
              | Some m2 \<Rightarrow> Some (0, m2)
            }
       else Some (0, m1)
     }"


subsection \<open>Stores\<close>

lemma store_bytes_lookup:
  "length bs \<le> 2 ^ 32 \<Longrightarrow>
   store_bytes m a bs x = (if unat (x - a) < length bs then Some (bs ! unat (x - a)) else m x)"
proof (induction bs arbitrary: m a)
  case (Cons b bs)
  show ?case
  proof (cases "x = a")
    case True
    have "unat (a - (a + 1)) = 2 ^ 64 - 1" by (simp add: unat_minus_1_u64)
    then show ?thesis using True Cons by simp
  next
    case False
    then have "x - a \<noteq> 0" by simp
    then have "unat (x - (a + 1)) = unat (x - a) - 1" and "0 < unat (x - a)"
      by (simp_all add: unat_minus_one diff_diff_eq2 [symmetric] diff_diff_add unat_gt_0 flip: diff_diff_add)
    then show ?thesis using False Cons by auto
  qed
qed simp

lemma store_bytes_append:
  "store_bytes m a (xs @ ys) = store_bytes (store_bytes m a xs) (a + of_nat (length xs)) ys"
  by (induction xs arbitrary: m a) (auto simp: algebra_simps)

lemma store_bytes_keeps_mapped: "m x \<noteq> None \<Longrightarrow> store_bytes m a bs x \<noteq> None"
  by (induction bs arbitrary: m a) auto

lemma mapped_word_iff: "mapped_word m a \<longleftrightarrow> (\<forall>i < 8. m (a + of_nat i) \<noteq> None)"
  unfolding mapped_word_def word_bytes_def by (simp add: image_iff Ball_def) (metis not_None_eq)

lemma mapped_word_store: "mapped_word m b \<Longrightarrow> mapped_word (store_bytes m a bs) b"
  by (simp add: mapped_word_iff) (metis store_bytes_keeps_mapped option.exhaust option.distinct(1))

lemma le_bytes_peektext:
  assumes "mapped_word m a" and "k \<le> 8"
  shows "le_bytes k (peektext m a) = map (\<lambda>i. the (m (a + of_nat i))) [0..<k]"
proof -
  have "le_bytes 8 (peektext m a) = map (\<lambda>i. the (m (a + of_nat i))) [0..<8]"
    using assms(1) by (simp add: peektext_def le_bytes_le_word_8 word_bytes_def del: upt.simps)
  then have "take k (le_bytes 8 (peektext m a)) = take k (map (\<lambda>i. the (m (a + of_nat i))) [0..<8])"
    by simp
  then show ?thesis using assms(2) by (simp add: take_le_bytes take_map del: upt.simps le_bytes.simps)
qed

text \<open>The bytes of a whole range, and the part of the range that must be mapped.\<close>

definition range_bytes :: "pmem \<Rightarrow> u64 \<Rightarrow> nat \<Rightarrow> bytes" where
  "range_bytes m a n = map (\<lambda>i. the (m (a + of_nat i))) [0..<n]"

definition words_mapped :: "pmem \<Rightarrow> u64 \<Rightarrow> nat \<Rightarrow> bool" where
  "words_mapped m a k \<longleftrightarrow> (\<forall>i < k. mapped_word m (a + of_nat i * 8))"

lemma length_range_bytes [simp]: "length (range_bytes m a n) = n"
  by (simp add: range_bytes_def)

lemma range_bytes_0 [simp]: "range_bytes m a 0 = []"
  by (simp add: range_bytes_def)

lemma range_bytes_add:
  "range_bytes m a (n + k) = range_bytes m a n @ range_bytes m (a + of_nat n) k"
  unfolding range_bytes_def
  by (rule nth_equalityI) (auto simp: nth_append add.assoc simp flip: of_nat_add)

lemma words_mapped_store: "words_mapped m a k \<Longrightarrow> words_mapped (store_bytes m b bs) a k"
  by (simp add: words_mapped_def mapped_word_store)

lemma le_bytes_peek_range:
  "mapped_word m a \<Longrightarrow> k \<le> 8 \<Longrightarrow> le_bytes k (peektext m a) = range_bytes m a k"
  by (simp add: le_bytes_peektext range_bytes_def)

subsection \<open>Reading\<close>

lemma read_loop_step:
  "int i < n \<Longrightarrow> read_loop m addr i n out =
     read_loop m addr (Suc i) n (out @ le_bytes 8 (peektext m (addr + of_nat i * 8)))"
  by (subst read_loop.simps) (simp add: Let_def del: le_bytes.simps)

lemma read_loop_end: "\<not> int i < n \<Longrightarrow> read_loop m addr i n out = (True, i, out)"
  by (subst read_loop.simps) simp

lemma range_bytes_step:
  "i < n \<Longrightarrow> range_bytes m (addr + of_nat i * 8) (8 * (n - i)) =
     range_bytes m (addr + of_nat i * 8) 8 @
     range_bytes m (addr + of_nat (Suc i) * 8) (8 * (n - Suc i))"
proof -
  assume "i < n"
  then have "8 * (n - i) = 8 + 8 * (n - Suc i)" by simp
  then show ?thesis by (simp only: range_bytes_add) (simp add: algebra_simps)
qed

lemma read_loop_mapped:
  "i \<le> n \<Longrightarrow> words_mapped m addr n \<Longrightarrow>
   read_loop m addr i (int n) out =
     (True, n, out @ range_bytes m (addr + of_nat i * 8) (8 * (n - i)))"
proof (induction "n - i" arbitrary: i out)
  case 0
  then show ?case by (simp add: read_loop_end range_bytes_def)
next
  case (Suc k)
  then have lt: "i < n" by simp
  then have "mapped_word m (addr + of_nat i * 8)"
    using Suc.prems by (simp add: words_mapped_def)
  then have "read_loop m addr i (int n) out =
      read_loop m addr (Suc i) (int n) (out @ range_bytes m (addr + of_nat i * 8) 8)"
    using lt by (simp only: read_loop_step le_bytes_peek_range of_nat_less_iff)
  also have "\<dots> = (True, n, (out @ range_bytes m (addr + of_nat i * 8) 8) @
      range_bytes m (addr + of_nat (Suc i) * 8) (8 * (n - Suc i)))"
    using Suc lt by (intro Suc.hyps(1)) simp_all
  finally show ?case using lt by (simp only: range_bytes_step append_assoc)
qed

lemma read_loop_status: "fst (read_loop m addr i n out)"
  by (induction m addr i n out rule: read_loop.induct)
     (subst read_loop.simps, simp add: Let_def)


lemma peektext_unmapped: "m a = None \<Longrightarrow> peektext m a = - 1"
proof -
  assume "m a = None"
  then have "\<not> mapped_word m a"
    unfolding mapped_word_iff not_all by (intro exI [of _ 0]) simp
  then show ?thesis by (simp add: peektext_def)
qed

lemma read_pro_mem_mapped:
  assumes "0 \<le> len" and "len < 2 ^ 31" and "words_mapped m addr ((nat len + 7) div 8)"
  shows "read_pro_mem m addr len = (0, range_bytes m addr (nat len))"
proof -
  define n where "n = nat len div 8"
  define r where "r = nat len mod 8"
  have nr: "nat len = 8 * n + r" and r8: "r < 8"
    by (simp_all add: n_def r_def)
  have "words_mapped m addr n"
    using assms(3) nr by (auto simp: words_mapped_def)
  then have loop: "read_loop m addr 0 (int n) [] = (True, n, range_bytes m addr (8 * n))"
    by (simp add: read_loop_mapped)
  have last: "mapped_word m (addr + of_nat n * 8)" if "r \<noteq> 0"
    using assms(3) nr that by (auto simp: words_mapped_def)
  have "range_bytes m addr (nat len) =
      range_bytes m addr (8 * n) @ range_bytes m (addr + of_nat n * 8) r"
    unfolding nr range_bytes_add by (simp add: mult.commute)
  moreover have "c_words len = int n" and "c_rest len = r"
    using assms(1,2) by (simp_all add: c_words_nat c_rest_nat n_def r_def)
  ultimately show ?thesis
    using loop last r8
    by (cases "r = 0") (simp_all add: read_pro_mem_def le_bytes_peek_range)
qed

lemma read_pro_mem_status: "fst (read_pro_mem m addr len) = 0"
  using read_loop_status [of m addr 0 "c_words len" "[]"]
  by (auto simp: read_pro_mem_def Let_def split: prod.splits bool.splits)

lemma le_bytes_minus_1: "k \<le> 8 \<Longrightarrow> le_bytes k (- 1) = replicate k 255"
proof -
  assume "k \<le> 8"
  have "le_bytes 8 (- 1) = replicate 8 255" by code_simp
  then have "take k (le_bytes 8 (- 1)) = take k (replicate 8 255)" by (rule arg_cong)
  then show ?thesis using \<open>k \<le> 8\<close> by (simp add: take_le_bytes del: le_bytes.simps)
qed

lemma read_loop_unmapped:
  assumes "\<And>a. m a = None"
  shows "i \<le> n \<Longrightarrow> read_loop m addr i (int n) out = (True, n, out @ replicate (8 * (n - i)) 255)"
proof (induction "n - i" arbitrary: i out)
  case 0
  then show ?case by (simp add: read_loop_end)
next
  case (Suc k)
  then have lt: "i < n" by simp
  have "peektext m a = - 1" for a
    by (rule peektext_unmapped) (rule assms)
  then have "read_loop m addr i (int n) out =
      read_loop m addr (Suc i) (int n) (out @ replicate 8 255)"
    using lt by (simp only: read_loop_step le_bytes_minus_1 of_nat_less_iff order_refl)
  also have "\<dots> = (True, n, (out @ replicate 8 255) @ replicate (8 * (n - Suc i)) 255)"
    using Suc lt by (intro Suc.hyps(1)) simp_all
  also have "\<dots> = (True, n, out @ replicate (8 + 8 * (n - Suc i)) 255)"
    by (simp only: append_assoc replicate_add)
  also have "8 + 8 * (n - Suc i) = 8 * (n - i)" using lt by simp
  finally show ?case .
qed

lemma read_pro_mem_unmapped:
  assumes "\<And>a. m a = None" and "0 \<le> len" and "len < 2 ^ 31"
  shows "read_pro_mem m addr len = (0, replicate (nat len) 255)"
proof -
  have loop: "read_loop m addr 0 (c_words len) [] =
      (True, nat len div 8, replicate (8 * (nat len div 8)) 255)"
    using read_loop_unmapped [OF assms(1), of 0 "nat len div 8"] assms(2,3)
    by (simp add: c_words_nat)
  have pk: "peektext m a = - 1" for a
    by (rule peektext_unmapped) (rule assms(1))
  have "replicate (nat len) (255 :: u8) =
      replicate (8 * (nat len div 8)) 255 @ replicate (nat len mod 8) 255"
    by (simp flip: replicate_add)
  then show ?thesis
    using assms(2,3)
    by (simp add: read_pro_mem_def loop pk c_rest_nat le_bytes_minus_1 Let_def)
qed


subsection \<open>Writing\<close>

lemma mapped_wordD: "mapped_word m a \<Longrightarrow> unat (x - a) < 8 \<Longrightarrow> m x \<noteq> None"
proof -
  assume m: "mapped_word m a" and x: "unat (x - a) < 8"
  have "a + of_nat (unat (x - a)) = x" by simp
  then show ?thesis using m x unfolding mapped_word_iff by metis
qed

lemma store_word_dom:
  assumes "mapped_word m a" and "length bs \<le> 8"
  shows "store_bytes m a bs x = None \<longleftrightarrow> m x = None"
proof (cases "unat (x - a) < length bs")
  case True
  then have "m x \<noteq> None" using assms mapped_wordD [of m a x] by simp
  with True assms(2) show ?thesis by (simp add: store_bytes_lookup)
next
  case False
  with assms(2) show ?thesis by (simp add: store_bytes_lookup)
qed

lemma mapped_word_store_iff:
  "mapped_word m a \<Longrightarrow> length bs \<le> 8 \<Longrightarrow>
   mapped_word (store_bytes m a bs) b \<longleftrightarrow> mapped_word m b"
  by (simp only: mapped_word_iff store_word_dom)

lemma poketext_mapped:
  "mapped_word m a \<Longrightarrow> length bs = 8 \<Longrightarrow>
   poketext m a (le_word bs) = Some (store_bytes m a bs)"
  by (simp add: poketext_def le_bytes_le_word_8 del: le_bytes.simps)

lemma write_loop_step:
  assumes "int i < n" and "load_buf str (8 * i) 8 = Some d" and "mapped_word m (addr + of_nat i * 8)"
  shows "write_loop m addr i n str =
     write_loop (store_bytes m (addr + of_nat i * 8) d) addr (Suc i) n str"
  using assms by (subst write_loop.simps) (simp add: poketext_mapped length_load_buf)

lemma write_loop_end: "\<not> int i < n \<Longrightarrow> write_loop m addr i n str = Some (True, i, m)"
  by (subst write_loop.simps) simp

lemma write_loop_fail:
  "int i < n \<Longrightarrow> load_buf str (8 * i) 8 = Some d \<Longrightarrow> \<not> mapped_word m (addr + of_nat i * 8) \<Longrightarrow>
   write_loop m addr i n str = Some (False, i, m)"
  by (subst write_loop.simps) (simp add: poketext_def)

text \<open>
  The loop stores whole words up to the first unmapped one (\<open>k\<close>) or up to its bound.
\<close>

definition stored_upto :: "pmem \<Rightarrow> u64 \<Rightarrow> nat \<Rightarrow> nat \<Rightarrow> bytes \<Rightarrow> pmem" where
  "stored_upto m addr i k str =
     store_bytes m (addr + of_nat i * 8) (take (8 * (k - i)) (drop (8 * i) str))"

lemma stored_upto_step:
  assumes "i < k" and "8 * i + 8 \<le> length str"
  shows "stored_upto m addr i k str =
    stored_upto (store_bytes m (addr + of_nat i * 8) (take 8 (drop (8 * i) str))) addr (Suc i) k str"
proof -
  have "8 * (k - i) = 8 + 8 * (k - Suc i)" using assms(1) by simp
  then have "take (8 * (k - i)) (drop (8 * i) str) =
      take 8 (drop (8 * i) str) @ take (8 * (k - Suc i)) (drop (8 * Suc i) str)"
    by (simp only: take_add drop_drop) (simp add: add.commute)
  then show ?thesis
    using assms(2) by (simp only: stored_upto_def store_bytes_append) (simp add: algebra_simps)
qed

lemma write_loop_stored:
  "i \<le> k \<Longrightarrow> k \<le> n \<Longrightarrow> words_mapped m addr k \<Longrightarrow> 8 * n \<le> length str \<Longrightarrow>
   k < n \<longrightarrow> \<not> mapped_word m (addr + of_nat k * 8) \<Longrightarrow>
   write_loop m addr i (int n) str = Some (k = n, k, stored_upto m addr i k str)"
proof (induction "k - i" arbitrary: i m)
  case 0
  then have "i = k" by simp
  moreover have "load_buf str (8 * k) 8 = Some (take 8 (drop (8 * k) str))" if "k < n"
    using 0 that by (intro load_buf_ok) simp
  ultimately show ?case
    using 0 by (cases "k = n") (simp_all add: write_loop_end write_loop_fail stored_upto_def)
next
  case (Suc j)
  define m' where "m' = store_bytes m (addr + of_nat i * 8) (take 8 (drop (8 * i) str))"
  have lt: "i < k" using Suc.hyps(2) by simp
  then have m: "mapped_word m (addr + of_nat i * 8)"
    using Suc.prems by (simp add: words_mapped_def)
  have ld: "load_buf str (8 * i) 8 = Some (take 8 (drop (8 * i) str))"
    using Suc.prems lt by (intro load_buf_ok) simp
  have "mapped_word m' b \<longleftrightarrow> mapped_word m b" for b
    unfolding m'_def using m by (intro mapped_word_store_iff) simp_all
  then have "write_loop m' addr (Suc i) (int n) str = Some (k = n, k, stored_upto m' addr (Suc i) k str)"
    using Suc.prems Suc.hyps(2) lt by (intro Suc.hyps(1)) (simp_all add: words_mapped_def)
  moreover have "write_loop m addr i (int n) str = write_loop m' addr (Suc i) (int n) str"
    unfolding m'_def using lt Suc.prems m ld by (intro write_loop_step) simp_all
  moreover have "stored_upto m addr i k str = stored_upto m' addr (Suc i) k str"
    unfolding m'_def using lt Suc.prems by (intro stored_upto_step) simp_all
  ultimately show ?case by simp
qed

lemma store_with_old_bytes:
  assumes "mapped_word m a" and "length part \<le> 8"
  shows "store_bytes m a (part @ drop (length part) (range_bytes m a 8)) = store_bytes m a part"
proof
  fix x
  have "m x = Some (the (m x))" if "unat (x - a) < 8"
    using mapped_wordD [OF assms(1) that] by simp
  moreover have "a + of_nat (unat (x - a)) = x" by simp
  ultimately show "store_bytes m a (part @ drop (length part) (range_bytes m a 8)) x =
      store_bytes m a part x"
    using assms(2)
    by (auto simp: store_bytes_lookup nth_append range_bytes_def simp del: upt.simps)
qed


lemma write_pro_mem_mapped:
  assumes "0 \<le> len" and "len < 2 ^ 31" and "nat len \<le> length str"
    and "words_mapped m addr ((nat len + 7) div 8)"
  shows "write_pro_mem m addr str len = Some (0, store_bytes m addr (take (nat len) str))"
proof -
  define n where "n = nat len div 8"
  define r where "r = nat len mod 8"
  define b where "b = addr + of_nat n * 8"
  define m1 where "m1 = store_bytes m addr (take (8 * n) str)"
  define part where "part = take r (drop (8 * n) str)"
  have nr: "nat len = 8 * n + r" and r8: "r < 8"
    by (simp_all add: n_def r_def)
  have "words_mapped m addr n"
    using assms(4) nr by (auto simp: words_mapped_def)
  then have loop: "write_loop m addr 0 (int n) str = Some (True, n, m1)"
    using write_loop_stored [of 0 n n m addr str] assms(3) nr
    by (simp add: stored_upto_def m1_def)
  have cw: "c_words len = int n" and cr: "c_rest len = r"
    using assms(1,2) by (simp_all add: c_words_nat c_rest_nat n_def r_def)
  have split: "take (nat len) str = take (8 * n) str @ part"
    by (simp add: nr take_add part_def)
  show ?thesis
  proof (cases "r = 0")
    case True
    then show ?thesis by (simp add: write_pro_mem_def cw cr loop m1_def nr)
  next
    case False
    then have "mapped_word m b"
      using assms(4) nr by (auto simp: words_mapped_def b_def)
    then have m1: "mapped_word m1 b" by (simp add: m1_def mapped_word_store)
    have ld: "load_buf str (8 * n) r = Some part" and lp: "length part = r"
      using assms(3) nr by (simp_all add: load_buf_ok part_def)
    have "poketext m1 b (le_word (part @ drop r (le_bytes 8 (peektext m1 b)))) =
        Some (store_bytes m1 b (part @ drop (length part) (range_bytes m1 b 8)))"
      using m1 lp r8 by (subst poketext_mapped) (simp_all add: le_bytes_peek_range del: le_bytes.simps)
    also have "\<dots> = Some (store_bytes m1 b part)"
      using store_with_old_bytes [OF m1, of part] lp r8 by simp
    finally have "write_pro_mem m addr str len = Some (0, store_bytes m1 b part)"
      using False by (simp add: write_pro_mem_def cw cr loop ld flip: b_def del: le_bytes.simps)
    moreover have "length (take (8 * n) str) = 8 * n"
      using assms(3) nr by simp
    then have "store_bytes m addr (take (nat len) str) = store_bytes m1 b part"
      unfolding split store_bytes_append m1_def b_def by (simp add: mult.commute)
    ultimately show ?thesis by simp
  qed
qed

lemma write_pro_mem_unmapped:
  assumes "0 \<le> len" and "len < 2 ^ 31" and "nat len \<le> length str"
    and "k < (nat len + 7) div 8" and "words_mapped m addr k"
    and "\<not> mapped_word m (addr + of_nat k * 8)"
  shows "write_pro_mem m addr str len = Some (- 1, store_bytes m addr (take (8 * k) str))"
proof -
  define n where "n = nat len div 8"
  define r where "r = nat len mod 8"
  define m1 where "m1 = store_bytes m addr (take (8 * k) str)"
  have nr: "nat len = 8 * n + r" and r8: "r < 8"
    by (simp_all add: n_def r_def)
  have kn: "k \<le> n" and kr: "k = n \<Longrightarrow> r \<noteq> 0"
    using assms(4) nr r8 by auto
  have cw: "c_words len = int n" and cr: "c_rest len = r"
    using assms(1,2) by (simp_all add: c_words_nat c_rest_nat n_def r_def)
  have loop: "write_loop m addr 0 (int n) str = Some (k = n, k, m1)"
    using write_loop_stored [of 0 k n m addr str] assms(3,5,6) nr kn
    by (simp add: stored_upto_def m1_def)
  show ?thesis
  proof (cases "k = n")
    case False
    then show ?thesis by (simp add: write_pro_mem_def cw loop m1_def)
  next
    case True
    have "m1 x = None \<longleftrightarrow> m x = None" if "unat (x - (addr + of_nat k * 8)) < 8" for x
    proof -
      have "x - addr = (x - (addr + of_nat k * 8)) + of_nat (8 * k)"
        by (simp add: algebra_simps)
      moreover have "unat (of_nat (8 * k) :: u64) = 8 * k"
        using assms(2,4) by (intro unat_of_nat_u64) simp
      ultimately have "\<not> unat (x - addr) < 8 * k"
        using that assms(2,4) unat_add_u64 [of "x - (addr + of_nat k * 8)" "of_nat (8 * k)"]
        by simp
      moreover have "length (take (8 * k) str) \<le> 8 * k" and "8 * k \<le> 2 ^ 32"
        using assms(2,4) by simp_all
      ultimately show ?thesis
        unfolding m1_def by (subst store_bytes_lookup) (linarith, auto)
    qed
    then have "\<not> mapped_word m1 (addr + of_nat k * 8)"
      using assms(6) by (simp add: mapped_word_iff unat_of_nat)
    moreover have "load_buf str (8 * n) r = Some (take r (drop (8 * n) str))"
      using assms(3) nr by (simp add: load_buf_ok)
    ultimately show ?thesis
      using True kr [OF True]
      by (simp add: write_pro_mem_def cw cr loop poketext_def m1_def del: le_bytes.simps)
  qed
qed


subsection \<open>The interface the breakpoints rely on\<close>

text \<open>
  The breakpoint code only reads and writes single bytes.  The contract: where the word at an
  address is accessible, reading one byte returns it, writing one byte changes that byte alone,
  and no write changes what is accessible.
\<close>

locale process_memory =
  fixes rd :: "'m \<Rightarrow> u64 \<Rightarrow> int \<Rightarrow> int \<times> bytes"
    and wr :: "'m \<Rightarrow> u64 \<Rightarrow> bytes \<Rightarrow> int \<Rightarrow> (int \<times> 'm) option"
    and byte :: "'m \<Rightarrow> u64 \<Rightarrow> u8 option"
    and acc :: "'m \<Rightarrow> u64 \<Rightarrow> bool"
  assumes rd_byte: "acc m a \<Longrightarrow> \<exists>b. byte m a = Some b \<and> rd m a 1 = (0, [b])"
    and wr_byte: "acc m a \<Longrightarrow>
      \<exists>m'. wr m a [b] 1 = Some (0, m') \<and> byte m' = (byte m)(a \<mapsto> b) \<and> acc m' = acc m"
begin

lemma wr_frame: "acc m a \<Longrightarrow> wr m a [b] 1 = Some (r, m') \<Longrightarrow> x \<noteq> a \<Longrightarrow> byte m' x = byte m x"
  using wr_byte [of m a b] by auto

lemma wr_acc: "acc m a \<Longrightarrow> wr m a [b] 1 = Some (r, m') \<Longrightarrow> acc m' = acc m"
  using wr_byte [of m a b] by auto

lemma patch_then_restore:
  assumes "acc m a" and "rd m a 1 = (0, [orig])" and "wr m a [x] 1 = Some (r1, m1)"
    and "wr m1 a [orig] 1 = Some (r2, m2)"
  shows "byte m2 = byte m"
proof -
  have m1: "byte m1 = (byte m)(a \<mapsto> x)" "acc m1 a"
    using wr_byte [OF assms(1), of x] assms(1,3) by auto
  have "byte m2 = (byte m1)(a \<mapsto> orig)"
    using wr_byte [OF m1(2), of orig] assms(4) by auto
  moreover have "byte m a = Some orig"
    using rd_byte [OF assms(1)] assms(2) by auto
  ultimately show ?thesis using m1(1) by auto
qed

end

lemma read_one_byte: "mapped_word m a \<Longrightarrow> \<exists>b. m a = Some b \<and> read_pro_mem m a 1 = (0, [b])"
  using read_pro_mem_mapped [of 1 m a] mapped_wordD [of m a a]
  by (auto simp: words_mapped_def range_bytes_def)

lemma write_one_byte: "mapped_word m a \<Longrightarrow> write_pro_mem m a [b] 1 = Some (0, m(a \<mapsto> b))"
  using write_pro_mem_mapped [of 1 "[b]" m a] by (simp add: words_mapped_def)

lemma mapped_word_upd: "mapped_word m a \<Longrightarrow> mapped_word (m(a \<mapsto> b)) = mapped_word m"
  using mapped_word_store_iff [of m a "[b]"] by auto

interpretation pm: process_memory read_pro_mem write_pro_mem "\<lambda>m. m" mapped_word
  by unfold_locales (auto simp: read_one_byte write_one_byte mapped_word_upd)

subsection \<open>Properties of mem.c\<close>

text \<open>
  C11: \<open>read_pro_mem\<close> returns 0 and exactly the \<open>len\<close> bytes at the address, for every length of
  an \<open>int\<close> and whether or not it is a multiple of the word size, provided every word it peeks
  is mapped (the last word is peeked whole even when only some of its bytes are copied).
\<close>

theorem read_pro_mem_correct:
  assumes "0 \<le> len" and "len < 2 ^ 31" and "\<forall>i < (nat len + 7) div 8. mapped_word m (addr + of_nat i * 8)"
  shows "fst (read_pro_mem m addr len) = 0
    \<and> length (snd (read_pro_mem m addr len)) = nat len
    \<and> (\<forall>i < nat len. Some (snd (read_pro_mem m addr len) ! i) = m (addr + of_nat i))"
proof -
  have "m (addr + of_nat i) \<noteq> None" if "i < nat len" for i
  proof -
    have "mapped_word m (addr + of_nat (i div 8) * 8)" using assms(3) that by simp
    then have "m (addr + of_nat (i div 8) * 8 + of_nat (i mod 8)) \<noteq> None"
      by (simp add: mapped_word_iff)
    then show ?thesis by (simp add: add.assoc of_nat_div_mod_8)
  qed
  then show ?thesis
    using read_pro_mem_mapped [OF assms(1,2)] assms(3)
    by (simp add: words_mapped_def range_bytes_def)
qed

lemma read_pro_mem_correct_witness:
  "fst (read_pro_mem (\<lambda>a. Some (ucast a)) 0x1003 11) = 0
    \<and> length (snd (read_pro_mem (\<lambda>a. Some (ucast a)) 0x1003 11)) = 11
    \<and> snd (read_pro_mem (\<lambda>a. Some (ucast a)) 0x1003 11) ! 10 = 0x0d"
proof -
  let ?m = "\<lambda>a :: u64. Some (ucast a :: u8)"
  have all: "\<forall>i < nat 11. Some (snd (read_pro_mem ?m 0x1003 11) ! i) = ?m (0x1003 + of_nat i)"
    and "fst (read_pro_mem ?m 0x1003 11) = 0" "length (snd (read_pro_mem ?m 0x1003 11)) = nat 11"
    using read_pro_mem_correct [of 11 ?m "0x1003"] by (simp_all add: mapped_word_iff)
  then show ?thesis using all [rule_format, of 10] by simp
qed

text \<open>
  C40: \<open>read_pro_mem\<close> never reports an error: its test \<open>data < 0\<close> compares an unsigned word with
  0, so it returns 0 for every memory, address and length, and reading a wholly unmapped process
  fills the buffer with \<open>0xFF\<close> bytes.
\<close>

theorem read_pro_mem_hides_errors:
  "fst (read_pro_mem m addr len) = 0
   \<and> (n < 2 ^ 31 \<longrightarrow> read_pro_mem (\<lambda>_. None) addr (int n) = (0, replicate n 0xFF))"
  using read_pro_mem_unmapped [of "\<lambda>_. None" "int n"] by (simp add: read_pro_mem_status)

lemma read_pro_mem_hides_errors_witness:
  "(3 :: nat) < 2 ^ 31 \<and> read_pro_mem (\<lambda>_. None) 0x400000 (int 3) = (0, replicate 3 0xFF)"
  using read_pro_mem_hides_errors [of "\<lambda>_. None" "0x400000" 3 3] by simp

text \<open>
  C12: \<open>write_pro_mem\<close> over mapped words returns 0, stores exactly the first \<open>len\<close> bytes of the
  buffer and leaves every other byte of the process unchanged, although it rewrites whole words.
\<close>

theorem write_pro_mem_correct:
  assumes "0 \<le> len" and "len < 2 ^ 31" and "nat len \<le> length str"
    and "\<forall>i < (nat len + 7) div 8. mapped_word m (addr + of_nat i * 8)"
  shows "\<exists>m'. write_pro_mem m addr str len = Some (0, m')
    \<and> (\<forall>x. m' x = (if unat (x - addr) < nat len then Some (str ! unat (x - addr)) else m x))"
  using write_pro_mem_mapped [OF assms(1-3)] assms
  by (simp add: words_mapped_def store_bytes_lookup)

lemma write_pro_mem_correct_witness:
  "\<exists>m'. write_pro_mem (\<lambda>_. Some 0x90) 0x2001 [1, 2, 3, 4, 5, 6, 7, 8, 9] 9 = Some (0, m')
    \<and> (\<forall>x. m' x = (if unat (x - 0x2001) < nat 9
                   then Some ([1, 2, 3, 4, 5, 6, 7, 8, 9] ! unat (x - 0x2001)) else Some 0x90))"
  using write_pro_mem_correct [of 9 "[1, 2, 3, 4, 5, 6, 7, 8, 9]" "\<lambda>_. Some 0x90" "0x2001"]
  by (simp add: mapped_word_iff)

text \<open>
  C38: what \<open>write_pro_mem\<close> has written, \<open>read_pro_mem\<close> reads back.
\<close>

theorem write_read_roundtrip:
  assumes "0 \<le> len" and "len < 2 ^ 31" and "nat len \<le> length str"
    and "\<forall>i < (nat len + 7) div 8. mapped_word m (addr + of_nat i * 8)"
    and "write_pro_mem m addr str len = Some (r, m')"
  shows "read_pro_mem m' addr len = (0, take (nat len) str)"
proof -
  have m': "m' = store_bytes m addr (take (nat len) str)"
    using write_pro_mem_mapped [OF assms(1-3)] assms(4,5) by (simp add: words_mapped_def)
  have "words_mapped m' addr ((nat len + 7) div 8)"
    unfolding m' using assms(4) by (intro words_mapped_store) (simp add: words_mapped_def)
  moreover have "range_bytes m' addr (nat len) = take (nat len) str"
    using assms(2,3) unfolding m' range_bytes_def
    by (intro nth_equalityI) (simp_all add: store_bytes_lookup unat_of_nat_u64)
  ultimately show ?thesis using read_pro_mem_mapped [OF assms(1,2)] by simp
qed

lemma write_read_roundtrip_witness:
  "\<exists>m'. read_pro_mem m' 0x2001 3 = (0, [0xCC, 1, 2])"
proof -
  obtain r m' where "write_pro_mem (\<lambda>_. Some 0x90) 0x2001 [0xCC, 1, 2] 3 = Some (r, m')"
    using write_pro_mem_mapped [of 3 "[0xCC, 1, 2]" "\<lambda>_. Some 0x90" "0x2001"]
    by (simp add: words_mapped_def mapped_word_iff)
  then show ?thesis
    using write_read_roundtrip [of 3 "[0xCC, 1, 2]" "\<lambda>_. Some 0x90" "0x2001" r m']
    by (auto simp: mapped_word_iff)
qed

text \<open>
  when a word of the range is not mapped, \<open>write_pro_mem\<close> returns \<open>-1\<close> and has already stored
  the whole words before the first unmapped one: the write is not atomic.
\<close>

theorem write_pro_mem_error:
  assumes "0 \<le> len" and "len < 2 ^ 31" and "nat len \<le> length str"
    and "k < (nat len + 7) div 8" and "\<forall>i < k. mapped_word m (addr + of_nat i * 8)"
    and "\<not> mapped_word m (addr + of_nat k * 8)"
  shows "\<exists>m'. write_pro_mem m addr str len = Some (- 1, m')
    \<and> (\<forall>x. m' x = (if unat (x - addr) < 8 * k then Some (str ! unat (x - addr)) else m x))"
proof -
  have "8 * k \<le> nat len" using assms(4) by simp
  then show ?thesis
    using write_pro_mem_unmapped [OF assms(1-4)] assms
    by (simp add: words_mapped_def store_bytes_lookup)
qed

lemma write_pro_mem_error_witness:
  "\<exists>m'. write_pro_mem (\<lambda>a. if a < 8 then Some 0 else None) 0 (replicate 12 7) 12 = Some (- 1, m')
    \<and> (\<forall>x. m' x = (if unat (x - 0) < 8 * 1 then Some (replicate 12 7 ! unat (x - 0))
                   else if x < 8 then Some 0 else None))"
proof -
  have "of_nat i < (8 :: u64)" if "i < 8" for i
    using that by (simp add: word_less_nat_alt unat_of_nat_u64)
  then show ?thesis
    using write_pro_mem_error [of 12 "replicate 12 7" 1 "\<lambda>a. if a < 8 then Some 0 else None" 0]
    by (simp add: mapped_word_iff exI [of _ 0])
qed

end
