(* ===== verification/Elfsym.thy ===== *)
theory Elfsym imports Prelude "HOL-Library.Monad_Syntax" "HOL-Library.Sublist" begin

text \<open>
  The symbol table of the traced program (\<open>elf_parse.c\<close>): the load base read from
  \<open>/proc/pid/maps\<close>, the section lookup in the ELF image, the table of function symbols and the
  lookup by name.

  The file image is the byte list \<open>word\<close>: the contents of the file and the zero byte of
  \<open>calloc(1, filesize + 1)\<close>.  A pointer into it is its 64-bit offset, so offset arithmetic wraps
  as the pointer arithmetic of the code does; every access outside the image is \<open>None\<close>, the
  undefined behaviour of the C program.  The field offsets are those of \<open>Elf64_Ehdr\<close>,
  \<open>Elf64_Shdr\<close> and \<open>Elf64_Sym\<close> in \<open>elf.h\<close>.
\<close>

subsection \<open>The file contents\<close>

text \<open>
  A stream is the bytes of its file, \<open>None\<close> for NULL.  \<open>get_file_size\<close> stores the \<open>long\<close> of \<open>ftell\<close>
  in an \<open>int\<close>.
\<close>

definition get_file_size :: "bytes option \<Rightarrow> int" where
  "get_file_size fp =
     (case fp of None \<Rightarrow> - 1 | Some f \<Rightarrow> signed_take_bit 31 (int (length f)))"

text \<open>
  \<open>get_file_word\<close>: \<open>fread\<close> in chunks of 1024 until \<open>feof\<close>, which a short read sets.
\<close>

function get_file_word :: "bytes \<Rightarrow> bytes \<Rightarrow> bytes" where
  "get_file_word fp word =
     (let word' = word @ take 1024 fp
      in if length fp < 1024 then word' else get_file_word (drop 1024 fp) word')"
  by pat_completeness auto
termination
  by (relation "measure (\<lambda>(fp, word). length fp)") auto

declare get_file_word.simps [simp del]

lemma get_file_word_all: "get_file_word fp word = word @ fp"
proof (induction fp word rule: get_file_word.induct)
  case (1 fp word)
  then show ?case
    by (cases "length fp < 1024") (simp_all add: get_file_word.simps [of fp])
qed

text \<open>
  The image \<open>open_funs\<close> builds: \<open>get_file_word\<close> into the \<open>filesize + 1\<close> zero bytes of \<open>calloc\<close>.  \<open>None\<close>
  is a sum that overflows \<open>int\<close>, a negative size (\<open>calloc\<close> is asked for nearly \<open>2^64\<close> bytes, and the
  image is then read through NULL) and a file that does not fit the block.
\<close>

definition read_image :: "bytes \<Rightarrow> bytes option" where
  "read_image fp =
     (let filesize = get_file_size (Some fp);
          word = get_file_word fp []
      in if filesize = 2 ^ 31 - 1 \<or> filesize + 1 < 0 then None
         else if nat (filesize + 1) < length word then None
         else Some (word @ replicate (nat (filesize + 1) - length word) 0))"

lemma read_image_all: "length fp < 2 ^ 31 - 1 \<Longrightarrow> read_image fp = Some (fp @ [0])"
proof -
  assume l: "length fp < 2 ^ 31 - 1"
  then have "signed_take_bit 31 (int (length fp)) = int (length fp)"
    by (intro signed_take_bit_int_eq_self) auto
  moreover have "int (length fp) \<noteq> 2 ^ 31 - 1" "nat (int (length fp) + 1) = Suc (length fp)"
    using l by auto
  ultimately show ?thesis by (simp add: read_image_def get_file_size_def get_file_word_all)
qed

subsection \<open>Scanning text: sscanf conversions\<close>

text \<open>
  The value of a hexadecimal digit, and \<open>sscanf\<close> with \<open>%lx\<close>: leading white space, a sign and a
  \<open>0x\<close> prefix are accepted, a value past \<open>ULONG_MAX\<close> saturates, \<open>None\<close> is a matching failure.
\<close>

definition hexval :: "u8 \<Rightarrow> nat option" where
  "hexval c =
     (if 0x30 \<le> c \<and> c \<le> 0x39 then Some (unat c - 0x30)
      else if 0x61 \<le> c \<and> c \<le> 0x66 then Some (unat c - 0x57)
      else if 0x41 \<le> c \<and> c \<le> 0x46 then Some (unat c - 0x37)
      else None)"

definition hex_number :: "bytes \<Rightarrow> nat" where
  "hex_number ds = foldl (\<lambda>v d. 16 * v + the (hexval d)) 0 ds"

definition scan_lx :: "bytes \<Rightarrow> u64 option" where
  "scan_lx s =
     (let s1 = dropWhile isspace s;
          neg = (case s1 of c # _ \<Rightarrow> c = 0x2d | [] \<Rightarrow> False);
          s2 = (case s1 of c # r \<Rightarrow> (if c = 0x2d \<or> c = 0x2b then r else s1) | [] \<Rightarrow> []);
          s3 = (if take 2 s2 = ascii ''0x'' \<or> take 2 s2 = ascii ''0X'' then drop 2 s2 else s2);
          ds = takeWhile (\<lambda>d. hexval d \<noteq> None) s3
      in if ds = [] then None
         else if hex_number ds < 2 ^ 64
              then Some (if neg then - of_nat (hex_number ds) else of_nat (hex_number ds))
              else Some (- 1))"

text \<open>The fields of \<open>"%[^ ] %[^ ] \<dots>"\<close>: runs of non-space bytes separated by white space.\<close>

fun scan_fields :: "nat \<Rightarrow> bytes \<Rightarrow> bytes list" where
  "scan_fields 0 s = []"
| "scan_fields (Suc k) s =
     (let f = takeWhile (\<lambda>c. c \<noteq> 0x20) s
      in if f = [] then []
         else f # scan_fields k (dropWhile isspace (dropWhile (\<lambda>c. c \<noteq> 0x20) s)))"

subsection \<open>get_pid_base\<close>

text \<open>
  The three buffers that keep their contents from line to line; a conversion that fails leaves
  its buffer as it was.  They are parts of one array; in a line of \<open>/proc/pid/maps\<close> the address
  range has at most 33 characters and the offset at most 16, so they stay apart, and a path that is
  too long for its part only runs into the scratch part \<open>p\<close>, which is not read before it is rewritten.
\<close>

record maps_bufs =
  pro_addr :: bytes
  pro_maps :: bytes
  pro_name :: bytes

definition scan_maps :: "bytes \<Rightarrow> maps_bufs \<Rightarrow> maps_bufs" where
  "scan_maps data b =
     (let fs = scan_fields 6 (cstr data)
      in \<lparr>pro_addr = (if 0 < length fs then fs ! 0 else pro_addr b),
          pro_maps = (if 2 < length fs then fs ! 2 else pro_maps b),
          pro_name = (if 5 < length fs then fs ! 5 else pro_name b)\<rparr>)"

text \<open>
  \<open>memcmp(buf, pat, length pat) == 0\<close> for a buffer that holds the string \<open>s\<close> and a pattern
  without NUL.
\<close>

definition buf_starts :: "bytes \<Rightarrow> bytes \<Rightarrow> bool" where
  "buf_starts pat s \<longleftrightarrow> take (length pat) s = pat"

fun pid_base_loop :: "bytes list \<Rightarrow> bytes \<Rightarrow> maps_bufs \<Rightarrow> u64" where
  "pid_base_loop [] target b = 0"
| "pid_base_loop (data # ls) target b =
     (let b' = scan_maps data b
      in if buf_starts (take (length target - 1) target) (pro_name b')
            \<and> buf_starts (ascii ''00000000'') (pro_maps b')
         then (case scan_lx (takeWhile (\<lambda>c. c \<noteq> 0x2d) (pro_addr b')) of
                 None \<Rightarrow> 0 | Some num \<Rightarrow> num)
         else pid_base_loop ls target b')"

text \<open>
  \<open>maps\<close> is the list of lines \<open>fgets\<close> returns (\<open>None\<close> when \<open>fopen\<close> fails), after which the loop
  runs once more on the zeroed line buffer; \<open>target\<close> is what \<open>readlink\<close> stored.  With an empty
  target \<open>target_len-1\<close> becomes \<open>SIZE_MAX\<close>; with one of 100 bytes the zero is stored past \<open>target\<close>.
\<close>

definition get_pid_base :: "bytes list option \<Rightarrow> bytes \<Rightarrow> u64 option" where
  "get_pid_base maps target =
     (case maps of
        None \<Rightarrow> Some (- 1)
      | Some ls \<Rightarrow>
          if target = [] \<or> 100 \<le> length target then None
          else Some (pid_base_loop (ls @ [[]]) target
                 \<lparr>pro_addr = [], pro_maps = [], pro_name = []\<rparr>))"

subsection \<open>Fields of the image\<close>

definition rd_le :: "bytes \<Rightarrow> u64 \<Rightarrow> nat \<Rightarrow> u64 option" where
  "rd_le img off k = map_option le_word (load_buf img (unat off) k)"

record elf64_shdr =
  sh_name :: u64
  sh_offset :: u64
  sh_size :: u64

record elf64_sym =
  st_name :: u64
  st_info :: u64
  st_value :: u64

definition rd_shdr :: "bytes \<Rightarrow> u64 \<Rightarrow> elf64_shdr option" where
  "rd_shdr img off =
     do {
       nm \<leftarrow> rd_le img off 4;
       ofs \<leftarrow> rd_le img (off + 0x18) 8;
       sz \<leftarrow> rd_le img (off + 0x20) 8;
       Some \<lparr>sh_name = nm, sh_offset = ofs, sh_size = sz\<rparr>
     }"

definition rd_sym :: "bytes \<Rightarrow> u64 \<Rightarrow> elf64_sym option" where
  "rd_sym img off =
     do {
       nm \<leftarrow> rd_le img off 4;
       inf \<leftarrow> rd_le img (off + 4) 1;
       val \<leftarrow> rd_le img (off + 8) 8;
       Some \<lparr>st_name = nm, st_info = inf, st_value = val\<rparr>
     }"

text \<open>The bytes from an offset of the image on: the string pointer \<open>word + off\<close>.\<close>

definition img_ptr :: "bytes \<Rightarrow> u64 \<Rightarrow> cptr" where
  "img_ptr img off = drop (unat off) img"

text \<open>
  \<open>strcmp(s, p) == 0\<close> for a string constant \<open>s\<close> (without its NUL) and a pointer into the image.
\<close>

fun strcmp_eq :: "bytes \<Rightarrow> cptr \<Rightarrow> bool option" where
  "strcmp_eq _ [] = None"
| "strcmp_eq [] (b # bs) = Some (b = 0)"
| "strcmp_eq (c # cs) (b # bs) = (if c = b then strcmp_eq cs bs else Some False)"

subsection \<open>get_section_addr\<close>

function find_section ::
  "bytes \<Rightarrow> u64 \<Rightarrow> u64 \<Rightarrow> bytes \<Rightarrow> nat \<Rightarrow> nat \<Rightarrow> nat option" where
  "find_section word stables shstrtab sectionname i table_max =
     (if i < table_max then
        do {
          sh \<leftarrow> rd_shdr word (stables + of_nat i * 64);
          eq \<leftarrow> strcmp_eq sectionname (img_ptr word (shstrtab + sh_name sh));
          if eq then Some i else find_section word stables shstrtab sectionname (Suc i) table_max
        }
      else Some i)"
  by pat_completeness auto
termination
  by (relation "measure (\<lambda>(word, stables, shstrtab, sectionname, i, table_max). table_max - i)") auto

declare find_section.simps [simp del]

text \<open>
  The result is the returned pointer (\<open>None\<close> for NULL) and the final \<open>*sectionsize\<close>;
  \<open>sh_size\<close> is truncated to \<open>int\<close>.  \<open>word\<close> is \<open>None\<close> where the C pointer is NULL.
\<close>

definition to_int :: "u64 \<Rightarrow> int" where
  "to_int w = signed_take_bit 31 (uint w)"

definition get_section_addr ::
  "u64 \<Rightarrow> bytes option \<Rightarrow> nat \<Rightarrow> nat \<Rightarrow> bytes \<Rightarrow> int \<Rightarrow> (u64 option \<times> int) option" where
  "get_section_addr stables wordp table_max shstrndx sectionname sectionsize =
     (case wordp of
        None \<Rightarrow> Some (None, sectionsize)
      | Some word \<Rightarrow>
          do {
            str_sh \<leftarrow> rd_shdr word (stables + of_nat shstrndx * 64);
            let shstrtab_addr = sh_offset str_sh;
            i \<leftarrow> find_section word stables shstrtab_addr sectionname 0 table_max;
            if i \<noteq> table_max then
              do {
                sh \<leftarrow> rd_shdr word (stables + of_nat i * 64);
                Some (Some (sh_offset sh), to_int (sh_size sh))
              }
            else Some (None, sectionsize)
          })"

subsection \<open>The function table\<close>

text \<open>
  \<open>struct func_org\<close> and \<open>struct fun_arr\<close>.  The name is a pointer into the image (the bytes from
  it on, empty when it points outside); \<open>data\<close> lists the first \<open>size\<close> entries.
\<close>

record func_org =
  fname :: cptr
  faddr :: u64

record fun_arr =
  fword :: bytes
  fdata :: "func_org list"

definition STT_FUNC :: u64 where "STT_FUNC = 2"

definition is_func_sym :: "elf64_sym \<Rightarrow> bool" where
  "is_func_sym s \<longleftrightarrow> st_info s AND 0xf = STT_FUNC \<and> st_value s \<noteq> 0"

definition func_of_sym :: "bytes \<Rightarrow> u64 option \<Rightarrow> u64 \<Rightarrow> elf64_sym \<Rightarrow> func_org" where
  "func_of_sym word strtab_addr base s =
     \<lparr>fname = (case strtab_addr of None \<Rightarrow> [] | Some st \<Rightarrow> img_ptr word (st + st_name s)),
      faddr = st_value s + base\<rparr>"

text \<open>
  The loop of \<open>get_all_func\<close> over \<open>i < funs->size\<close>; \<open>data\<close> holds the entries below \<open>count\<close>.
\<close>

function get_all_func_loop ::
  "bytes \<Rightarrow> u64 option \<Rightarrow> u64 option \<Rightarrow> u64 \<Rightarrow> nat \<Rightarrow> nat \<Rightarrow> func_org list \<Rightarrow> func_org list option" where
  "get_all_func_loop word syns strtab_addr base i nsyms data =
     (if i < nsyms then
        do {
          sp \<leftarrow> syns;
          s \<leftarrow> rd_sym word (sp + of_nat i * 24);
          get_all_func_loop word syns strtab_addr base (Suc i) nsyms
            (if is_func_sym s then data @ [func_of_sym word strtab_addr base s] else data)
        }
      else Some data)"
  by pat_completeness auto
termination
  by (relation "measure (\<lambda>(word, syns, strtab_addr, base, i, nsyms, data). nsyms - i)") auto

declare get_all_func_loop.simps [simp del]

definition get_all_func ::
  "bytes \<Rightarrow> u64 option \<Rightarrow> u64 option \<Rightarrow> nat \<Rightarrow> u64 \<Rightarrow> fun_arr option" where
  "get_all_func word syns strtab_addr nsyms base =
     map_option (\<lambda>data. \<lparr>fword = word, fdata = data\<rparr>)
       (get_all_func_loop word syns strtab_addr base 0 nsyms [])"

text \<open>
  \<open>open_funs\<close>: the file of the traced process (\<open>None\<close> when \<open>fopen\<close> fails, then NULL is returned)
  and its load base.  \<open>size/sizeof(Elf64_Sym)\<close> divides in \<open>unsigned long\<close>; with a negative count
  the allocation of the table is too large or too small and the code then writes through it.
\<close>

definition sym_count :: "int \<Rightarrow> int" where
  "sym_count sz = signed_take_bit 31 ((sz mod 2 ^ 64) div 24)"

definition open_funs :: "bytes option \<Rightarrow> u64 \<Rightarrow> fun_arr option option" where
  "open_funs file base =
     (case file of
        None \<Rightarrow> Some None
      | Some fp \<Rightarrow>
          do {
            word \<leftarrow> read_image fp;
            table_max \<leftarrow> rd_le word 0x3c 2;
            shstrndx \<leftarrow> rd_le word 0x3e 2;
            stables \<leftarrow> rd_le word 0x28 8;
            (syns, sz) \<leftarrow>
              get_section_addr stables (Some word) (unat table_max) (unat shstrndx) (ascii ''.symtab'') 0;
            (strtab_addr, strsize) \<leftarrow>
              get_section_addr stables (Some word) (unat table_max) (unat shstrndx) (ascii ''.strtab'') 0;
            let sz' = sym_count sz;
            if sz' < 0 then None
            else map_option Some (get_all_func word syns strtab_addr (nat sz') base)
          })"

subsection \<open>find_func and foreach_fun\<close>

text \<open>
  \<open>find_func\<close> compares \<open>strlen(func)\<close> bytes of each name.  The arguments are \<open>None\<close> for NULL;
  the name argument is the C string.
\<close>

fun find_func_loop :: "func_org list \<Rightarrow> bytes \<Rightarrow> nat \<Rightarrow> int option" where
  "find_func_loop [] func i = Some (- 1)"
| "find_func_loop (f # fs) func i =
     do {
       c \<leftarrow> memcmp (fname f) func (length func);
       if c = 0 then Some (int i) else find_func_loop fs func (Suc i)
     }"

definition find_func :: "fun_arr option \<Rightarrow> cptr option \<Rightarrow> int option" where
  "find_func funs func =
     (case (funs, func) of
        (Some fs, Some fn) \<Rightarrow> find_func_loop (fdata fs) (cstr fn) 0
      | _ \<Rightarrow> Some (- 1))"


subsection \<open>Lemmas on strings in the image\<close>

text \<open>The C string \<open>s\<close> lies at a pointer.\<close>

definition has_cstr :: "cptr \<Rightarrow> bytes \<Rightarrow> bool" where
  "has_cstr p s \<longleftrightarrow> 0 \<notin> set s \<and> (\<exists>r. p = s @ 0 # r)"

lemma has_cstr_code [code]:
  "has_cstr p s \<longleftrightarrow> 0 \<notin> set s \<and> take (Suc (length s)) p = s @ [0]"
proof -
  have "(\<exists>r. p = s @ 0 # r) \<longleftrightarrow> take (Suc (length s)) p = s @ [0]"
    by (auto intro!: exI [of _ "drop (Suc (length s)) p"])
       (metis append.assoc append_Cons append_Nil append_take_drop_id)
  then show ?thesis by (simp add: has_cstr_def)
qed

lemma has_cstr_cstr: "has_cstr p s \<Longrightarrow> cstr p = s"
  by (auto simp: has_cstr_def cstr_append_NUL)

lemma strcmp_eq_cstr: "0 \<notin> set t \<Longrightarrow> 0 \<notin> set s \<Longrightarrow> strcmp_eq t (s @ 0 # r) = Some (t = s)"
proof (induction t arbitrary: s)
  case Nil
  then show ?case by (cases s) auto
next
  case (Cons c t)
  then show ?case by (cases s) auto
qed

lemma strcmp_eq_has_cstr: "0 \<notin> set t \<Longrightarrow> has_cstr p s \<Longrightarrow> strcmp_eq t p = Some (t = s)"
  by (auto simp: has_cstr_def strcmp_eq_cstr)

subsection \<open>Sections\<close>

text \<open>The section headers \<open>shs\<close> and their names, as laid out in the image.\<close>

definition sections_at :: "bytes \<Rightarrow> u64 \<Rightarrow> u64 \<Rightarrow> elf64_shdr list \<Rightarrow> bytes list \<Rightarrow> bool" where
  "sections_at word stables shstrtab shs names \<longleftrightarrow>
     length names = length shs
     \<and> (\<forall>i < length shs. rd_shdr word (stables + of_nat i * 64) = Some (shs ! i)
          \<and> has_cstr (img_ptr word (shstrtab + sh_name (shs ! i))) (names ! i))"

definition section_named :: "bytes \<Rightarrow> elf64_shdr list \<Rightarrow> bytes list \<Rightarrow> elf64_shdr option" where
  "section_named nm shs names = map_option fst (find (\<lambda>(sh, n). n = nm) (zip shs names))"

lemma find_section_step:
  assumes "sections_at word stables shstrtab shs names" and "0 \<notin> set nm" and "i < length shs"
  shows "find_section word stables shstrtab nm i (length shs) =
     (if names ! i = nm then Some i else find_section word stables shstrtab nm (Suc i) (length shs))"
  using assms
  by (subst find_section.simps) (auto simp: sections_at_def strcmp_eq_has_cstr)

lemma find_section_result:
  assumes "sections_at word stables shstrtab shs names" and "0 \<notin> set nm"
  shows "i \<le> length shs \<Longrightarrow> \<exists>k. find_section word stables shstrtab nm i (length shs) = Some k
     \<and> i \<le> k \<and> k \<le> length shs \<and> (k < length shs \<longrightarrow> names ! k = nm) \<and> (\<forall>j. i \<le> j \<and> j < k \<longrightarrow> names ! j \<noteq> nm)"
proof (induction "length shs - i" arbitrary: i)
  case 0
  then show ?case by (auto simp: find_section.simps)
next
  case (Suc d)
  then have lt: "i < length shs" by simp
  show ?case
  proof (cases "names ! i = nm")
    case True
    then show ?thesis using lt find_section_step [OF assms lt] by auto
  next
    case False
    have "d = length shs - Suc i" "Suc i \<le> length shs" using Suc.hyps(2) lt by simp_all
    then obtain k where "find_section word stables shstrtab nm (Suc i) (length shs) = Some k"
      and "Suc i \<le> k" "k \<le> length shs" "k < length shs \<longrightarrow> names ! k = nm"
      and "\<forall>j. Suc i \<le> j \<and> j < k \<longrightarrow> names ! j \<noteq> nm"
      using Suc.hyps(1) by blast
    moreover have "\<forall>j. i \<le> j \<and> j < k \<longrightarrow> names ! j \<noteq> nm"
      using False calculation(5) by (metis le_antisym not_less_eq_eq)
    ultimately show ?thesis
      using False find_section_step [OF assms lt] by auto
  qed
qed

lemma get_section_addr_found:
  assumes "sections_at word stables (sh_offset (shs ! ndx)) shs names" and "0 \<notin> set nm"
    and "ndx < length shs"
  shows "get_section_addr stables (Some word) (length shs) ndx nm sz =
    Some (case section_named nm shs names of
            None \<Rightarrow> (None, sz)
          | Some sh \<Rightarrow> (Some (sh_offset sh), to_int (sh_size sh)))"
proof -
  obtain k where k: "find_section word stables (sh_offset (shs ! ndx)) nm 0 (length shs) = Some k"
      "k \<le> length shs" "k < length shs \<longrightarrow> names ! k = nm" "\<forall>j < k. names ! j \<noteq> nm"
    using find_section_result [OF assms(1,2), of 0] by auto
  have rd: "rd_shdr word (stables + of_nat i * 64) = Some (shs ! i)" if "i < length shs" for i
    using assms(1) that by (simp add: sections_at_def)
  have len: "length names = length shs" using assms(1) by (simp add: sections_at_def)
  have "section_named nm shs names = (if k < length shs then Some (shs ! k) else None)"
  proof (cases "k < length shs")
    case True
    then have "find (\<lambda>(sh, n). n = nm) (zip shs names) = Some (shs ! k, nm)"
      using k len by (simp add: find_Some_iff) (rule exI [of _ k], simp)
    then show ?thesis using True by (simp add: section_named_def)
  next
    case False
    then have "find (\<lambda>(sh, n). n = nm) (zip shs names) = None"
      using k len by (auto simp: find_None_iff in_set_zip)
    then show ?thesis using False by (simp add: section_named_def)
  qed
  then show ?thesis
    using rd [OF assms(3)] rd [of k] k by (auto simp: get_section_addr_def)
qed


subsection \<open>Symbols\<close>

definition symbols_at :: "bytes \<Rightarrow> u64 \<Rightarrow> elf64_sym list \<Rightarrow> bool" where
  "symbols_at word sp syms \<longleftrightarrow> (\<forall>i < length syms. rd_sym word (sp + of_nat i * 24) = Some (syms ! i))"

lemma get_all_func_loop_spec:
  "symbols_at word sp syms \<Longrightarrow> i \<le> length syms \<Longrightarrow>
   get_all_func_loop word (Some sp) strtab base i (length syms) data =
     Some (data @ map (func_of_sym word strtab base) (filter is_func_sym (drop i syms)))"
proof (induction "length syms - i" arbitrary: i data)
  case 0
  then show ?case by (simp add: get_all_func_loop.simps)
next
  case (Suc d)
  then have lt: "i < length syms" by simp
  have "drop i syms = syms ! i # drop (Suc i) syms"
    using lt by (simp add: Cons_nth_drop_Suc)
  moreover have "rd_sym word (sp + of_nat i * 24) = Some (syms ! i)"
    using Suc.prems lt by (simp add: symbols_at_def)
  ultimately show ?case
    using lt Suc.hyps Suc.prems
    by (subst get_all_func_loop.simps) simp
qed

lemma get_all_func_spec:
  "symbols_at word sp syms \<Longrightarrow> get_all_func word (Some sp) strtab (length syms) base =
     Some \<lparr>fword = word, fdata = map (func_of_sym word strtab base) (filter is_func_sym syms)\<rparr>"
  by (simp add: get_all_func_def get_all_func_loop_spec)

lemma get_all_func_no_symbols:
  "get_all_func word syns strtab 0 base = Some \<lparr>fword = word, fdata = []\<rparr>"
  by (simp add: get_all_func_def get_all_func_loop.simps)

lemma sym_count_nat: "n < 2 ^ 26 \<Longrightarrow> sym_count (int n * 24) = int n"
  unfolding sym_count_def by (subst signed_take_bit_int_eq_self) auto

lemma to_int_nat: "n < 2 ^ 31 \<Longrightarrow> to_int (of_nat n) = int n"
  unfolding to_int_def
  by (simp add: unsigned_of_nat take_bit_nat_eq_self take_bit_int_eq_self signed_take_bit_int_eq_self)

subsection \<open>Lookup by name\<close>

text \<open>The entries of the table whose name starts with the given string.\<close>

definition name_starts :: "bytes \<Rightarrow> func_org \<Rightarrow> bool" where
  "name_starts func f \<longleftrightarrow> prefix func (cstr (fname f))"

text \<open>Every name has at least as many bytes behind its pointer as \<open>memcmp\<close> reads.\<close>

definition names_readable :: "nat \<Rightarrow> func_org list \<Rightarrow> bool" where
  "names_readable n fs \<longleftrightarrow> (\<forall>f \<in> set fs. n \<le> length (fname f))"

lemma take_eq_prefix_cstr:
  assumes "0 \<notin> set s" and "length s \<le> length p"
  shows "take (length s) p = s \<longleftrightarrow> prefix s (cstr p)"
  using assms
proof (induction s arbitrary: p)
  case (Cons c s)
  then show ?case by (cases p) (auto simp: cstr_def)
qed (simp add: cstr_def)

lemma memcmp_name:
  "0 \<notin> set func \<Longrightarrow> length func \<le> length (fname f) \<Longrightarrow>
   \<exists>c. memcmp (fname f) func (length func) = Some c \<and> (c = 0 \<longleftrightarrow> name_starts func f)"
  using memcmp_seen_0_iff [of "take (length func) (fname f)" func]
  by (simp add: memcmp_def name_starts_def take_eq_prefix_cstr)

lemma find_func_loop_spec:
  "0 \<notin> set func \<Longrightarrow> names_readable (length func) fs \<Longrightarrow>
   find_func_loop fs func i =
     Some (if \<exists>f \<in> set fs. name_starts func f
           then int (i + length (takeWhile (\<lambda>f. \<not> name_starts func f) fs)) else - 1)"
proof (induction fs arbitrary: i)
  case (Cons f fs)
  obtain c where "memcmp (fname f) func (length func) = Some c" "c = 0 \<longleftrightarrow> name_starts func f"
    using memcmp_name [of func f] Cons.prems by (auto simp: names_readable_def)
  then show ?case using Cons by (auto simp: names_readable_def)
qed simp

subsection \<open>Lemmas on scanning\<close>

lemma hex_number_snoc: "hex_number (ds @ [d]) = 16 * hex_number ds + the (hexval d)"
  by (simp add: hex_number_def)

lemma takeWhile_stop: "\<forall>x \<in> set xs. P x \<Longrightarrow> \<not> P y \<Longrightarrow> takeWhile P (xs @ y # ys) = xs"
  by (induction xs) auto

lemma dropWhile_stop: "\<forall>x \<in> set xs. P x \<Longrightarrow> \<not> P y \<Longrightarrow> dropWhile P (xs @ y # ys) = y # ys"
  by (induction xs) auto

lemma hexval_not_space:
  "hexval c \<noteq> None \<Longrightarrow> \<not> isspace c \<and> c \<noteq> 0x2d \<and> c \<noteq> 0x2b \<and> c \<noteq> 0x20 \<and> c \<noteq> 0x78 \<and> c \<noteq> 0x58"
  by (auto simp: hexval_def isspace_def split: if_splits)
     (simp_all add: word_le_nat_alt)

lemma scan_lx_digits:
  assumes "ds \<noteq> []" and "\<forall>d \<in> set ds. hexval d \<noteq> None" and "hex_number ds < 2 ^ 64"
  shows "scan_lx ds = Some (of_nat (hex_number ds))"
proof -
  obtain d ds' where ds: "ds = d # ds'" using assms(1) by (cases ds) auto
  have d: "\<not> isspace d" "d \<noteq> 0x2d" "d \<noteq> 0x2b"
    using assms(2) hexval_not_space [of d] by (auto simp: ds)
  have nx: "take 2 ds \<noteq> ascii ''0x''" "take 2 ds \<noteq> ascii ''0X''"
    using assms(2) hexval_not_space by (cases ds'; force simp: ds)+
  have tw: "takeWhile (\<lambda>d. hexval d \<noteq> None) ds = ds"
    using assms(2) by (simp add: takeWhile_eq_all_conv)
  have dw: "dropWhile isspace ds = ds"
    and c1: "(case ds of c # _ \<Rightarrow> c = 0x2d | [] \<Rightarrow> False) = False"
    and c2: "(case ds of c # r \<Rightarrow> (if c = 0x2d \<or> c = 0x2b then r else ds) | [] \<Rightarrow> []) = ds"
    using d by (simp_all add: ds)
  show ?thesis
    unfolding scan_lx_def Let_def dw c1 c2
    using assms(1,3) by (simp only: nx tw if_False simp_thms if_True)
qed


lemma open_funs_sections:
  assumes "word = file @ [0]" and "length file < 2 ^ 31 - 1"
    and "rd_le word 0x3c 2 = Some (of_nat (length shs))" and "length shs < 2 ^ 16"
    and "rd_le word 0x3e 2 = Some (of_nat ndx)" and "ndx < length shs"
    and "rd_le word 0x28 8 = Some stables"
    and "sections_at word stables (sh_offset (shs ! ndx)) shs names"
  shows "open_funs (Some file) base =
    (let (syns, sz) = (case section_named (ascii ''.symtab'') shs names of
            None \<Rightarrow> (None, 0) | Some sh \<Rightarrow> (Some (sh_offset sh), to_int (sh_size sh)));
         strtab = map_option sh_offset (section_named (ascii ''.strtab'') shs names);
         n = sym_count sz
     in if n < 0 then None else map_option Some (get_all_func word syns strtab (nat n) base))"
proof -
  have u: "unat (of_nat (length shs) :: u64) = length shs" "unat (of_nat ndx :: u64) = ndx"
    using assms(4,6) by (simp_all add: unat_of_nat_u64)
  have nz: "0 \<notin> set (ascii ''.symtab'')" "0 \<notin> set (ascii ''.strtab'')" by simp_all
  show ?thesis
    using assms(3,5,7) u get_section_addr_found [OF assms(8) nz(1) assms(6), of 0]
      get_section_addr_found [OF assms(8) nz(2) assms(6), of 0]
    by (cases "section_named (ascii ''.symtab'') shs names";
        cases "section_named (ascii ''.strtab'') shs names")
       (simp_all add: open_funs_def read_image_all [OF assms(2)] Let_def flip: assms(1) del: ascii_Cons)
qed

subsection \<open>The lines of /proc/pid/maps\<close>

text \<open>
  A line of the kernel: the hexadecimal bounds, the permissions, the file offset, device and inode,
  padding and the path.  An anonymous mapping has no path; a path may hold spaces, and the scan stops at the
  first.  A line is what one \<open>fgets\<close> into the buffer of 512 bytes returns.
\<close>

record maps_entry =
  me_start :: bytes
  me_end :: bytes
  me_perms :: bytes
  me_off :: bytes
  me_dev :: bytes
  me_ino :: bytes
  me_pad :: nat
  me_path :: bytes

definition maps_line :: "maps_entry \<Rightarrow> bytes" where
  "maps_line e = (me_start e @ 0x2d # me_end e) @ 0x20 # me_perms e @ 0x20 # me_off e @ 0x20 #
     me_dev e @ 0x20 # me_ino e @ 0x20 # replicate (me_pad e) 0x20 @ me_path e @ [0x0a]"

definition token :: "bytes \<Rightarrow> bool" where
  "token t \<longleftrightarrow> t \<noteq> [] \<and> (\<forall>c \<in> set t. c \<noteq> 0 \<and> \<not> isspace c)"

definition hex_token :: "bytes \<Rightarrow> bool" where
  "hex_token t \<longleftrightarrow> t \<noteq> [] \<and> (\<forall>c \<in> set t. hexval c \<noteq> None) \<and> hex_number t < 2 ^ 64"

definition maps_entry_ok :: "maps_entry \<Rightarrow> bool" where
  "maps_entry_ok e \<longleftrightarrow> hex_token (me_start e) \<and> hex_token (me_end e) \<and> token (me_perms e)
     \<and> token (me_off e) \<and> token (me_dev e) \<and> token (me_ino e)
     \<and> (me_path e = [] \<or> \<not> isspace (hd (me_path e))) \<and> 0 \<notin> set (me_path e) \<and> 0x0a \<notin> set (me_path e)
     \<and> length (maps_line e) < 512"

text \<open>The name the scan stores for a line with a path.\<close>

definition shown_path :: "maps_entry \<Rightarrow> bytes" where
  "shown_path e = takeWhile (\<lambda>c. c \<noteq> 0x20) (me_path e @ [0x0a])"

lemma hexval_not_0: "hexval c \<noteq> None \<Longrightarrow> c \<noteq> 0"
  by (auto simp: hexval_def)

lemma hex_token_token: "hex_token t \<Longrightarrow> token t"
  using hexval_not_space hexval_not_0 by (auto simp: hex_token_def token_def)

lemma isspace_space [simp]: "isspace 0x20" "isspace 0x0a"
  by (simp_all add: isspace_def)

lemma token_chars: "token t \<Longrightarrow> c \<in> set t \<Longrightarrow> c \<noteq> 0x20"
  by (metis isspace_space(1) token_def)

lemma dropWhile_token: "token t \<Longrightarrow> dropWhile isspace (t @ r) = t @ r"
  by (cases t) (auto simp: token_def)

lemma dropWhile_spaces: "dropWhile isspace (replicate n 0x20 @ r) = dropWhile isspace r"
  by (induction n) auto

lemma scan_fields_token:
  "token t \<Longrightarrow> scan_fields (Suc k) (t @ 0x20 # r) = t # scan_fields k (dropWhile isspace r)"
  using token_chars [of t]
  by (auto simp: takeWhile_stop dropWhile_stop token_def Let_def)

lemma scan_fields_path:
  assumes "p = [] \<or> \<not> isspace (hd p)"
  shows "scan_fields (Suc 0) (dropWhile isspace (p @ [0x0a])) =
    (if p = [] then [] else [takeWhile (\<lambda>c. c \<noteq> 0x20) (p @ [0x0a])])"
proof (cases p)
  case (Cons c p')
  then have "c \<noteq> 0x20" "\<not> isspace c" using assms isspace_space by auto
  then show ?thesis using Cons by (simp add: Let_def)
qed simp

lemma token_dash: "hex_token a \<Longrightarrow> hex_token b \<Longrightarrow> token (a @ 0x2d # b)"
  using hex_token_token [of a] hex_token_token [of b] by (auto simp: token_def isspace_def)

lemma maps_line_no_NUL: "maps_entry_ok e \<Longrightarrow> cstr (maps_line e) = maps_line e"
proof -
  assume "maps_entry_ok e"
  then have "\<forall>c \<in> set (maps_line e). c \<noteq> 0"
    using hex_token_token [of "me_start e"] hex_token_token [of "me_end e"]
    by (auto simp: maps_entry_ok_def maps_line_def token_def)
  then show ?thesis by (simp add: cstr_def takeWhile_eq_all_conv)
qed

lemma scan_maps_line:
  assumes "maps_entry_ok e"
  shows "scan_maps (maps_line e) b =
    \<lparr>pro_addr = me_start e @ 0x2d # me_end e, pro_maps = me_off e,
     pro_name = (if me_path e = [] then pro_name b else shown_path e)\<rparr>"
proof -
  have t: "token (me_start e @ 0x2d # me_end e)" "token (me_perms e)" "token (me_off e)"
      "token (me_dev e)" "token (me_ino e)" "me_path e = [] \<or> \<not> isspace (hd (me_path e))"
    using assms token_dash by (simp_all add: maps_entry_ok_def)
  have six: "(6 :: nat) = Suc (Suc (Suc (Suc (Suc (Suc 0)))))" by simp
  have "scan_fields 6 (maps_line e) = [me_start e @ 0x2d # me_end e, me_perms e, me_off e,
      me_dev e, me_ino e] @ (if me_path e = [] then [] else [shown_path e])"
    unfolding maps_line_def six shown_path_def
    by (simp only: scan_fields_token dropWhile_token dropWhile_spaces scan_fields_path [OF t(6)] t(1-5)
        append_Cons append_Nil)
  then show ?thesis
    using maps_line_no_NUL [OF assms] by (simp add: scan_maps_def Let_def)
qed

lemma scan_lx_hex_token: "hex_token t \<Longrightarrow> scan_lx t = Some (of_nat (hex_number t))"
  by (simp add: hex_token_def scan_lx_digits)

lemma takeWhile_dash: "hex_token a \<Longrightarrow> takeWhile (\<lambda>c. c \<noteq> 0x2d) (a @ 0x2d # b) = a"
  using hexval_not_space by (intro takeWhile_stop) (auto simp: hex_token_def)

text \<open>
  What \<open>pro_name\<close> holds after the lines \<open>es\<close>: the name of the last line that has one, as a line without a
  path leaves the buffer alone; and the line the loop stops at.
\<close>

definition name_seen :: "maps_entry list \<Rightarrow> bytes" where
  "name_seen es =
     (let ps = filter (\<lambda>e. me_path e \<noteq> []) es in if ps = [] then [] else shown_path (last ps))"

definition base_line :: "bytes \<Rightarrow> maps_entry list \<Rightarrow> nat \<Rightarrow> bool" where
  "base_line target es i \<longleftrightarrow>
     prefix (butlast target) (name_seen (take (Suc i) es)) \<and> prefix (ascii ''00000000'') (me_off (es ! i))"

lemma name_seen_Nil [simp]: "name_seen [] = []"
  by (simp add: name_seen_def)

lemma name_seen_snoc [simp]:
  "name_seen (es @ [e]) = (if me_path e = [] then name_seen es else shown_path e)"
  by (simp add: name_seen_def Let_def)

lemma buf_starts_prefix: "buf_starts pat s \<longleftrightarrow> prefix pat s"
  unfolding buf_starts_def by (metis append_eq_conv_conj append_take_drop_id prefix_def)

lemma pid_base_loop_entries:
  assumes "\<forall>e \<in> set es. maps_entry_ok e" and "pro_name b = name_seen ps"
    and "\<not> (prefix (butlast target) (pro_name b) \<and> prefix (ascii ''00000000'') (pro_maps b))"
  shows "pid_base_loop (map maps_line es @ [[]]) target b =
    (case find (base_line target (ps @ es)) [length ps..<length (ps @ es)] of
       None \<Rightarrow> 0 | Some i \<Rightarrow> of_nat (hex_number (me_start ((ps @ es) ! i))))"
  using assms
proof (induction es arbitrary: b ps)
  case Nil
  have "scan_maps [] b = b" by (simp add: scan_maps_def cstr_def eval_nat_numeral Let_def)
  then show ?case using Nil.prems(3)
    by (auto simp: buf_starts_prefix butlast_conv_take Let_def simp del: ascii_Cons prefix_snoc)
next
  case (Cons e es)
  let ?b = "\<lparr>pro_addr = me_start e @ 0x2d # me_end e, pro_maps = me_off e,
      pro_name = name_seen (ps @ [e])\<rparr> :: maps_bufs"
  have e: "maps_entry_ok e" "hex_token (me_start e)"
    using Cons.prems(1) by (simp_all add: maps_entry_ok_def)
  have b: "base_line target (ps @ e # es) (length ps) \<longleftrightarrow>
      prefix (butlast target) (pro_name ?b) \<and> prefix (ascii ''00000000'') (pro_maps ?b)"
    by (simp add: base_line_def del: ascii_Cons prefix_snoc name_seen_snoc)
  have step: "pid_base_loop (maps_line e # ls) target b =
      (if base_line target (ps @ e # es) (length ps) then of_nat (hex_number (me_start e))
       else pid_base_loop ls target ?b)" for ls
    using e Cons.prems(2) unfolding b
    by (simp add: scan_maps_line buf_starts_prefix butlast_conv_take
        takeWhile_dash scan_lx_hex_token Let_def del: ascii_Cons prefix_snoc)
  have upt: "[length ps..<length (ps @ e # es)] = length ps # [Suc (length ps)..<length (ps @ e # es)]"
    by (rule upt_conv_Cons) simp
  show ?case
  proof (cases "base_line target (ps @ e # es) (length ps)")
    case True
    then show ?thesis unfolding upt by (simp add: step del: pid_base_loop.simps(2))
  next
    case False
    then have "pid_base_loop (map maps_line es @ [[]]) target ?b =
        (case find (base_line target (ps @ e # es)) [Suc (length ps)..<length (ps @ e # es)] of
           None \<Rightarrow> 0 | Some i \<Rightarrow> of_nat (hex_number (me_start ((ps @ e # es) ! i))))"
      using Cons.IH [of ?b "ps @ [e]", unfolded append_assoc append_Cons append_Nil] Cons.prems(1)
      unfolding b by (simp del: ascii_Cons prefix_snoc name_seen_snoc upt_Suc)
    then show ?thesis using False unfolding upt
      by (simp add: step del: pid_base_loop.simps(2) upt_Suc)
  qed
qed

subsection \<open>An example image\<close>

text \<open>
  A small ELF image: header, three section headers (\<open>.shstrtab\<close>, \<open>.symtab\<close>, \<open>.strtab\<close>), two
  symbols (the function \<open>main\<close>, the object \<open>x\<close>) and the two string tables.
\<close>

definition example_shs :: "elf64_shdr list" where
  "example_shs = [\<lparr>sh_name = 1, sh_offset = 304, sh_size = 27\<rparr>,
     \<lparr>sh_name = 11, sh_offset = 256, sh_size = 48\<rparr>,
     \<lparr>sh_name = 19, sh_offset = 331, sh_size = 8\<rparr>]"

definition example_names :: "bytes list" where
  "example_names = [ascii ''.shstrtab'', ascii ''.symtab'', ascii ''.strtab'']"

definition example_syms :: "elf64_sym list" where
  "example_syms = [\<lparr>st_name = 1, st_info = 0x12, st_value = 0x1139\<rparr>,
     \<lparr>st_name = 6, st_info = 0x11, st_value = 0x4010\<rparr>]"

definition put_shdr :: "elf64_shdr \<Rightarrow> bytes" where
  "put_shdr sh = le_bytes 4 (sh_name sh) @ replicate 20 0 @ le_bytes 8 (sh_offset sh)
     @ le_bytes 8 (sh_size sh) @ replicate 24 0"

definition put_sym :: "elf64_sym \<Rightarrow> bytes" where
  "put_sym s = le_bytes 4 (st_name s) @ le_bytes 1 (st_info s) @ replicate 3 0
     @ le_bytes 8 (st_value s) @ replicate 8 0"

definition example_elf :: bytes where
  "example_elf = replicate 40 0 @ le_bytes 8 64 @ replicate 12 0 @ le_bytes 2 3 @ le_bytes 2 0
     @ concat (map put_shdr example_shs) @ concat (map put_sym example_syms)
     @ [0] @ concat (map (\<lambda>n. n @ [0]) example_names)
     @ [0] @ ascii ''main'' @ [0] @ ascii ''x'' @ [0]"

definition stripped_shs :: "elf64_shdr list" where
  "stripped_shs = [\<lparr>sh_name = 1, sh_offset = 128, sh_size = 11\<rparr>]"

definition stripped_elf :: bytes where
  "stripped_elf = replicate 40 0 @ le_bytes 8 64 @ replicate 12 0 @ le_bytes 2 1 @ le_bytes 2 0
     @ concat (map put_shdr stripped_shs) @ [0] @ ascii ''.shstrtab'' @ [0]"

lemma example_header:
  "rd_le (example_elf @ [0]) 0x3c 2 = Some (of_nat (length example_shs))"
  "rd_le (example_elf @ [0]) 0x3e 2 = Some (of_nat 0)"
  "rd_le (example_elf @ [0]) 0x28 8 = Some 64"
  by code_simp+

lemma example_sections:
  "sections_at (example_elf @ [0]) 64 (sh_offset (example_shs ! 0)) example_shs example_names"
  by code_simp

lemma example_symbols: "symbols_at (example_elf @ [0]) (sh_offset (example_shs ! 1)) example_syms"
  by code_simp

subsection \<open>Properties of elf_parse.c\<close>

text \<open>
  C14: for a program path of 1 to 99 bytes, on lines of \<open>/proc/pid/maps\<close> that fit the line buffer, of file
  mappings, anonymous and special ones, \<open>get_pid_base\<close> returns
  the start address of the first line at file offset 0 at which the last path shown so far agrees with
  the program's in all but its last character, and 0 when there is none.  A line without a path is judged
  by the path of an earlier line.
\<close>

theorem get_pid_base_correct:
  assumes "\<forall>e \<in> set es. maps_entry_ok e" and "target \<noteq> []" and "length target < 100"
  shows "get_pid_base (Some (map maps_line es)) target =
    Some (case find (base_line target es) [0..<length es] of
            None \<Rightarrow> 0 | Some i \<Rightarrow> of_nat (hex_number (me_start (es ! i))))"
  using pid_base_loop_entries [of es "\<lparr>pro_addr = [], pro_maps = [], pro_name = []\<rparr>" "[]" target] assms
  unfolding append_Nil list.size by (simp add: get_pid_base_def)

definition example_map :: "string \<Rightarrow> string \<Rightarrow> string \<Rightarrow> maps_entry" where
  "example_map start off path = \<lparr>me_start = ascii start, me_end = ascii start, me_perms = ascii ''r--p'',
     me_off = ascii off, me_dev = ascii ''08:01'', me_ino = ascii ''131'', me_pad = 20,
     me_path = ascii path\<rparr>"

text \<open>
  The anonymous mapping at \<open>5700\<close> is taken for the program, whose mapping before it has another offset.
\<close>

lemma get_pid_base_correct_witness:
  "get_pid_base (Some (map maps_line [example_map ''7f00'' ''00000000'' ''/lib'',
       example_map ''5600'' ''00001000'' ''/bin/a1'', example_map ''5700'' ''00000000'' [],
       example_map ''5500'' ''00000000'' ''/bin/a2'']))
     (ascii ''/bin/a1'') = Some 0x5700"
proof -
  let ?es = "[example_map ''7f00'' ''00000000'' ''/lib'', example_map ''5600'' ''00001000'' ''/bin/a1'',
      example_map ''5700'' ''00000000'' [], example_map ''5500'' ''00000000'' ''/bin/a2'']"
  have ok: "\<forall>e \<in> set ?es. maps_entry_ok e"
    by (simp add: example_map_def maps_entry_ok_def maps_line_def token_def hex_token_def hexval_def isspace_def
        hex_number_def)
  have "find (base_line (ascii ''/bin/a1'') ?es) [0..<length ?es] = Some 2"
    by code_simp
  moreover have "hex_number (me_start (?es ! 2)) = 0x5700"
    by (simp add: example_map_def hex_number_def hexval_def)
  ultimately show ?thesis
    using get_pid_base_correct [OF ok, of "ascii ''/bin/a1''"] by simp
qed

text \<open>
  on an image with a section table, \<open>get_section_addr\<close> returns the offset and the size of the
  first section with exactly the given name, and NULL with the size left unchanged when no
  section has it.
\<close>

theorem get_section_addr_correct:
  assumes "sections_at word stables (sh_offset (shs ! ndx)) shs names" and "0 \<notin> set nm"
    and "ndx < length shs"
  shows "get_section_addr stables (Some word) (length shs) ndx nm sz =
    Some (case find (\<lambda>(sh, n). n = nm) (zip shs names) of
            None \<Rightarrow> (None, sz)
          | Some (sh, n) \<Rightarrow> (Some (sh_offset sh), to_int (sh_size sh)))"
  using get_section_addr_found [OF assms]
  by (simp add: section_named_def split: option.splits prod.splits)

lemma get_section_addr_correct_witness:
  "get_section_addr 64 (Some (example_elf @ [0])) 3 0 (ascii ''.strtab'') 0 = Some (Some 331, 8)"
proof -
  have len: "length example_shs = 3" and nz: "0 \<notin> set (ascii ''.strtab'')" by code_simp+
  have "Some (case find (\<lambda>(sh, n). n = ascii ''.strtab'') (zip example_shs example_names) of
      None \<Rightarrow> (None, 0) | Some (sh, n) \<Rightarrow> (Some (sh_offset sh), to_int (sh_size sh)))
      = Some (Some 331, 8)"
    by code_simp
  moreover have "0 < length example_shs" by code_simp
  ultimately show ?thesis
    using get_section_addr_correct [OF example_sections nz, of 0] unfolding len by metis
qed

text \<open>
  C10: \<open>open_funs\<close> on a well-formed ELF image with a symbol table and a string table builds exactly
  the table of the symbols of type \<open>STT_FUNC\<close> with a value, in their order, each with its name
  and its address moved by the load base.
\<close>

theorem open_funs_correct:
  assumes "word = file @ [0]" and "length file < 2 ^ 31 - 1"
    and "rd_le word 0x3c 2 = Some (of_nat (length shs))" and "length shs < 2 ^ 16"
    and "rd_le word 0x3e 2 = Some (of_nat ndx)" and "ndx < length shs"
    and "rd_le word 0x28 8 = Some stables"
    and "sections_at word stables (sh_offset (shs ! ndx)) shs names"
    and "section_named (ascii ''.symtab'') shs names = Some symsh"
    and "section_named (ascii ''.strtab'') shs names = Some strsh"
    and "sh_size symsh = of_nat (length syms * 24)" and "length syms < 2 ^ 26"
    and "symbols_at word (sh_offset symsh) syms"
  shows "open_funs (Some file) base =
    Some (Some \<lparr>fword = word,
      fdata = map (func_of_sym word (Some (sh_offset strsh)) base) (filter is_func_sym syms)\<rparr>)"
proof -
  have "to_int (sh_size symsh) = int (length syms) * 24"
    using assms(11,12) to_int_nat [of "length syms * 24"] by simp
  then have "sym_count (to_int (sh_size symsh)) = int (length syms)"
    using assms(12) by (simp add: sym_count_nat)
  then show ?thesis
    using open_funs_sections [OF assms(1-8), of base] assms(9,10)
    by (simp add: get_all_func_spec [OF assms(13)] del: ascii_Cons)
qed

lemma open_funs_correct_witness:
  "open_funs (Some example_elf) 0x555500000000 = Some (Some
     \<lparr>fword = example_elf @ [0],
      fdata = [\<lparr>fname = ascii ''main'' @ [0] @ ascii ''x'' @ [0, 0], faddr = 0x555500001139\<rparr>]\<rparr>)"
proof -
  have funs: "map (func_of_sym (example_elf @ [0]) (Some (sh_offset (example_shs ! 2))) 0x555500000000)
      (filter is_func_sym example_syms) =
      [\<lparr>fname = ascii ''main'' @ [0] @ ascii ''x'' @ [0, 0], faddr = 0x555500001139\<rparr>]"
    and hyps: "section_named (ascii ''.symtab'') example_shs example_names = Some (example_shs ! 1)"
      "section_named (ascii ''.strtab'') example_shs example_names = Some (example_shs ! 2)"
      "sh_size (example_shs ! 1) = of_nat (length example_syms * 24)"
    by code_simp+
  have lens: "length example_syms < 2 ^ 26" "length example_shs < 2 ^ 16" "0 < length example_shs"
    by (simp_all add: example_syms_def example_shs_def)
  have small: "length example_elf < 2 ^ 31 - 1"
    by (simp add: example_elf_def example_shs_def example_syms_def example_names_def put_shdr_def put_sym_def)
  show ?thesis
    using open_funs_correct [OF refl small example_header(1) lens(2) example_header(2) lens(3)
        example_header(3) example_sections hyps lens(1) example_symbols, of "0x555500000000"]
    unfolding funs .
qed

text \<open>
  An image whose section table has no \<open>.symtab\<close> (a stripped program) gives an empty function
  table, not an error.
\<close>

theorem open_funs_stripped:
  assumes "word = file @ [0]" and "length file < 2 ^ 31 - 1"
    and "rd_le word 0x3c 2 = Some (of_nat (length shs))" and "length shs < 2 ^ 16"
    and "rd_le word 0x3e 2 = Some (of_nat ndx)" and "ndx < length shs"
    and "rd_le word 0x28 8 = Some stables"
    and "sections_at word stables (sh_offset (shs ! ndx)) shs names"
    and "section_named (ascii ''.symtab'') shs names = None"
  shows "open_funs (Some file) base = Some (Some \<lparr>fword = word, fdata = []\<rparr>)"
proof -
  have "sym_count 0 = 0" by (simp add: sym_count_def)
  then show ?thesis
    using open_funs_sections [OF assms(1-8), of base] assms(9)
    by (simp add: get_all_func_no_symbols del: ascii_Cons)
qed

lemma open_funs_stripped_witness:
  "open_funs (Some stripped_elf) 0 = Some (Some \<lparr>fword = stripped_elf @ [0], fdata = []\<rparr>)"
proof -
  have lens: "length stripped_shs < 2 ^ 16" "0 < length stripped_shs"
    by (simp_all add: stripped_shs_def)
  have small: "length stripped_elf < 2 ^ 31 - 1"
    by (simp add: stripped_elf_def stripped_shs_def put_shdr_def)
  have hyps: "rd_le (stripped_elf @ [0]) 0x3c 2 = Some (of_nat (length stripped_shs))"
    "rd_le (stripped_elf @ [0]) 0x3e 2 = Some (of_nat 0)"
    "rd_le (stripped_elf @ [0]) 0x28 8 = Some 64"
    "sections_at (stripped_elf @ [0]) 64 (sh_offset (stripped_shs ! 0)) stripped_shs
           [ascii ''.shstrtab'']"
    "section_named (ascii ''.symtab'') stripped_shs [ascii ''.shstrtab''] = None"
    by code_simp+
  show ?thesis
    by (rule open_funs_stripped [OF refl small hyps(1) lens(1) hyps(2) lens(2) hyps(3-5)])
qed

text \<open>
  C15: \<open>find_func\<close> returns the index of the first function whose name starts with the given
  string, and \<open>-1\<close> exactly when there is none.
\<close>

theorem find_func_first_prefix:
  assumes "names_readable (length (cstr fn)) (fdata fs)"
  shows "find_func (Some fs) (Some fn) =
     Some (if \<exists>f \<in> set (fdata fs). name_starts (cstr fn) f
           then int (length (takeWhile (\<lambda>f. \<not> name_starts (cstr fn) f) (fdata fs))) else - 1)"
  using find_func_loop_spec [OF cstr_no_NUL assms, of 0] by (simp add: find_func_def)

lemma find_func_first_prefix_witness:
  "find_func (Some \<lparr>fword = [], fdata =
      [\<lparr>fname = ascii ''main'' @ [0], faddr = 1\<rparr>, \<lparr>fname = ascii ''foo'' @ [0], faddr = 2\<rparr>]\<rparr>)
      (Some (ascii ''foo'' @ [0])) = Some 1"
  using find_func_first_prefix [of "ascii ''foo'' @ [0]" "\<lparr>fword = [], fdata =
      [\<lparr>fname = ascii ''main'' @ [0], faddr = 1\<rparr>, \<lparr>fname = ascii ''foo'' @ [0], faddr = 2\<rparr>]\<rparr>"]
  by (simp add: names_readable_def name_starts_def cstr_def)

text \<open>
  a function is not found by its own full name when a function whose name merely starts with
  it comes earlier in the table: the comparison stops at \<open>strlen(func)\<close> bytes.
\<close>

theorem find_func_prefix_shadows:
  assumes "fname f = s @ u @ [0]" and "0 \<notin> set s"
  shows "find_func (Some \<lparr>fword = w, fdata = f # fs\<rparr>) (Some (s @ [0])) = Some 0"
proof -
  have "memcmp (s @ u @ [0]) s (length s) = Some 0"
    by (simp add: memcmp_eq_0_iff)
  then show ?thesis
    by (simp add: find_func_def cstr_append_NUL [OF assms(2)] assms(1))
qed

lemma find_func_prefix_shadows_witness:
  "find_func (Some \<lparr>fword = [], fdata =
      [\<lparr>fname = ascii ''foobar'' @ [0], faddr = 1\<rparr>, \<lparr>fname = ascii ''foo'' @ [0], faddr = 2\<rparr>]\<rparr>)
      (Some (ascii ''foo'' @ [0])) = Some 0"
  using find_func_prefix_shadows [of "\<lparr>fname = ascii ''foobar'' @ [0], faddr = 1\<rparr>" "ascii ''foo''"
      "ascii ''bar''" "[]" "[\<lparr>fname = ascii ''foo'' @ [0], faddr = 2\<rparr>]"]
  by simp

end
