(* ===== verification/Palloc.thy ===== *)
theory Palloc imports Prelude begin

text \<open>
  The memory pool (\<open>ngx/ngx_palloc.c\<close>): a chain of blocks from which small requests are cut, a
  list of large allocations, and the cleanup handlers run when the pool is destroyed.

  Addresses and sizes are 64-bit words, so the pointer differences and casts wrap as in C.  The
  chain \<open>d.next\<close> of a pool is the list of its blocks in order and \<open>current\<close> the position of the
  block it points to; the \<open>large\<close> and \<open>cleanup\<close> lists are lists as well.  The system allocator is
  a parameter: a function of the number of calls so far, the live allocations and the size, which
  gives the address or 0 for NULL.
\<close>

subsection \<open>The system allocator\<close>

record sysheap =
  live :: "(u64 \<times> u64) list"
  calls :: nat
  hmem :: "u64 \<Rightarrow> u8"
  bad_free :: bool

type_synonym calloc_fn = "nat \<Rightarrow> (u64 \<times> u64) list \<Rightarrow> u64 \<Rightarrow> u64"

definition mem_zero :: "(u64 \<Rightarrow> u8) \<Rightarrow> u64 \<Rightarrow> u64 \<Rightarrow> (u64 \<Rightarrow> u8)" where
  "mem_zero m a n = (\<lambda>x. if x - a < n then 0 else m x)"

definition sys_calloc :: "calloc_fn \<Rightarrow> sysheap \<Rightarrow> u64 \<Rightarrow> u64 \<times> sysheap" where
  "sys_calloc f h n =
     (let a = f (calls h) (live h) n
      in (a, if a = 0 then h\<lparr>calls := Suc (calls h)\<rparr>
             else h\<lparr>calls := Suc (calls h), live := (a, n) # live h, hmem := mem_zero (hmem h) a n\<rparr>))"

text \<open>\<open>free(NULL)\<close> does nothing; freeing what is not a live allocation sets \<open>bad_free\<close>.\<close>

definition sys_free :: "sysheap \<Rightarrow> u64 \<Rightarrow> sysheap" where
  "sys_free h a =
     (if a = 0 then h
      else if a \<in> fst ` set (live h) then h\<lparr>live := filter (\<lambda>e. fst e \<noteq> a) (live h)\<rparr>
      else h\<lparr>bad_free := True\<rparr>)"

subsection \<open>The pool\<close>

text \<open>\<open>ngx_align_ptr\<close>; \<open>NGX_ALIGNMENT\<close> is \<open>sizeof(unsigned long)\<close>.\<close>

definition ngx_align_ptr :: "u64 \<Rightarrow> u64 \<Rightarrow> u64" where
  "ngx_align_ptr p a = (p + (a - 1)) AND NOT (a - 1)"

definition NGX_ALIGNMENT :: u64 where "NGX_ALIGNMENT = 8"

text \<open>\<open>sizeof(ngx_pool_t)\<close>, \<open>sizeof(ngx_pool_data_t)\<close> and the list node sizes.\<close>

definition sizeof_pool :: u64 where "sizeof_pool = 64"
definition sizeof_pool_data :: u64 where "sizeof_pool_data = 32"
definition sizeof_pool_large :: u64 where "sizeof_pool_large = 16"
definition sizeof_pool_cleanup :: u64 where "sizeof_pool_cleanup = 24"
definition NGX_MAX_ALLOC_FROM_POOL :: u64 where "NGX_MAX_ALLOC_FROM_POOL = 4096 - 1"

lemmas pool_consts = sizeof_pool_def sizeof_pool_data_def sizeof_pool_large_def
  sizeof_pool_cleanup_def NGX_MAX_ALLOC_FROM_POOL_def NGX_ALIGNMENT_def

record ngx_pool_data =
  d_base :: u64
  d_last :: u64
  d_end :: u64
  d_failed :: u64

record ngx_pool_large =
  l_node :: u64
  l_alloc :: u64

datatype cleanup_handler = Cleanup_file | Delete_file | Other_handler nat

text \<open>\<open>c_fd\<close> and \<open>c_fname\<close> are the \<open>ngx_pool_cleanup_file_t\<close> a file handler's \<open>data\<close> points to.\<close>

record ngx_pool_cleanup =
  c_node :: u64
  c_handler :: "cleanup_handler option"
  c_data :: u64
  c_fd :: int
  c_fname :: bytes

record ngx_pool =
  p_chain :: "ngx_pool_data list"
  p_max :: u64
  p_current :: nat
  p_large :: "ngx_pool_large list"
  p_cleanup :: "ngx_pool_cleanup list"

definition ngx_create_pool :: "calloc_fn \<Rightarrow> sysheap \<Rightarrow> u64 \<Rightarrow> ngx_pool option \<times> sysheap" where
  "ngx_create_pool f h n =
     (let (p, h1) = sys_calloc f h n
      in if p = 0 then (None, h1)
         else
           let n' = n - sizeof_pool
           in (Some \<lparr>p_chain = [\<lparr>d_base = p, d_last = p + sizeof_pool, d_end = p + n, d_failed = 0\<rparr>],
                 p_max = (if n' < NGX_MAX_ALLOC_FROM_POOL then n' else NGX_MAX_ALLOC_FROM_POOL),
                 p_current = 0, p_large = [], p_cleanup = []\<rparr>, h1))"

subsection \<open>Small allocations\<close>

text \<open>
  The \<open>do \<dots> while (p)\<close> loop of \<open>ngx_palloc_small\<close>: the position and the address of the first
  block, from the current one on, whose test succeeds.
\<close>

fun palloc_scan :: "bool \<Rightarrow> u64 \<Rightarrow> ngx_pool_data list \<Rightarrow> nat \<Rightarrow> (nat \<times> u64) option" where
  "palloc_scan align n [] i = None"
| "palloc_scan align n (b # bs) i =
     (let m = (if align then ngx_align_ptr (d_last b) NGX_ALIGNMENT else d_last b)
      in if n \<le> d_end b - m then Some (i, m) else palloc_scan align n bs (Suc i))"

text \<open>
  The loop of \<open>ngx_palloc_block\<close> over every block but the last from the current one on: it counts
  the failure and moves \<open>current\<close> past a block that had failed more than four times before.
\<close>

fun bump_failed :: "nat \<Rightarrow> nat \<Rightarrow> ngx_pool_data list \<Rightarrow> nat \<times> ngx_pool_data list" where
  "bump_failed i cur [] = (cur, [])"
| "bump_failed i cur [b] = (cur, [b])"
| "bump_failed i cur (b # c # bs) =
     (let cur' = (if d_failed b > 4 then Suc i else cur);
          (cur'', rest) = bump_failed (Suc i) cur' (c # bs)
      in (cur'', b\<lparr>d_failed := d_failed b + 1\<rparr> # rest))"

definition ngx_palloc_block ::
  "calloc_fn \<Rightarrow> sysheap \<Rightarrow> ngx_pool \<Rightarrow> u64 \<Rightarrow> u64 \<times> sysheap \<times> ngx_pool" where
  "ngx_palloc_block f h p n =
     (let first = hd (p_chain p);
          psize = d_end first - d_base first;
          (m, h1) = sys_calloc f h psize
      in if m = 0 then (0, h1, p)
         else
           let m' = ngx_align_ptr (m + sizeof_pool_data) NGX_ALIGNMENT;
               new = \<lparr>d_base = m, d_last = m' + n, d_end = m + psize, d_failed = 0\<rparr>;
               cur = p_current p;
               (cur', rest) = bump_failed cur cur (drop cur (p_chain p))
           in (m', h1, p\<lparr>p_chain := take cur (p_chain p) @ rest @ [new], p_current := cur'\<rparr>))"

definition ngx_palloc_small ::
  "calloc_fn \<Rightarrow> sysheap \<Rightarrow> ngx_pool \<Rightarrow> u64 \<Rightarrow> bool \<Rightarrow> u64 \<times> sysheap \<times> ngx_pool" where
  "ngx_palloc_small f h p n align =
     (case palloc_scan align n (drop (p_current p) (p_chain p)) (p_current p) of
        Some (i, m) \<Rightarrow>
          (m, h, p\<lparr>p_chain := (p_chain p)[i := (p_chain p ! i)\<lparr>d_last := m + n\<rparr>]\<rparr>)
      | None \<Rightarrow> ngx_palloc_block f h p n)"

subsection \<open>Large allocations\<close>

text \<open>The search for a free list node: it gives up after the fifth node.\<close>

fun reuse_large :: "nat \<Rightarrow> ngx_pool_large list \<Rightarrow> u64 \<Rightarrow> ngx_pool_large list option" where
  "reuse_large n [] a = None"
| "reuse_large n (l # ls) a =
     (if l_alloc l = 0 then Some (l\<lparr>l_alloc := a\<rparr> # ls)
      else if n > 3 then None
      else map_option ((#) l) (reuse_large (Suc n) ls a))"

text \<open>The common end of \<open>ngx_palloc_large\<close> and \<open>ngx_pmemalign\<close>: a new node for \<open>a\<close>.\<close>

definition push_large ::
  "calloc_fn \<Rightarrow> sysheap \<Rightarrow> ngx_pool \<Rightarrow> u64 \<Rightarrow> u64 \<times> sysheap \<times> ngx_pool" where
  "push_large f h p a =
     (let (node, h2, p2) = ngx_palloc_small f h p sizeof_pool_large True
      in if node = 0 then (0, sys_free h2 a, p2)
         else (a, h2, p2\<lparr>p_large := \<lparr>l_node = node, l_alloc = a\<rparr> # p_large p2\<rparr>))"

definition ngx_palloc_large ::
  "calloc_fn \<Rightarrow> sysheap \<Rightarrow> ngx_pool \<Rightarrow> u64 \<Rightarrow> u64 \<times> sysheap \<times> ngx_pool" where
  "ngx_palloc_large f h p n =
     (let (a, h1) = sys_calloc f h n
      in if a = 0 then (0, h1, p)
         else case reuse_large 0 (p_large p) a of
                Some ls \<Rightarrow> (a, h1, p\<lparr>p_large := ls\<rparr>)
              | None \<Rightarrow> push_large f h1 p a)"

definition ngx_palloc ::
  "calloc_fn \<Rightarrow> sysheap \<Rightarrow> ngx_pool \<Rightarrow> u64 \<Rightarrow> u64 \<times> sysheap \<times> ngx_pool" where
  "ngx_palloc f h p n =
     (if n \<le> p_max p then ngx_palloc_small f h p n True else ngx_palloc_large f h p n)"

definition ngx_pnalloc ::
  "calloc_fn \<Rightarrow> sysheap \<Rightarrow> ngx_pool \<Rightarrow> u64 \<Rightarrow> u64 \<times> sysheap \<times> ngx_pool" where
  "ngx_pnalloc f h p n =
     (if n \<le> p_max p then ngx_palloc_small f h p n False else ngx_palloc_large f h p n)"

definition ngx_pcalloc ::
  "calloc_fn \<Rightarrow> sysheap \<Rightarrow> ngx_pool \<Rightarrow> u64 \<Rightarrow> u64 \<times> sysheap \<times> ngx_pool" where
  "ngx_pcalloc f h p n =
     (let (a, h1, p1) = ngx_palloc f h p n
      in if a \<noteq> 0 then (a, h1\<lparr>hmem := mem_zero (hmem h1) a n\<rparr>, p1) else (a, h1, p1))"

text \<open>\<open>ngx_pmemalign\<close> does not use its \<open>alignment\<close> argument.\<close>

definition ngx_pmemalign ::
  "calloc_fn \<Rightarrow> sysheap \<Rightarrow> ngx_pool \<Rightarrow> u64 \<Rightarrow> u64 \<Rightarrow> u64 \<times> sysheap \<times> ngx_pool" where
  "ngx_pmemalign f h p n alignment =
     (let (a, h1) = sys_calloc f h n
      in if a = 0 then (0, h1, p) else push_large f h1 p a)"

definition NGX_DECLINED :: int where "NGX_DECLINED = - 5"

fun pfree_large :: "ngx_pool_large list \<Rightarrow> u64 \<Rightarrow> (u64 \<times> ngx_pool_large list) option" where
  "pfree_large [] q = None"
| "pfree_large (l # ls) q =
     (if q = l_alloc l then Some (l_alloc l, l\<lparr>l_alloc := 0\<rparr> # ls)
      else map_option (\<lambda>(a, ls'). (a, l # ls')) (pfree_large ls q))"

definition ngx_pfree :: "sysheap \<Rightarrow> ngx_pool \<Rightarrow> u64 \<Rightarrow> int \<times> sysheap \<times> ngx_pool" where
  "ngx_pfree h p q =
     (case pfree_large (p_large p) q of
        Some (a, ls) \<Rightarrow> (NGX_OK, sys_free h a, p\<lparr>p_large := ls\<rparr>)
      | None \<Rightarrow> (NGX_DECLINED, h, p))"

subsection \<open>Cleanup handlers, reset and destruction\<close>

text \<open>What the handlers do outside the pool.\<close>

datatype cleanup_event = Ev_close int | Ev_unlink bytes | Ev_user nat u64

fun run_handler :: "cleanup_handler \<Rightarrow> ngx_pool_cleanup \<Rightarrow> cleanup_event list" where
  "run_handler Cleanup_file c = [Ev_close (c_fd c)]"
| "run_handler Delete_file c = [Ev_unlink (c_fname c), Ev_close (c_fd c)]"
| "run_handler (Other_handler k) c = [Ev_user k (c_data c)]"

text \<open>The result is the new node (0 for NULL).\<close>

definition ngx_pool_cleanup_add ::
  "calloc_fn \<Rightarrow> sysheap \<Rightarrow> ngx_pool \<Rightarrow> u64 \<Rightarrow> u64 \<times> sysheap \<times> ngx_pool" where
  "ngx_pool_cleanup_add f h p n =
     (let (c, h1, p1) = ngx_palloc f h p sizeof_pool_cleanup
      in if c = 0 then (0, h1, p1)
         else
           let (d, h2, p2) = (if n \<noteq> 0 then ngx_palloc f h1 p1 n else (0, h1, p1))
           in if n \<noteq> 0 \<and> d = 0 then (0, h2, p2)
              else (c, h2, p2\<lparr>p_cleanup :=
                \<lparr>c_node = c, c_handler = None, c_data = d, c_fd = 0, c_fname = []\<rparr> # p_cleanup p2\<rparr>))"

fun run_cleanup_file :: "ngx_pool_cleanup list \<Rightarrow> int \<Rightarrow> cleanup_event list \<times> ngx_pool_cleanup list" where
  "run_cleanup_file [] fd = ([], [])"
| "run_cleanup_file (c # cs) fd =
     (if c_handler c = Some Cleanup_file \<and> c_fd c = fd
      then (run_handler Cleanup_file c, c\<lparr>c_handler := None\<rparr> # cs)
      else let (evs, cs') = run_cleanup_file cs fd in (evs, c # cs'))"

definition ngx_pool_run_cleanup_file :: "ngx_pool \<Rightarrow> int \<Rightarrow> cleanup_event list \<times> ngx_pool" where
  "ngx_pool_run_cleanup_file p fd =
     (let (evs, cs) = run_cleanup_file (p_cleanup p) fd in (evs, p\<lparr>p_cleanup := cs\<rparr>))"

fun free_large :: "sysheap \<Rightarrow> ngx_pool_large list \<Rightarrow> sysheap" where
  "free_large h [] = h"
| "free_large h (l # ls) =
     free_large (if l_alloc l \<noteq> 0 then sys_free h (l_alloc l) else h) ls"

fun free_chain :: "sysheap \<Rightarrow> ngx_pool_data list \<Rightarrow> sysheap" where
  "free_chain h [] = h"
| "free_chain h (b # bs) = free_chain (sys_free h (d_base b)) bs"

fun run_cleanups :: "ngx_pool_cleanup list \<Rightarrow> cleanup_event list" where
  "run_cleanups [] = []"
| "run_cleanups (c # cs) =
     (case c_handler c of None \<Rightarrow> [] | Some k \<Rightarrow> run_handler k c) @ run_cleanups cs"

definition ngx_destroy_pool :: "sysheap \<Rightarrow> ngx_pool \<Rightarrow> cleanup_event list \<times> sysheap" where
  "ngx_destroy_pool h p =
     (let evs = run_cleanups (p_cleanup p);
          h1 = free_large h (p_large p)
      in (evs, free_chain h1 (p_chain p)))"

definition ngx_reset_pool :: "sysheap \<Rightarrow> ngx_pool \<Rightarrow> sysheap \<times> ngx_pool" where
  "ngx_reset_pool h p =
     (free_large h (p_large p),
      p\<lparr>p_chain := map (\<lambda>b. b\<lparr>d_last := d_base b + sizeof_pool, d_failed := 0\<rparr>) (p_chain p),
        p_current := 0, p_large := []\<rparr>)"

subsection \<open>Regions, the heap and the pool invariant\<close>

text \<open>The addresses of an allocation, as naturals.\<close>

definition span :: "u64 \<Rightarrow> u64 \<Rightarrow> nat set" where
  "span a n = {unat a ..< unat a + unat n}"

text \<open>
  What \<open>calloc\<close> promises: the memory it returns is not among the live allocations, is suitably
  aligned and does not run past the end of the address space.
\<close>

definition calloc_ok :: "calloc_fn \<Rightarrow> bool" where
  "calloc_ok f \<longleftrightarrow> (\<forall>c L n. f c L n \<noteq> 0 \<longrightarrow>
     f c L n \<notin> fst ` set L \<and> 8 dvd unat (f c L n) \<and> unat (f c L n) + unat n < 2 ^ 64 \<and>
     (\<forall>e\<in>set L. span (f c L n) n \<inter> span (fst e) (snd e) = {}))"

definition heap_ok :: "sysheap \<Rightarrow> bool" where
  "heap_ok h \<longleftrightarrow> \<not> bad_free h \<and> distinct (map fst (live h)) \<and> 0 \<notin> fst ` set (live h) \<and>
     (\<forall>e\<in>set (live h). unat (fst e) + unat (snd e) < 2 ^ 64) \<and>
     (\<forall>e\<in>set (live h). \<forall>e'\<in>set (live h). fst e \<noteq> fst e' \<longrightarrow>
        span (fst e) (snd e) \<inter> span (fst e') (snd e') = {})"

definition block_ok :: "(u64 \<times> u64) list \<Rightarrow> u64 \<Rightarrow> ngx_pool_data \<Rightarrow> bool" where
  "block_ok L psize b \<longleftrightarrow> (d_base b, psize) \<in> set L \<and> d_end b = d_base b + psize \<and>
     unat (d_base b) + unat psize < 2 ^ 64 \<and> 8 dvd unat (d_base b) \<and>
     unat (d_base b) + 32 \<le> unat (d_last b) \<and> unat (d_last b) \<le> unat (d_base b) + unat psize"

definition pool_psize :: "ngx_pool \<Rightarrow> u64" where
  "pool_psize p = d_end (hd (p_chain p)) - d_base (hd (p_chain p))"

definition pool_bases :: "ngx_pool \<Rightarrow> u64 list" where
  "pool_bases p = map d_base (p_chain p)"

definition pool_larges :: "ngx_pool \<Rightarrow> u64 list" where
  "pool_larges p = filter (\<lambda>a. a \<noteq> 0) (map l_alloc (p_large p))"

definition pool_ok :: "(u64 \<times> u64) list \<Rightarrow> ngx_pool \<Rightarrow> bool" where
  "pool_ok L p \<longleftrightarrow> p_chain p \<noteq> [] \<and> p_current p < length (p_chain p) \<and>
     64 \<le> unat (pool_psize p) \<and> 8 dvd unat (pool_psize p) \<and>
     unat (p_max p) + 64 \<le> unat (pool_psize p) \<and>
     (\<forall>b\<in>set (p_chain p). block_ok L (pool_psize p) b) \<and>
     distinct (pool_bases p @ pool_larges p) \<and> set (pool_larges p) \<subseteq> fst ` set L"

text \<open>The addresses handed out so far (and the headers): the used part of every block and the
  large allocations.\<close>

definition pool_used :: "(u64 \<times> u64) list \<Rightarrow> ngx_pool \<Rightarrow> nat set" where
  "pool_used L p = (\<Union>b\<in>set (p_chain p). {unat (d_base b) ..< unat (d_last b)}) \<union>
     (\<Union>e\<in>{e \<in> set L. fst e \<in> set (pool_larges p)}. span (fst e) (snd e))"

text \<open>The memory the system has given out.\<close>

definition live_mem :: "(u64 \<times> u64) list \<Rightarrow> nat set" where
  "live_mem L = (\<Union>e\<in>set L. span (fst e) (snd e))"

lemma heap_disjoint:
  "\<lbrakk>heap_ok h; (a, n) \<in> set (live h); (b, k) \<in> set (live h); a \<noteq> b\<rbrakk> \<Longrightarrow> span a n \<inter> span b k = {}"
  unfolding heap_ok_def by (metis fst_conv snd_conv)

lemma unat_align_8:
  "unat p + 7 < 2 ^ 64 \<Longrightarrow> unat (ngx_align_ptr p NGX_ALIGNMENT) = (unat p + 7) div 8 * 8"
  using unat_and_not_7 [of "p + 7"] by (simp add: ngx_align_ptr_def NGX_ALIGNMENT_def unat_add_u64)

text \<open>A request that passes the test of the loop lies between \<open>last\<close> and \<open>end\<close> of its block.\<close>

lemma block_cut:
  assumes b: "block_ok L ps b" and ps: "8 dvd unat ps"
    and m: "m = (if al then ngx_align_ptr (d_last b) NGX_ALIGNMENT else d_last b)"
    and fits: "n \<le> d_end b - m"
  shows "unat (d_last b) \<le> unat m" "unat m + unat n \<le> unat (d_base b) + unat ps"
    "unat (m + n) = unat m + unat n" "al \<longrightarrow> 8 dvd unat m"
proof -
  have e: "unat (d_end b) = unat (d_base b) + unat ps"
    using b by (simp add: block_ok_def unat_add_u64)
  have l: "unat (d_last b) \<le> unat (d_end b)" using b e by (simp add: block_ok_def)
  have e8: "8 dvd unat (d_end b)" using b ps e by (auto simp: block_ok_def)
  have "unat (d_end b) + 7 < 2 ^ 64"
    using e8 unat_lt_u64 [of "d_end b"] by (auto elim!: dvdE)
  then have al: "unat (ngx_align_ptr (d_last b) NGX_ALIGNMENT) = (unat (d_last b) + 7) div 8 * 8"
    using l by (intro unat_align_8) linarith
  have "(unat (d_last b) + 7) div 8 * 8 \<le> unat (d_end b)"
    using e8 l by (auto elim!: dvdE)
  then have me: "unat m \<le> unat (d_end b)" and ml: "unat (d_last b) \<le> unat m"
    using al l m by auto
  show "unat (d_last b) \<le> unat m" by (fact ml)
  have "unat n \<le> unat (d_end b) - unat m"
    using fits me by (metis unat_sub_u64 word_le_nat_alt)
  then show le: "unat m + unat n \<le> unat (d_base b) + unat ps" using me e by linarith
  show "unat (m + n) = unat m + unat n"
    using le b by (intro unat_add_u64) (auto simp: block_ok_def)
  show "al \<longrightarrow> 8 dvd unat m" using al m by simp
qed

lemma palloc_scan_Some:
  "palloc_scan al n bs i = Some (j, m) \<Longrightarrow> \<exists>k<length bs. j = i + k \<and>
     m = (if al then ngx_align_ptr (d_last (bs ! k)) NGX_ALIGNMENT else d_last (bs ! k)) \<and>
     n \<le> d_end (bs ! k) - m"
proof (induction bs arbitrary: i)
  case (Cons b bs)
  show ?case
  proof (cases "n \<le> d_end b - (if al then ngx_align_ptr (d_last b) NGX_ALIGNMENT else d_last b)")
    case True
    then show ?thesis using Cons.prems by (auto simp: Let_def split: if_splits)
  next
    case False
    then have "palloc_scan al n bs (Suc i) = Some (j, m)" using Cons.prems by (simp add: Let_def)
    from Cons.IH [OF this] obtain k where k: "k < length bs" "j = Suc i + k"
      "m = (if al then ngx_align_ptr (d_last (bs ! k)) NGX_ALIGNMENT else d_last (bs ! k))"
      "n \<le> d_end (bs ! k) - m" by blast
    then show ?thesis by (intro exI [of _ "Suc k"]) auto
  qed
qed simp

text \<open>\<open>bump_failed\<close> changes nothing but failure counts and leaves \<open>current\<close> inside the chain.\<close>

definition layout :: "ngx_pool_data \<Rightarrow> u64 \<times> u64 \<times> u64" where
  "layout b = (d_base b, d_last b, d_end b)"

lemma bump_failed_layout: "bump_failed i c bs = (c', bs') \<Longrightarrow> map layout bs' = map layout bs"
proof (induction i c bs arbitrary: c' bs' rule: bump_failed.induct)
  case (3 i cur b c bs)
  then show ?case by (auto simp: Let_def layout_def split: prod.splits if_splits)
qed auto

lemma layout_length: "map layout bs = map layout bs' \<Longrightarrow> length bs = length bs'"
  by (rule map_eq_imp_length_eq)

lemma layout_bases: "map layout bs = map layout bs' \<Longrightarrow> map d_base bs = map d_base bs'"
  by (induction bs bs' rule: list_induct2') (auto simp: layout_def)

lemma layout_used: "map layout bs = map layout bs' \<Longrightarrow>
    (\<Union>b\<in>set bs. {unat (d_base b) ..< unat (d_last b)}) =
    (\<Union>b\<in>set bs'. {unat (d_base b) ..< unat (d_last b)})"
  by (induction bs bs' rule: list_induct2') (auto simp: layout_def)

lemma layout_block_ok: "map layout bs = map layout bs' \<Longrightarrow>
    (\<forall>b\<in>set bs. block_ok L ps b) = (\<forall>b\<in>set bs'. block_ok L ps b)"
  by (induction bs bs' rule: list_induct2') (auto simp: layout_def block_ok_def)

lemma layout_hd: "map layout bs = map layout bs' \<Longrightarrow> bs' \<noteq> [] \<Longrightarrow>
    d_end (hd (bs @ cs)) - d_base (hd (bs @ cs)) = d_end (hd bs') - d_base (hd bs')"
  by (cases bs; cases bs') (auto simp: layout_def)

lemma bump_failed_current:
  "bump_failed i c bs = (c', bs') \<Longrightarrow> bs \<noteq> [] \<Longrightarrow> c < i + length bs \<Longrightarrow> c' < i + length bs"
proof (induction i c bs arbitrary: c' bs' rule: bump_failed.induct)
  case (3 i cur b c bs)
  then show ?case by (fastforce simp: Let_def split: prod.splits if_splits)
qed auto

lemma sys_calloc_ok:
  assumes f: "calloc_ok f" and h: "heap_ok h" and c: "sys_calloc f h n = (a, h1)"
  shows "heap_ok h1" "set (live h) \<subseteq> set (live h1)" "a = 0 \<Longrightarrow> live h1 = live h"
    "a \<noteq> 0 \<Longrightarrow> live h1 = (a, n) # live h" "a \<noteq> 0 \<Longrightarrow> a \<notin> fst ` set (live h)"
    "a \<noteq> 0 \<Longrightarrow> 8 dvd unat a" "a \<noteq> 0 \<Longrightarrow> unat a + unat n < 2 ^ 64"
    "a \<noteq> 0 \<Longrightarrow> span a n \<inter> live_mem (live h) = {}"
proof -
  have a: "a = f (calls h) (live h) n" using c by (simp add: sys_calloc_def Let_def)
  have ok: "a \<noteq> 0 \<Longrightarrow> a \<notin> fst ` set (live h) \<and> 8 dvd unat a \<and> unat a + unat n < 2 ^ 64 \<and>
     (\<forall>e\<in>set (live h). span a n \<inter> span (fst e) (snd e) = {})"
    using f unfolding calloc_ok_def a by blast
  show l0: "a = 0 \<Longrightarrow> live h1 = live h" and l1: "a \<noteq> 0 \<Longrightarrow> live h1 = (a, n) # live h"
    using c by (auto simp: sys_calloc_def Let_def)
  show "set (live h) \<subseteq> set (live h1)" using l0 l1 by (cases "a = 0") auto
  have "bad_free h1 = bad_free h" using c by (auto simp: sys_calloc_def Let_def split: if_splits)
  with h ok l0 l1 show "heap_ok h1"
    unfolding heap_ok_def by (cases "a = 0") (auto simp: Int_commute image_iff)
  show "a \<noteq> 0 \<Longrightarrow> a \<notin> fst ` set (live h)" "a \<noteq> 0 \<Longrightarrow> 8 dvd unat a"
    "a \<noteq> 0 \<Longrightarrow> unat a + unat n < 2 ^ 64" using ok by auto
  show "a \<noteq> 0 \<Longrightarrow> span a n \<inter> live_mem (live h) = {}" using ok by (auto simp: live_mem_def)
qed

lemma block_ok_mono: "block_ok L ps b \<Longrightarrow> set L \<subseteq> set L' \<Longrightarrow> block_ok L' ps b"
  by (auto simp: block_ok_def)

lemma pool_ok_mono: "pool_ok L p \<Longrightarrow> set L \<subseteq> set L' \<Longrightarrow> pool_ok L' p"
  unfolding pool_ok_def by (blast intro: block_ok_mono)

lemma pool_used_mono: "set L \<subseteq> set L' \<Longrightarrow> pool_used L p \<subseteq> pool_used L' p"
  unfolding pool_used_def by blast

lemma pool_used_live: 
  assumes "pool_ok L p" shows "pool_used L p \<subseteq> live_mem L"
proof -
  have "{unat (d_base b) ..< unat (d_last b)} \<subseteq> live_mem L" if "b \<in> set (p_chain p)" for b
  proof -
    have "block_ok L (pool_psize p) b" using assms that by (simp add: pool_ok_def)
    then have "(d_base b, pool_psize p) \<in> set L"
      "{unat (d_base b) ..< unat (d_last b)} \<subseteq> span (d_base b) (pool_psize p)"
      by (auto simp: block_ok_def span_def)
    then show ?thesis unfolding live_mem_def by fastforce
  qed
  then show ?thesis unfolding pool_used_def live_mem_def by blast
qed

lemma pool_bases_live:
  assumes "pool_ok L p" shows "set (pool_bases p) \<subseteq> fst ` set L"
proof
  fix x assume "x \<in> set (pool_bases p)"
  then obtain b where "b \<in> set (p_chain p)" "x = d_base b" by (auto simp: pool_bases_def)
  then have "(x, pool_psize p) \<in> set L" using assms by (simp add: pool_ok_def block_ok_def)
  then show "x \<in> fst ` set L" by (rule rev_image_eqI) simp
qed

text \<open>What every allocation establishes.\<close>

definition alloc_post ::
  "sysheap \<Rightarrow> ngx_pool \<Rightarrow> u64 \<Rightarrow> u64 \<Rightarrow> sysheap \<Rightarrow> ngx_pool \<Rightarrow> bool" where
  "alloc_post h p n a h' p' \<longleftrightarrow> heap_ok h' \<and> pool_ok (live h') p' \<and> set (live h) \<subseteq> set (live h') \<and>
     pool_used (live h) p \<subseteq> pool_used (live h') p' \<and>
     (a \<noteq> 0 \<longrightarrow> span a n \<inter> pool_used (live h) p = {} \<and> span a n \<subseteq> pool_used (live h') p')"

lemma alloc_postI:
  "\<lbrakk>heap_ok h'; pool_ok (live h') p'; set (live h) \<subseteq> set (live h');
    pool_used (live h) p \<subseteq> pool_used (live h') p';
    a \<noteq> 0 \<Longrightarrow> span a n \<inter> pool_used (live h) p = {}; a \<noteq> 0 \<Longrightarrow> span a n \<subseteq> pool_used (live h') p'\<rbrakk>
   \<Longrightarrow> alloc_post h p n a h' p'"
  by (auto simp: alloc_post_def)

text \<open>Cutting a request from a block of the chain.\<close>

text \<open>
  The region cut from a block is new: it meets neither what the block has handed out, nor the other
  blocks, nor the large allocations.
\<close>

lemma cut_disjoint:
  assumes h: "heap_ok h" and p: "pool_ok (live h) p" and bj: "c \<in> set (p_chain p)"
    and m: "unat (d_last c) \<le> unat m" and sub: "span m n \<subseteq> span (d_base c) (pool_psize p)"
  shows "span m n \<inter> pool_used (live h) p = {}"
proof -
  have bl: "(d_base c, pool_psize p) \<in> set (live h)"
    using p bj by (auto simp: pool_ok_def block_ok_def)
  have "span m n \<inter> {unat (d_base b) ..< unat (d_last b)} = {}" if b: "b \<in> set (p_chain p)" for b
  proof (cases "d_base b = d_base c")
    case True
    have "inj_on d_base (set (p_chain p))" 
      using p by (simp add: pool_ok_def pool_bases_def distinct_map)
    then have "b = c" using True b bj by (auto dest: inj_onD)
    then show ?thesis using m by (auto simp: span_def)
  next
    case False
    have "block_ok (live h) (pool_psize p) b" using p b by (simp add: pool_ok_def)
    then have e: "(d_base b, pool_psize p) \<in> set (live h)"
      and f: "{unat (d_base b) ..< unat (d_last b)} \<subseteq> span (d_base b) (pool_psize p)"
      by (auto simp: block_ok_def span_def)
    have "span (d_base c) (pool_psize p) \<inter> span (d_base b) (pool_psize p) = {}"
      using heap_disjoint [OF h bl e] False by simp
    then show ?thesis using f sub by blast
  qed
  moreover have "span m n \<inter> span a k = {}" if e: "(a, k) \<in> set (live h)" "a \<in> set (pool_larges p)" for a k
  proof -
    have "d_base c \<noteq> a" using p bj e by (auto simp: pool_ok_def pool_bases_def)
    then show ?thesis using heap_disjoint [OF h bl e(1)] sub by blast
  qed
  ultimately show ?thesis unfolding pool_used_def by fastforce
qed

text \<open>Raising \<open>last\<close> of a block keeps what was handed out and adds the region in between.\<close>

lemma cut_used:
  assumes j: "j < length (p_chain p)" and l: "unat (d_last (p_chain p ! j)) \<le> unat (l :: u64)"
    and p': "p' = p\<lparr>p_chain := (p_chain p)[j := (p_chain p ! j)\<lparr>d_last := l\<rparr>]\<rparr>"
  shows "pool_used L p \<subseteq> pool_used L p'"
    "{unat (d_base (p_chain p ! j)) ..< unat l} \<subseteq> pool_used L p'"
proof -
  have "{unat (d_base b) ..< unat (d_last b)} \<subseteq> (\<Union>b\<in>set (p_chain p'). {unat (d_base b) ..< unat (d_last b)})"
    if b: "b \<in> set (p_chain p)" for b
  proof -
    obtain i where i: "i < length (p_chain p)" "b = p_chain p ! i" using b by (auto simp: in_set_conv_nth)
    have "p_chain p' ! i \<in> set (p_chain p')" using i by (simp add: p')
    moreover have "{unat (d_base b) ..< unat (d_last b)} \<subseteq>
        {unat (d_base (p_chain p' ! i)) ..< unat (d_last (p_chain p' ! i))}"
      using i j l by (cases "i = j") (auto simp: p')
    ultimately show ?thesis by blast
  qed
  moreover have "pool_larges p' = pool_larges p" by (simp add: pool_larges_def p')
  ultimately show "pool_used L p \<subseteq> pool_used L p'" unfolding pool_used_def by auto
  have new: "p_chain p' ! j = (p_chain p ! j)\<lparr>d_last := l\<rparr>" "p_chain p' ! j \<in> set (p_chain p')"
    using j by (simp_all add: p' set_update_memI)
  have "{unat (d_base (p_chain p' ! j)) ..< unat (d_last (p_chain p' ! j))} \<subseteq>
      (\<Union>b\<in>set (p_chain p'). {unat (d_base b) ..< unat (d_last b)})"
    using new(2) by blast
  then have "{unat (d_base (p_chain p ! j)) ..< unat l} \<subseteq>
      (\<Union>b\<in>set (p_chain p'). {unat (d_base b) ..< unat (d_last b)})"
    unfolding new(1) by simp
  then show "{unat (d_base (p_chain p ! j)) ..< unat l} \<subseteq> pool_used L p'"
    unfolding pool_used_def by blast
qed

lemma cut_post:
  assumes h: "heap_ok h" and p: "pool_ok (live h) p" and j: "j < length (p_chain p)"
    and m: "m = (if al then ngx_align_ptr (d_last (p_chain p ! j)) NGX_ALIGNMENT
                 else d_last (p_chain p ! j))"
    and fits: "n \<le> d_end (p_chain p ! j) - m"
    and p': "p' = p\<lparr>p_chain := (p_chain p)[j := (p_chain p ! j)\<lparr>d_last := m + n\<rparr>]\<rparr>"
  shows "alloc_post h p n m h p'" "al \<longrightarrow> 8 dvd unat m" "m \<noteq> 0" "pool_bases p' = pool_bases p"
proof -
  let ?b = "p_chain p ! j" and ?ps = "pool_psize p"
  let ?b' = "?b\<lparr>d_last := m + n\<rparr>"
  have bj: "?b \<in> set (p_chain p)" using j by simp
  have bok: "block_ok (live h) ?ps ?b" and ps8: "8 dvd unat ?ps"
    using p bj by (auto simp: pool_ok_def)
  note cut = block_cut [OF bok ps8 m fits]
  show "al \<longrightarrow> 8 dvd unat m" by (fact cut)
  show "m \<noteq> 0" using cut(1) bok by (auto simp: block_ok_def)
  show bases: "pool_bases p' = pool_bases p"
    using j by (simp add: p' pool_bases_def map_update) (metis list_update_id length_map nth_map)
  have b'ok: "block_ok (live h) ?ps ?b'" using bok cut(1,2,3) by (auto simp: block_ok_def)
  have hd': "pool_psize p' = ?ps"
    using j by (cases "p_chain p"; cases j) (auto simp: pool_psize_def p')
  have larges: "pool_larges p' = pool_larges p" by (simp add: pool_larges_def p')
  have chain': "set (p_chain p') \<subseteq> insert ?b' (set (p_chain p))" 
    by (simp add: p' set_update_subset_insert)
  have ok: "pool_ok (live h) p'"
    using p chain' b'ok j unfolding pool_ok_def hd' bases larges by (auto simp: p')
  have up: "unat (d_last ?b) \<le> unat (m + n)" using cut(1,3) by linarith
  note used = cut_used [OF j up p', of "live h"]
  have sub: "span m n \<subseteq> {unat (d_base ?b) ..< unat (m + n)}" "span m n \<subseteq> span (d_base ?b) ?ps"
    using cut(1,2,3) bok by (auto simp: span_def block_ok_def)
  show "alloc_post h p n m h p'"
    using h ok used sub(1) cut_disjoint [OF h p bj cut(1) sub(2)] by (intro alloc_postI) auto
qed

text \<open>A new block at the end of the chain.\<close>

lemma append_block_post:
  assumes h': "heap_ok h'" and l': "live h' = (m, ps) # live h" and fresh: "m \<notin> fst ` set (live h)"
    and p: "pool_ok (live h) p" and ps: "ps = pool_psize p"
    and old: "map layout old = map layout (p_chain p)"
    and new: "block_ok (live h') ps b" "d_base b = m"
    and p': "p' = p\<lparr>p_chain := old @ [b], p_current := c\<rparr>" and c: "c < length (p_chain p)"
    and a: "span a n \<subseteq> {unat (d_base b) ..< unat (d_last b)}"
      "span a n \<inter> live_mem (live h) = {}"
  shows "alloc_post h p n a h' p'" "pool_bases p' = pool_bases p @ [m]"
    "pool_larges p' = pool_larges p"
proof -
  have ne: "p_chain p \<noteq> []" using p by (simp add: pool_ok_def)
  show larges: "pool_larges p' = pool_larges p" by (simp add: p' pool_larges_def)
  show bases: "pool_bases p' = pool_bases p @ [m]"
    using layout_bases [OF old] new(2) by (simp add: p' pool_bases_def)
  have psize: "pool_psize p' = ps" using layout_hd [OF old ne] by (simp add: p' pool_psize_def ps)
  have sub: "set (live h) \<subseteq> set (live h')" by (auto simp: l')
  have bl: "set (pool_bases p) \<subseteq> fst ` set (live h)" by (rule pool_bases_live [OF p])
  have ll: "set (pool_larges p) \<subseteq> fst ` set (live h)" using p by (simp add: pool_ok_def)
  have "\<forall>b\<in>set (p_chain p). block_ok (live h') ps b"
    using p sub unfolding pool_ok_def ps by (blast intro: block_ok_mono)
  then have blks: "\<forall>b\<in>set old. block_ok (live h') ps b" using layout_block_ok [OF old] by simp
  have "distinct (pool_bases p' @ pool_larges p')"
    using p fresh bl ll unfolding bases larges by (auto simp: pool_ok_def)
  moreover have "set (pool_larges p') \<subseteq> fst ` set (live h')" using ll by (auto simp: larges l')
  ultimately have "pool_ok (live h') p'"
    using p blks new c layout_length [OF old] unfolding pool_ok_def psize
    by (simp add: p' ps [symmetric])
  moreover have "pool_used (live h) p \<subseteq> pool_used (live h') p'"
    using layout_used [OF old] unfolding pool_used_def larges by (auto simp: p' l')
  moreover have "span a n \<subseteq> pool_used (live h') p'" using a(1) by (auto simp: p' pool_used_def)
  moreover have "span a n \<inter> pool_used (live h) p = {}" using a(2) pool_used_live [OF p] by blast
  ultimately show "alloc_post h p n a h' p'" using h' sub by (intro alloc_postI) auto
qed

text \<open>The address arithmetic of \<open>ngx_palloc_block\<close>.\<close>

lemma new_block_arith:
  assumes "8 dvd unat m" "unat m + unat ps < 2 ^ 64" "unat n + 32 \<le> unat ps"
    and b: "b = \<lparr>d_base = m, d_last = ngx_align_ptr (m + sizeof_pool_data) NGX_ALIGNMENT + n,
                 d_end = m + ps, d_failed = 0\<rparr>"
    and ps: "8 dvd unat ps"
    and a: "a = ngx_align_ptr (m + sizeof_pool_data) NGX_ALIGNMENT"
  shows "unat a = unat m + 32" "8 dvd unat a" "unat (d_last b) = unat m + 32 + unat n"
    "block_ok ((m, ps) # L) ps b"
proof -
  have m32: "unat (m + sizeof_pool_data) = unat m + 32"
    using assms(2,3) by (simp add: sizeof_pool_data_def unat_add_u64)
  have "8 dvd unat m + unat ps" using assms(1) ps by simp
  then have "unat m + unat ps + 8 \<le> 2 ^ 64" using assms(2) by (auto elim!: dvdE)
  then have "unat m + 40 \<le> 2 ^ 64" using assms(3) by linarith
  then have "unat (m + sizeof_pool_data) + 7 < 2 ^ 64" using m32 by linarith
  then show ua: "unat a = unat m + 32"
    using assms(1) by (auto simp: a unat_align_8 m32 elim!: dvdE)
  show "8 dvd unat a" using ua assms(1) by auto
  have "unat (a + n) = unat m + 32 + unat n" using ua assms(2,3) by (subst unat_add_u64) auto
  then show last: "unat (d_last b) = unat m + 32 + unat n" by (simp add: b a)
  show "block_ok ((m, ps) # L) ps b" using assms(1-3) last by (simp add: block_ok_def b)
qed

lemma block_post:
  assumes f: "calloc_ok f" and h: "heap_ok h" and p: "pool_ok (live h) p"
    and n: "unat n + 32 \<le> unat (pool_psize p)"
    and r: "ngx_palloc_block f h p n = (a, h', p')"
  shows "alloc_post h p n a h' p' \<and> 8 dvd unat a \<and> (a = 0 \<longrightarrow> p' = p \<and> live h' = live h) \<and>
    p_large p' = p_large p \<and> set (pool_bases p') \<subseteq> set (pool_bases p) \<union> - fst ` set (live h)"
proof -
  let ?ps = "pool_psize p" and ?cur = "p_current p"
  obtain m h1 where c: "sys_calloc f h ?ps = (m, h1)" by force
  note ca = sys_calloc_ok [OF f h c]
  have ps: "?ps = d_end (hd (p_chain p)) - d_base (hd (p_chain p))" by (simp add: pool_psize_def)
  consider (fail) "m = 0" | (new) "m \<noteq> 0" by blast
  then show ?thesis
  proof cases
    case fail
    then have "a = 0" "h' = h1" "p' = p"
      using r c by (auto simp: ngx_palloc_block_def Let_def ps [symmetric])
    then show ?thesis using ca p fail by (auto intro!: alloc_postI)
  next
    case new
    obtain cur' rest where br: "bump_failed ?cur ?cur (drop ?cur (p_chain p)) = (cur', rest)" by force
    let ?b = "\<lparr>d_base = m, d_last = ngx_align_ptr (m + sizeof_pool_data) NGX_ALIGNMENT + n,
               d_end = m + ?ps, d_failed = 0\<rparr>" and ?old = "take ?cur (p_chain p) @ rest"
    have res: "a = ngx_align_ptr (m + sizeof_pool_data) NGX_ALIGNMENT" "h' = h1"
      "p' = p\<lparr>p_chain := ?old @ [?b], p_current := cur'\<rparr>"
      using r c new br by (auto simp: ngx_palloc_block_def Let_def ps [symmetric])
    have "8 dvd unat ?ps" and cur: "?cur < length (p_chain p)" using p by (auto simp: pool_ok_def)
    note ar = new_block_arith [OF ca(6) [OF new] ca(7) [OF new] n refl this(1) res(1)]
    have l': "live h' = (m, ?ps) # live h" using ca(4) new res by simp
    have old: "map layout ?old = map layout (p_chain p)"
      using bump_failed_layout [OF br] by (metis append_take_drop_id map_append)
    have c': "cur' < length (p_chain p)" using bump_failed_current [OF br] cur by simp
    have sp: "span a n \<subseteq> {unat (d_base ?b) ..< unat (d_last ?b)}"
      using ar(1,3) by (auto simp: span_def)
    have "span a n \<subseteq> span m ?ps" using ar(1) n by (auto simp: span_def)
    then have dj: "span a n \<inter> live_mem (live h) = {}" using ca(8) new by blast
    have bok: "block_ok (live h') ?ps ?b" using ar(4) l' by simp
    note post = append_block_post [OF _ l' ca(5) [OF new] p refl old bok _ res(3) c' sp dj]
    have "alloc_post h p n a h' p'" "pool_bases p' = pool_bases p @ [m]"
      using post ca(1) res(2) by auto
    moreover have "a \<noteq> 0" using ar(1) by auto
    ultimately show ?thesis using ar(2) res(3) ca(5) new by auto
  qed
qed

lemma small_post:
  assumes f: "calloc_ok f" and h: "heap_ok h" and p: "pool_ok (live h) p"
    and n: "unat n + 32 \<le> unat (pool_psize p)"
    and r: "ngx_palloc_small f h p n al = (a, h', p')"
  shows "alloc_post h p n a h' p' \<and> (al \<longrightarrow> 8 dvd unat a) \<and> (a = 0 \<longrightarrow> p' = p \<and> live h' = live h) \<and>
    p_large p' = p_large p \<and> set (pool_bases p') \<subseteq> set (pool_bases p) \<union> - fst ` set (live h)"
proof (cases "palloc_scan al n (drop (p_current p) (p_chain p)) (p_current p)")
  case None
  then have "ngx_palloc_block f h p n = (a, h', p')" using r by (simp add: ngx_palloc_small_def)
  from block_post [OF f h p n this] show ?thesis by simp
next
  case (Some jm)
  obtain j m where jm: "jm = (j, m)" by force
  from palloc_scan_Some [OF Some [unfolded jm]] obtain k where
    k: "k < length (drop (p_current p) (p_chain p))" "j = p_current p + k"
      "m = (if al then ngx_align_ptr (d_last (drop (p_current p) (p_chain p) ! k)) NGX_ALIGNMENT
            else d_last (drop (p_current p) (p_chain p) ! k))"
      "n \<le> d_end (drop (p_current p) (p_chain p) ! k) - m" by blast
  have j: "j < length (p_chain p)" using k by simp
  have nth: "drop (p_current p) (p_chain p) ! k = p_chain p ! j" using k by simp
  have res: "a = m" "h' = h"
    "p' = p\<lparr>p_chain := (p_chain p)[j := (p_chain p ! j)\<lparr>d_last := m + n\<rparr>]\<rparr>"
    using r Some jm by (auto simp: ngx_palloc_small_def)
  from cut_post [OF h p j k(3,4) [unfolded nth] res(3)] show ?thesis using res by auto
qed

lemma pool_ok_larges: "pool_ok L p \<Longrightarrow> a \<notin> fst ` set L \<Longrightarrow> a \<notin> set (pool_larges p)"
  by (auto simp: pool_ok_def)

text \<open>Freeing an address that the pool does not own.\<close>

lemma sys_free_other:
  assumes h: "heap_ok h" and p: "pool_ok (live h) p"
    and a: "a \<in> fst ` set (live h)" "a \<notin> set (pool_bases p)" "a \<notin> set (pool_larges p)"
  shows "live (sys_free h a) = filter (\<lambda>e. fst e \<noteq> a) (live h)" "heap_ok (sys_free h a)"
    "pool_ok (live (sys_free h a)) p" "pool_used (live (sys_free h a)) p = pool_used (live h) p"
proof -
  have a0: "a \<noteq> 0" using h a(1) by (auto simp: heap_ok_def)
  show l: "live (sys_free h a) = filter (\<lambda>e. fst e \<noteq> a) (live h)" 
    using a0 a(1) by (simp add: sys_free_def)
  have "bad_free (sys_free h a) = bad_free h" using a0 a(1) by (simp add: sys_free_def)
  with h show "heap_ok (sys_free h a)"
    unfolding heap_ok_def l by (auto simp: distinct_map_filter)
  have "block_ok (live (sys_free h a)) (pool_psize p) b" if b: "b \<in> set (p_chain p)" for b
  proof -
    have "d_base b \<noteq> a" using b a(2) by (auto simp: pool_bases_def)
    moreover have "block_ok (live h) (pool_psize p) b" using p b by (simp add: pool_ok_def)
    ultimately show ?thesis by (simp add: block_ok_def l)
  qed
  moreover have "set (pool_larges p) \<subseteq> fst ` set (live (sys_free h a))"
    using p a(3) unfolding pool_ok_def l by (fastforce simp: image_iff)
  ultimately show "pool_ok (live (sys_free h a)) p" using p by (simp add: pool_ok_def)
  have "{e \<in> set (live (sys_free h a)). fst e \<in> set (pool_larges p)} =
      {e \<in> set (live h). fst e \<in> set (pool_larges p)}" using a(3) by (auto simp: l)
  then show "pool_used (live (sys_free h a)) p = pool_used (live h) p" by (simp add: pool_used_def)
qed

text \<open>Registering a fresh allocation as a large one.\<close>

lemma add_large:
  assumes p: "pool_ok L p" and a: "(a, n) \<in> set L" "a \<noteq> 0" "a \<notin> set (pool_bases p)"
      "a \<notin> set (pool_larges p)"
    and p': "p_chain p' = p_chain p" "p_current p' = p_current p" "p_max p' = p_max p"
    and l: "set (pool_larges p') = insert a (set (pool_larges p))" "distinct (pool_larges p')"
  shows "pool_ok L p'" "pool_used L p \<subseteq> pool_used L p'" "span a n \<subseteq> pool_used L p'"
proof -
  have "pool_bases p' = pool_bases p" "pool_psize p' = pool_psize p"
    by (simp_all add: pool_bases_def pool_psize_def p')
  then show "pool_ok L p'"
    using p a l by (auto simp: pool_ok_def p' intro: rev_image_eqI)
  show "pool_used L p \<subseteq> pool_used L p'" by (auto simp: pool_used_def p' l)
  show "span a n \<subseteq> pool_used L p'" using a(1) by (fastforce simp: pool_used_def l)
qed

lemma push_large_post:
  assumes f: "calloc_ok f" and h: "heap_ok h" and p: "pool_ok (live h) p"
    and c: "sys_calloc f h n = (b, h1)" "b \<noteq> 0"
    and r: "push_large f h1 p b = (a, h', p')"
  shows "alloc_post h p n a h' p' \<and> 8 dvd unat a \<and> (a = 0 \<longrightarrow> p' = p \<and> live h' = live h)"
proof -
  note ca = sys_calloc_ok [OF f h c(1)]
  have p1: "pool_ok (live h1) p" by (rule pool_ok_mono [OF p ca(2)])
  have u1: "pool_used (live h) p \<subseteq> pool_used (live h1) p" by (rule pool_used_mono [OF ca(2)])
  have l1: "live h1 = (b, n) # live h" and bfresh: "b \<notin> fst ` set (live h)" using ca(4,5) c(2) by auto
  have bdisj: "span b n \<inter> pool_used (live h) p = {}"
    using ca(8) c(2) pool_used_live [OF p] by blast
  obtain node h2 p2 where s: "ngx_palloc_small f h1 p sizeof_pool_large True = (node, h2, p2)"
    by (metis prod_cases3)
  have "unat sizeof_pool_large + 32 \<le> unat (pool_psize p)"
    using p by (simp add: pool_ok_def sizeof_pool_large_def)
  note sp = small_post [OF f ca(1) p1 this s]
  have pl: "b \<notin> set (pool_larges p)" by (rule pool_ok_larges [OF p bfresh])
  have pb: "b \<notin> set (pool_bases p)" using pool_bases_live [OF p] bfresh by blast
  show ?thesis
  proof (cases "node = 0")
    case True
    then have a: "a = 0" "h' = sys_free h2 b" "p' = p2" using r s by (auto simp: push_large_def)
    have l2: "live h2 = live h1" "p2 = p" "heap_ok h2" using sp True by (auto simp: alloc_post_def)
    have m: "b \<in> fst ` set (live h2)" and p2: "pool_ok (live h2) p" using p1 by (simp_all add: l2 l1)
    note fr = sys_free_other [OF l2(3) p2 m pb pl]
    have "filter (\<lambda>e. fst e \<noteq> b) (live h) = live h" using bfresh by (intro filter_True) auto
    then have "live h' = live h" using fr(1) by (simp add: l2 l1 a)
    then show ?thesis using fr p by (auto simp: a l2 alloc_post_def)
  next
    case False
    then have a: "a = b" "h' = h2" "p' = p2\<lparr>p_large := \<lparr>l_node = node, l_alloc = b\<rparr> # p_large p2\<rparr>"
      using r s by (auto simp: push_large_def)
    have post: "alloc_post h1 p sizeof_pool_large node h2 p2" and lg: "p_large p2 = p_large p"
      and bs: "set (pool_bases p2) \<subseteq> set (pool_bases p) \<union> - fst ` set (live h1)" using sp by auto
    have m: "(b, n) \<in> set (live h2)" and ok2: "pool_ok (live h2) p2" and "heap_ok h2"
      and sub: "set (live h1) \<subseteq> set (live h2)"
      and u2: "pool_used (live h1) p \<subseteq> pool_used (live h2) p2"
      using post l1 by (auto simp: alloc_post_def)
    have nb: "b \<notin> set (pool_bases p2)" using bs pb by (auto simp: l1)
    have pl2: "pool_larges p2 = pool_larges p" by (simp add: pool_larges_def lg)
    have pl': "pool_larges p' = b # pool_larges p2" using c(2) by (simp add: a pool_larges_def)
    have d': "distinct (pool_larges p')" using ok2 pl pl2 by (simp add: pl' pool_ok_def)
    have s': "set (pool_larges p') = insert b (set (pool_larges p2))" by (simp add: pl')
    note al = add_large [OF ok2 m c(2) nb pl [folded pl2] _ _ _ s' d']
    have al': "pool_ok (live h2) p'" "pool_used (live h2) p2 \<subseteq> pool_used (live h2) p'"
      "span b n \<subseteq> pool_used (live h2) p'"
      using al by (simp_all add: a)
    have "alloc_post h p n a h' p'"
      unfolding a(1,2) using \<open>heap_ok h2\<close> al' sub ca(2) u1 u2 bdisj by (intro alloc_postI) auto
    then show ?thesis using ca(6) c(2) a by simp
  qed
qed

lemma reuse_large_Some:
  "reuse_large n ls a = Some ls' \<Longrightarrow> \<exists>us l vs. ls = us @ l # vs \<and> l_alloc l = 0 \<and>
     ls' = us @ l\<lparr>l_alloc := a\<rparr> # vs \<and> (n \<le> 4 \<longrightarrow> n + length us \<le> 4)"
proof (induction n ls a arbitrary: ls' rule: reuse_large.induct)
  case (2 n l ls a)
  show ?case
  proof (cases "l_alloc l = 0")
    case True
    then show ?thesis using 2 by (intro exI [of _ "[]"]) auto
  next
    case False
    then obtain ls2 where "\<not> n > 3" "reuse_large (Suc n) ls a = Some ls2" "ls' = l # ls2"
      using 2 by (auto split: if_splits)
    with 2(1) [OF False this(1,2)] obtain us k vs where "ls = us @ k # vs" "l_alloc k = 0"
      "ls2 = us @ k\<lparr>l_alloc := a\<rparr> # vs" "Suc n \<le> 4 \<longrightarrow> Suc n + length us \<le> 4" by blast
    then show ?thesis using \<open>\<not> n > 3\<close> \<open>ls' = l # ls2\<close> by (intro exI [of _ "l # us"]) auto
  qed
qed simp

lemma large_post:
  assumes f: "calloc_ok f" and h: "heap_ok h" and p: "pool_ok (live h) p"
    and r: "ngx_palloc_large f h p n = (a, h', p')"
  shows "alloc_post h p n a h' p' \<and> 8 dvd unat a"
proof -
  obtain b h1 where c: "sys_calloc f h n = (b, h1)" by force
  note ca = sys_calloc_ok [OF f h c]
  have p1: "pool_ok (live h1) p" by (rule pool_ok_mono [OF p ca(2)])
  have u1: "pool_used (live h) p \<subseteq> pool_used (live h1) p" by (rule pool_used_mono [OF ca(2)])
  consider "b = 0" | "b \<noteq> 0" "reuse_large 0 (p_large p) b = None"
    | ls where "b \<noteq> 0" "reuse_large 0 (p_large p) b = Some ls" by (cases "reuse_large 0 (p_large p) b") auto
  then show ?thesis
  proof cases
    case 1
    then have "a = 0" "h' = h1" "p' = p" using r c by (auto simp: ngx_palloc_large_def)
    then show ?thesis using ca(1,2) p1 u1 by (auto intro!: alloc_postI)
  next
    case 2
    then have "push_large f h1 p b = (a, h', p')" using r c by (simp add: ngx_palloc_large_def)
    from push_large_post [OF f h p c 2(1) this] show ?thesis by simp
  next
    case (3 ls)
    then have a: "a = b" "h' = h1" "p' = p\<lparr>p_large := ls\<rparr>" 
      using r c by (auto simp: ngx_palloc_large_def)
    from reuse_large_Some [OF 3(2)] obtain us l vs where
      ls: "p_large p = us @ l # vs" "l_alloc l = 0" "ls = us @ l\<lparr>l_alloc := b\<rparr> # vs" by blast
    have m: "(b, n) \<in> set (live h1)" and fr: "b \<notin> fst ` set (live h)" using ca(4,5) 3(1) by auto
    have pl: "b \<notin> set (pool_larges p)" by (rule pool_ok_larges [OF p fr])
    have pb: "b \<notin> set (pool_bases p)" using pool_bases_live [OF p] fr by blast
    have s': "set (pool_larges p') = insert b (set (pool_larges p))"
      using 3(1) ls by (auto simp: a pool_larges_def)
    have "distinct (pool_larges p)" using p by (simp add: pool_ok_def)
    then have d': "distinct (pool_larges p')"
      using 3(1) ls pl by (simp add: a pool_larges_def)
    note al = add_large [OF p1 m 3(1) pb pl _ _ _ s' d']
    have al': "pool_ok (live h1) p'" "pool_used (live h1) p \<subseteq> pool_used (live h1) p'"
      "span b n \<subseteq> pool_used (live h1) p'" using al by (simp_all add: a)
    have "span b n \<inter> pool_used (live h) p = {}" using ca(8) 3(1) pool_used_live [OF p] by blast
    then have "alloc_post h p n a h' p'"
      unfolding a(1,2) using ca(1,2) al' u1 by (intro alloc_postI) auto
    then show ?thesis using ca(6) 3(1) a by simp
  qed
qed

lemma alloc_post_palloc:
  assumes f: "calloc_ok f" and h: "heap_ok h" and p: "pool_ok (live h) p"
    and r: "ngx_palloc f h p n = (a, h', p')"
  shows "alloc_post h p n a h' p' \<and> 8 dvd unat a"
proof (cases "n \<le> p_max p")
  case True
  then have "unat n + 32 \<le> unat (pool_psize p)" using p by (simp add: pool_ok_def word_le_nat_alt)
  moreover have "ngx_palloc_small f h p n True = (a, h', p')" using r True by (simp add: ngx_palloc_def)
  ultimately show ?thesis using small_post [OF f h p] by simp
next
  case False
  then show ?thesis using r large_post [OF f h p] by (simp add: ngx_palloc_def)
qed

lemma alloc_post_pnalloc:
  assumes f: "calloc_ok f" and h: "heap_ok h" and p: "pool_ok (live h) p"
    and r: "ngx_pnalloc f h p n = (a, h', p')"
  shows "alloc_post h p n a h' p'"
proof (cases "n \<le> p_max p")
  case True
  then have "unat n + 32 \<le> unat (pool_psize p)" using p by (simp add: pool_ok_def word_le_nat_alt)
  moreover have "ngx_palloc_small f h p n False = (a, h', p')" using r True by (simp add: ngx_pnalloc_def)
  ultimately show ?thesis using small_post [OF f h p] by simp
next
  case False
  then show ?thesis using r large_post [OF f h p] by (simp add: ngx_pnalloc_def)
qed

lemma alloc_post_pcalloc:
  assumes f: "calloc_ok f" and h: "heap_ok h" and p: "pool_ok (live h) p"
    and r: "ngx_pcalloc f h p n = (a, h', p')"
  shows "alloc_post h p n a h' p' \<and> 8 dvd unat a"
proof -
  obtain h1 where h1: "ngx_palloc f h p n = (a, h1, p')" 
    "live h' = live h1 \<and> bad_free h' = bad_free h1"
    using r by (auto simp: ngx_pcalloc_def split: prod.splits if_splits)
  then show ?thesis using alloc_post_palloc [OF f h p h1(1)] by (simp add: alloc_post_def heap_ok_def)
qed

lemma span_offset: "unat x \<in> span a n \<Longrightarrow> x - a < n"
proof -
  assume x: "unat x \<in> span a n"
  then have "a \<le> x" by (simp add: span_def word_le_nat_alt)
  then show ?thesis using x by (auto simp: span_def word_less_nat_alt unat_sub_u64)
qed

lemma offset_span:
  assumes "x - a < n" "unat a + unat n \<le> 2 ^ 64"
  shows "unat x \<in> span a n"
proof -
  have lt: "unat (x - a) < unat n" using assms(1) by (simp add: word_less_nat_alt)
  then have "unat (a + (x - a)) = unat a + unat (x - a)" using assms(2) by (intro unat_add_u64) simp
  then show ?thesis using lt by (simp add: span_def)
qed

lemma live_mem_bound: "heap_ok h \<Longrightarrow> y \<in> live_mem (live h) \<Longrightarrow> y + 1 < 2 ^ 64"
  unfolding heap_ok_def live_mem_def span_def by fastforce

lemma span_bound:
  assumes "heap_ok h" "span a n \<subseteq> live_mem (live h)"
  shows "unat a + unat n < 2 ^ 64"
proof (cases "n = 0")
  case True
  then show ?thesis using unat_lt_u64 [of a] by simp
next
  case False
  then have "0 < unat n" by (simp add: unat_gt_0)
  then have "unat a + unat n - 1 \<in> span a n" by (auto simp: span_def)
  then have "unat a + unat n - 1 + 1 < 2 ^ 64" using assms live_mem_bound by blast
  then show ?thesis using \<open>0 < unat n\<close> by simp
qed

lemma palloc_no_wrap:
  assumes "calloc_ok f" "heap_ok h" "pool_ok (live h) p" "ngx_palloc f h p n = (a, h', p')" "a \<noteq> 0"
  shows "unat a + unat n < 2 ^ 64"
proof -
  have "heap_ok h'" "pool_ok (live h') p'" "span a n \<subseteq> pool_used (live h') p'"
    using alloc_post_palloc [OF assms(1-4)] assms(5) by (auto simp: alloc_post_def)
  then show ?thesis using span_bound pool_used_live by (meson order_trans)
qed

text \<open>No allocation writes to memory that is live.\<close>

lemma sys_calloc_mem:
  assumes "calloc_ok f" "heap_ok h" "sys_calloc f h n = (a, h1)" "unat x \<in> live_mem (live h)"
  shows "hmem h1 x = hmem h x"
proof -
  note ca = sys_calloc_ok [OF assms(1-3)]
  have "\<not> x - a < n" if "a \<noteq> 0" 
    using offset_span [of x a n] ca(7,8) that assms(4) by fastforce
  then show ?thesis using assms(3) by (auto simp: sys_calloc_def Let_def mem_zero_def)
qed

lemma small_mem:
  assumes "calloc_ok f" "heap_ok h" "ngx_palloc_small f h p n al = (a, h', p')"
    "unat x \<in> live_mem (live h)"
  shows "hmem h' x = hmem h x"
  using assms sys_calloc_mem [OF assms(1,2) _ assms(4)]
  by (auto simp: ngx_palloc_small_def ngx_palloc_block_def Let_def split: option.splits prod.splits if_splits)

lemma sys_free_mem [simp]: "hmem (sys_free h a) = hmem h"
  by (simp add: sys_free_def)

lemma live_mem_mono: "set L \<subseteq> set L' \<Longrightarrow> live_mem L \<subseteq> live_mem L'"
  unfolding live_mem_def by blast

lemma large_mem:
  assumes "calloc_ok f" "heap_ok h" "ngx_palloc_large f h p n = (a, h', p')"
    "unat x \<in> live_mem (live h)"
  shows "hmem h' x = hmem h x"
proof -
  obtain b h1 where c: "sys_calloc f h n = (b, h1)" by force
  note ca = sys_calloc_ok [OF assms(1,2) c]
  have x1: "unat x \<in> live_mem (live h1)" using live_mem_mono [OF ca(2)] assms(4) by blast
  have m1: "hmem h1 x = hmem h x" by (rule sys_calloc_mem [OF assms(1,2) c assms(4)])
  obtain nd h2 p2 where s: "ngx_palloc_small f h1 p sizeof_pool_large True = (nd, h2, p2)"
    by (metis prod_cases3)
  have "hmem h2 x = hmem h1 x" by (rule small_mem [OF assms(1) ca(1) s x1])
  then show ?thesis using assms(3) m1 c s
    by (auto simp: ngx_palloc_large_def push_large_def split: option.splits if_splits)
qed

lemma palloc_mem:
  assumes "calloc_ok f" "heap_ok h" "ngx_palloc f h p n = (a, h', p')" "unat x \<in> live_mem (live h)"
  shows "hmem h' x = hmem h x"
  using assms small_mem large_mem by (auto simp: ngx_palloc_def split: if_splits)

subsection \<open>Freeing everything a pool owns\<close>

fun free_all :: "sysheap \<Rightarrow> u64 list \<Rightarrow> sysheap" where
  "free_all h [] = h"
| "free_all h (a # as) = free_all (sys_free h a) as"

lemma free_all_append: "free_all h (as @ bs) = free_all (free_all h as) bs"
  by (induction as arbitrary: h) auto

lemma free_large_eq: "free_large h ls = free_all h (filter (\<lambda>a. a \<noteq> 0) (map l_alloc ls))"
  by (induction ls arbitrary: h) auto

lemma free_chain_eq: "free_chain h bs = free_all h (map d_base bs)"
  by (induction bs arbitrary: h) auto

lemma free_all_eq:
  assumes "distinct as" "set as \<subseteq> fst ` set (live h)" "0 \<notin> set as"
  shows "free_all h as = h\<lparr>live := filter (\<lambda>e. fst e \<notin> set as) (live h)\<rparr>"
  using assms
proof (induction as arbitrary: h)
  case (Cons a as)
  have "sys_free h a = h\<lparr>live := filter (\<lambda>e. fst e \<noteq> a) (live h)\<rparr>"
    using Cons.prems by (auto simp: sys_free_def)
  moreover have "set as \<subseteq> fst ` set (filter (\<lambda>e. fst e \<noteq> a) (live h))"
    using Cons.prems by (fastforce simp: image_iff)
  ultimately show ?case using Cons by (simp add: conj_commute)
qed simp

lemma pool_free_cond:
  assumes h: "heap_ok h" and p: "pool_ok (live h) p"
  shows "set (pool_larges p @ pool_bases p) \<subseteq> fst ` set (live h)" "0 \<notin> set (pool_larges p @ pool_bases p)"
    "distinct (pool_larges p @ pool_bases p)"
proof -
  show sub: "set (pool_larges p @ pool_bases p) \<subseteq> fst ` set (live h)"
    using p pool_bases_live [OF p] by (simp add: pool_ok_def)
  show "0 \<notin> set (pool_larges p @ pool_bases p)" using sub h by (auto simp: heap_ok_def)
  show "distinct (pool_larges p @ pool_bases p)" using p by (auto simp: pool_ok_def)
qed

lemma heap_ok_filter: "heap_ok h \<Longrightarrow> heap_ok (h\<lparr>live := filter P (live h)\<rparr>)"
  unfolding heap_ok_def by (auto simp: distinct_map_filter)

subsection \<open>The contract of an allocator\<close>

text \<open>
  An allocator works on a state with an invariant and a set of used addresses: it keeps the
  invariant, never gives used addresses back, and what it returns was not used before.
\<close>

fun alloc_seq :: "('s \<Rightarrow> u64 \<Rightarrow> u64 \<times> 's) \<Rightarrow> 's \<Rightarrow> u64 list \<Rightarrow> (u64 \<times> u64) list \<times> 's" where
  "alloc_seq alloc s [] = ([], s)"
| "alloc_seq alloc s (n # ns) =
     (let (a, s1) = alloc s n; (rs, s2) = alloc_seq alloc s1 ns in ((a, n) # rs, s2))"

definition apart :: "u64 \<times> u64 \<Rightarrow> u64 \<times> u64 \<Rightarrow> bool" where
  "apart x y \<longleftrightarrow> fst x = 0 \<or> fst y = 0 \<or> span (fst x) (snd x) \<inter> span (fst y) (snd y) = {}"

locale region_alloc =
  fixes alloc :: "'s \<Rightarrow> u64 \<Rightarrow> u64 \<times> 's"
    and inv :: "'s \<Rightarrow> bool"
    and used :: "'s \<Rightarrow> nat set"
  assumes alloc_inv: "inv s \<Longrightarrow> alloc s n = (a, s') \<Longrightarrow> inv s'"
    and alloc_mono: "inv s \<Longrightarrow> alloc s n = (a, s') \<Longrightarrow> used s \<subseteq> used s'"
    and alloc_fresh: "inv s \<Longrightarrow> alloc s n = (a, s') \<Longrightarrow> a \<noteq> 0 \<Longrightarrow>
      span a n \<inter> used s = {} \<and> span a n \<subseteq> used s'"
begin

lemma seq_inv: "inv s \<Longrightarrow> alloc_seq alloc s ns = (rs, s') \<Longrightarrow> inv s' \<and> used s \<subseteq> used s'"
proof (induction ns arbitrary: s rs)
  case (Cons n ns)
  obtain a s1 rs1 where e: "alloc s n = (a, s1)" "alloc_seq alloc s1 ns = (rs1, s')"
    using Cons.prems(2) by (auto split: prod.splits)
  have "inv s1" "used s \<subseteq> used s1" using e Cons.prems(1) alloc_inv alloc_mono by blast+
  with Cons.IH [OF _ e(2)] show ?case by blast
qed simp

lemma seq_fresh:
  "inv s \<Longrightarrow> alloc_seq alloc s ns = (rs, s') \<Longrightarrow> (a, n) \<in> set rs \<Longrightarrow> a \<noteq> 0 \<Longrightarrow> span a n \<inter> used s = {}"
proof (induction ns arbitrary: s rs)
  case (Cons k ns)
  obtain b s1 rs1 where e: "alloc s k = (b, s1)" "alloc_seq alloc s1 ns = (rs1, s')" "rs = (b, k) # rs1"
    using Cons.prems(2) by (auto split: prod.splits)
  have "inv s1" "used s \<subseteq> used s1" using e Cons.prems(1) alloc_inv alloc_mono by blast+
  then show ?case using Cons.IH [OF _ e(2)] e Cons.prems alloc_fresh by fastforce
qed simp

lemma seq_apart: "inv s \<Longrightarrow> alloc_seq alloc s ns = (rs, s') \<Longrightarrow> sorted_wrt apart rs"
proof (induction ns arbitrary: s rs)
  case (Cons n ns)
  obtain a s1 rs1 where e: "alloc s n = (a, s1)" "alloc_seq alloc s1 ns = (rs1, s')" "rs = (a, n) # rs1"
    using Cons.prems(2) by (auto split: prod.splits)
  have i: "inv s1" using e Cons.prems(1) alloc_inv by blast
  have "apart (a, n) (b, k)" if "(b, k) \<in> set rs1" for b k
    using seq_fresh [OF i e(2) that] alloc_fresh [OF Cons.prems(1) e(1)] by (auto simp: apart_def)
  then show ?case using Cons.IH [OF i e(2)] e(3) by auto
qed simp

end

text \<open>The three allocation functions of the pool keep it.\<close>

type_synonym pool_state = "calloc_fn \<times> sysheap \<times> ngx_pool"

definition pool_op :: "(calloc_fn \<Rightarrow> sysheap \<Rightarrow> ngx_pool \<Rightarrow> u64 \<Rightarrow> u64 \<times> sysheap \<times> ngx_pool) \<Rightarrow>
    pool_state \<Rightarrow> u64 \<Rightarrow> u64 \<times> pool_state" where
  "pool_op g s n = (let (f, h, p) = s; (a, h', p') = g f h p n in (a, f, h', p'))"

definition pool_inv :: "pool_state \<Rightarrow> bool" where
  "pool_inv s = (case s of (f, h, p) \<Rightarrow> calloc_ok f \<and> heap_ok h \<and> pool_ok (live h) p)"

definition pool_area :: "pool_state \<Rightarrow> nat set" where
  "pool_area s = (case s of (f, h, p) \<Rightarrow> pool_used (live h) p)"

lemma pool_op_alloc:
  assumes g: "\<And>f h p n a h' p'. \<lbrakk>calloc_ok f; heap_ok h; pool_ok (live h) p; g f h p n = (a, h', p')\<rbrakk>
    \<Longrightarrow> alloc_post h p n a h' p'"
  shows "region_alloc (pool_op g) pool_inv pool_area"
proof
  fix s n a s'
  assume i: "pool_inv s" and op: "pool_op g s n = (a, s')"
  obtain f h p where s: "s = (f, h, p)" by (cases s)
  obtain h' p' where r: "g f h p n = (a, h', p')" "s' = (f, h', p')"
    using op by (auto simp: pool_op_def s split: prod.splits)
  have f: "calloc_ok f" using i by (simp add: pool_inv_def s)
  have "alloc_post h p n a h' p'" using g [OF _ _ _ r(1)] i by (simp add: pool_inv_def s)
  then show "pool_inv s'" "pool_area s \<subseteq> pool_area s'"
    "a \<noteq> 0 \<Longrightarrow> span a n \<inter> pool_area s = {} \<and> span a n \<subseteq> pool_area s'"
    using f by (auto simp: pool_inv_def pool_area_def s r(2) alloc_post_def)
qed

interpretation palloc_alloc: region_alloc "pool_op ngx_palloc" pool_inv pool_area
  by (rule pool_op_alloc) (use alloc_post_palloc in blast)

interpretation pnalloc_alloc: region_alloc "pool_op ngx_pnalloc" pool_inv pool_area
  by (rule pool_op_alloc) (use alloc_post_pnalloc in blast)

interpretation pcalloc_alloc: region_alloc "pool_op ngx_pcalloc" pool_inv pool_area
  by (rule pool_op_alloc) (use alloc_post_pcalloc in blast)

subsection \<open>A system allocator and an empty heap, for concrete runs\<close>

definition heap_top :: "(u64 \<times> u64) list \<Rightarrow> int" where
  "heap_top L = foldr (\<lambda>e t. max t (uint (fst e) + uint (snd e))) L 4096"

definition bump_calloc :: calloc_fn where
  "bump_calloc c L n =
     (let a = (heap_top L div 16 + 1) * 16 in if a + uint n < 2 ^ 64 then of_int a else 0)"

definition empty_heap :: sysheap where
  "empty_heap = \<lparr>live = [], calls = 0, hmem = (\<lambda>x. 0xAA), bad_free = False\<rparr>"

lemma heap_top_ge: "e \<in> set L \<Longrightarrow> uint (fst e) + uint (snd e) \<le> heap_top L"
  by (induction L) (auto simp: heap_top_def)

lemma heap_top_pos: "4096 \<le> heap_top L"
  by (induction L) (auto simp: heap_top_def)

lemma bump_calloc_ok: "calloc_ok bump_calloc"
  unfolding calloc_ok_def
proof (intro allI impI)
  fix c L n
  let ?a = "(heap_top L div 16 + 1) * 16"
  assume nz: "bump_calloc c L n \<noteq> 0"
  then have lt: "?a + uint n < 2 ^ 64" and a: "bump_calloc c L n = of_int ?a"
    by (auto simp: bump_calloc_def Let_def split: if_splits)
  have top: "heap_top L < ?a" by simp
  have "?a < 2 ^ 64" using lt uint_ge_0 [of n] by linarith
  then have ui: "uint (bump_calloc c L n) = ?a"
    unfolding a using top heap_top_pos [of L] by (intro uint_of_int_u64) linarith+
  then have ua: "int (unat (bump_calloc c L n)) = ?a" by simp
  have end_le: "unat (fst e) + unat (snd e) < unat (bump_calloc c L n)" if "e \<in> set L" for e
  proof -
    have "int (unat (fst e) + unat (snd e)) < int (unat (bump_calloc c L n))"
      unfolding ua using heap_top_ge [OF that] top by (simp del: div_mult_self1)
    then show ?thesis by (simp only: of_nat_less_iff)
  qed
  have "bump_calloc c L n \<notin> fst ` set L" using end_le by fastforce
  moreover have "\<forall>e\<in>set L. span (bump_calloc c L n) n \<inter> span (fst e) (snd e) = {}"
    using end_le unfolding span_def by fastforce
  moreover have "int (unat (bump_calloc c L n) + unat n) < int (2 ^ 64)"
    unfolding of_nat_add ua using lt by simp
  then have "unat (bump_calloc c L n) + unat n < 2 ^ 64" by (simp only: of_nat_less_iff)
  moreover have "int 8 dvd int (unat (bump_calloc c L n))" unfolding ua by simp
  then have "8 dvd unat (bump_calloc c L n)" unfolding int_dvd_int_iff .
  ultimately show "bump_calloc c L n \<notin> fst ` set L \<and> 8 dvd unat (bump_calloc c L n) \<and>
     unat (bump_calloc c L n) + unat n < 2 ^ 64 \<and>
     (\<forall>e\<in>set L. span (bump_calloc c L n) n \<inter> span (fst e) (snd e) = {})" by blast
qed

lemma empty_heap_ok: "heap_ok empty_heap"
  by (simp add: heap_ok_def empty_heap_def)

subsection \<open>The life of a pool\<close>

lemma create_post:
  assumes f: "calloc_ok f" and h: "heap_ok h" and n: "64 \<le> unat n" "8 dvd unat n"
    and r: "ngx_create_pool f h n = (Some p, h')"
  shows "heap_ok h'" "pool_ok (live h') p" "pool_psize p = n" "set (live h) \<subseteq> set (live h')"
    "p_max p = (if n - sizeof_pool < NGX_MAX_ALLOC_FROM_POOL then n - sizeof_pool else NGX_MAX_ALLOC_FROM_POOL)"
    "pool_bases p \<noteq> []" "pool_larges p = []" "p_cleanup p = []"
    "hd (pool_bases p) \<notin> fst ` set (live h)" "live h' = (hd (pool_bases p), n) # live h"
proof -
  obtain m h1 where c: "sys_calloc f h n = (m, h1)" by force
  note ca = sys_calloc_ok [OF f h c]
  let ?max = "if n - sizeof_pool < NGX_MAX_ALLOC_FROM_POOL then n - sizeof_pool else NGX_MAX_ALLOC_FROM_POOL"
  have m: "m \<noteq> 0" and h': "h' = h1" and p: "p = \<lparr>p_chain = [\<lparr>d_base = m, d_last = m + sizeof_pool,
      d_end = m + n, d_failed = 0\<rparr>], p_max = ?max, p_current = 0, p_large = [], p_cleanup = []\<rparr>"
    using r c by (auto simp: ngx_create_pool_def Let_def split: if_splits)
  have mn: "unat m + unat n < 2 ^ 64" "8 dvd unat m" using ca(6,7) m by auto
  have last: "unat (m + sizeof_pool) = unat m + 64"
    using mn n by (simp add: sizeof_pool_def unat_add_u64)
  have le: "sizeof_pool \<le> n" using n by (simp add: sizeof_pool_def word_le_nat_alt)
  have "unat ?max \<le> unat (n - sizeof_pool)" by (auto simp: word_less_nat_alt not_less)
  also have "\<dots> = unat n - 64" using le by (simp add: unat_sub_u64 sizeof_pool_def)
  finally have mx: "unat ?max + 64 \<le> unat n" using n by linarith
  show "heap_ok h'" "set (live h) \<subseteq> set (live h')" using ca h' by auto
  show ps: "pool_psize p = n" by (simp add: pool_psize_def p)
  show lv: "live h' = (hd (pool_bases p), n) # live h" using ca(4) m by (simp add: h' p pool_bases_def)
  show "hd (pool_bases p) \<notin> fst ` set (live h)" using ca(5) m by (simp add: p pool_bases_def)
  show "p_max p = ?max" "pool_bases p \<noteq> []" "pool_larges p = []" "p_cleanup p = []"
    by (simp_all add: p pool_bases_def pool_larges_def)
  show "pool_ok (live h') p"
    using mn n last mx unfolding pool_ok_def ps
    by (simp add: lv pool_bases_def pool_larges_def p block_ok_def del: if_split)
qed

text \<open>A pool of 256 bytes and the state after a large and a small allocation.\<close>

definition pool256 :: "ngx_pool \<times> sysheap" where
  "pool256 = (case ngx_create_pool bump_calloc empty_heap 256 of (Some p, h) \<Rightarrow> (p, h))"

definition pool256_used :: "ngx_pool \<times> sysheap" where
  "pool256_used =
     (let (p, h) = pool256;
          (a, h1, p1) = ngx_palloc bump_calloc h p 300;
          (b, h2, p2) = ngx_palloc bump_calloc h1 p1 20
      in (p2, h2))"

lemma pool256_create: "ngx_create_pool bump_calloc empty_heap 256 = (Some (fst pool256), snd pool256)"
  unfolding pool256_def
  by (simp add: ngx_create_pool_def sys_calloc_def Let_def bump_calloc_def empty_heap_def heap_top_def)

lemma pool256_ok: "heap_ok (snd pool256)" "pool_ok (live (snd pool256)) (fst pool256)"
  using create_post [OF bump_calloc_ok empty_heap_ok _ _ pool256_create] by simp_all

lemma pool256_used_ok: "heap_ok (snd pool256_used)" "pool_ok (live (snd pool256_used)) (fst pool256_used)"
proof -
  obtain a h1 p1 where 1: "ngx_palloc bump_calloc (snd pool256) (fst pool256) 300 = (a, h1, p1)"
    by (metis prod_cases3)
  obtain b h2 p2 where 2: "ngx_palloc bump_calloc h1 p1 20 = (b, h2, p2)" by (metis prod_cases3)
  have u: "pool256_used = (p2, h2)" using 1 2 by (simp add: pool256_used_def split_beta)
  have "heap_ok h1" "pool_ok (live h1) p1"
    using alloc_post_palloc [OF bump_calloc_ok pool256_ok 1] by (auto simp: alloc_post_def)
  then show "heap_ok (snd pool256_used)" "pool_ok (live (snd pool256_used)) (fst pool256_used)"
    using alloc_post_palloc [OF bump_calloc_ok _ _ 2] by (auto simp: u alloc_post_def)
qed

subsection \<open>Properties\<close>

text \<open>
  C6: \<open>ngx_palloc\<close> gives memory that is 8-byte aligned, lies inside what the system has given
  out and overlaps nothing the pool had handed out before; the heap and the pool stay well
  formed.\<close>

theorem ngx_palloc_safe:
  assumes "calloc_ok f" "heap_ok h" "pool_ok (live h) p"
    and "ngx_palloc f h p n = (a, h', p')" "a \<noteq> 0"
  shows "8 dvd unat a \<and> span a n \<subseteq> live_mem (live h') \<and>
    span a n \<inter> pool_used (live h) p = {} \<and> span a n \<union> pool_used (live h) p \<subseteq> pool_used (live h') p' \<and>
    heap_ok h' \<and> pool_ok (live h') p'"
  using alloc_post_palloc [OF assms(1-4)] assms(5) pool_used_live [of "live h'" p']
  by (auto simp: alloc_post_def)

lemma ngx_palloc_safe_witness:
  "span 0x1050 20 \<inter> pool_used (live (snd pool256)) (fst pool256) = {}"
proof -
  have "fst (ngx_palloc bump_calloc (snd pool256) (fst pool256) 20) = 0x1050" by code_simp
  then obtain h p where "ngx_palloc bump_calloc (snd pool256) (fst pool256) 20 = (0x1050, h, p)"
    by (metis eq_fst_iff)
  from ngx_palloc_safe [OF bump_calloc_ok pool256_ok this] show ?thesis by simp
qed

text \<open>
  C7: the regions that a run of \<open>ngx_palloc\<close> requests returns are pairwise disjoint and disjoint
  from everything handed out before.\<close>

theorem ngx_palloc_seq_disjoint:
  assumes "calloc_ok f" "heap_ok h" "pool_ok (live h) p"
    and "alloc_seq (pool_op ngx_palloc) (f, h, p) ns = (rs, f', h', p')"
  shows "sorted_wrt apart rs \<and> pool_ok (live h') p' \<and>
    (\<forall>r\<in>set rs. fst r = 0 \<or> span (fst r) (snd r) \<inter> pool_used (live h) p = {})"
proof -
  have i: "pool_inv (f, h, p)" using assms by (simp add: pool_inv_def)
  have "span (fst r) (snd r) \<inter> pool_used (live h) p = {}" if "r \<in> set rs" "fst r \<noteq> 0" for r
    using palloc_alloc.seq_fresh [OF i assms(4), of "fst r" "snd r"] that by (simp add: pool_area_def)
  then show ?thesis
    using palloc_alloc.seq_inv [OF i assms(4)] palloc_alloc.seq_apart [OF i assms(4)]
    by (auto simp: pool_inv_def)
qed

lemma ngx_palloc_seq_disjoint_witness:
  "sorted_wrt apart (fst (alloc_seq (pool_op ngx_palloc) (bump_calloc, snd pool256, fst pool256)
     [20, 100, 300, 150, 7]))"
proof -
  obtain rs f h p where r: "alloc_seq (pool_op ngx_palloc) (bump_calloc, snd pool256, fst pool256)
     [20, 100, 300, 150, 7] = (rs, f, h, p)" by (metis prod_cases4)
  from ngx_palloc_seq_disjoint [OF bump_calloc_ok pool256_ok r] show ?thesis unfolding r by simp
qed

text \<open>
  every byte of the memory \<open>ngx_pcalloc\<close> returns is zero, and no byte the pool had handed out
  before is changed.\<close>

theorem ngx_pcalloc_zeroes:
  assumes "calloc_ok f" "heap_ok h" "pool_ok (live h) p"
    and "ngx_pcalloc f h p n = (a, h', p')" "a \<noteq> 0"
  shows "(unat x \<notin> span a n \<or> hmem h' x = 0) \<and>
    (unat x \<notin> pool_used (live h) p \<or> hmem h' x = hmem h x) \<and>
    span a n \<inter> pool_used (live h) p = {} \<and> heap_ok h' \<and> pool_ok (live h') p'"
proof -
  obtain h1 where p1: "ngx_palloc f h p n = (a, h1, p')"
    and h': "h' = h1\<lparr>hmem := mem_zero (hmem h1) a n\<rparr>"
    using assms(4,5) by (auto simp: ngx_pcalloc_def split: prod.splits if_splits)
  have post: "alloc_post h p n a h' p'" using alloc_post_pcalloc [OF assms(1-4)] by simp
  then have ok: "heap_ok h'" "pool_ok (live h') p'" and dj: "span a n \<inter> pool_used (live h) p = {}"
    and "span a n \<subseteq> pool_used (live h') p'" using assms(5) by (auto simp: alloc_post_def)
  then have b: "unat a + unat n \<le> 2 ^ 64"
    using span_bound [OF ok(1)] pool_used_live [OF ok(2)] by (meson less_imp_le order_trans)
  have "hmem h' x = 0" if "unat x \<in> span a n"
    using span_offset [OF that] by (simp add: h' mem_zero_def)
  moreover have "hmem h' x = hmem h x" if u: "unat x \<in> pool_used (live h) p"
  proof -
    have "\<not> x - a < n" using offset_span [OF _ b] dj u by blast
    then have "hmem h' x = hmem h1 x" by (simp add: h' mem_zero_def)
    then show ?thesis using palloc_mem [OF assms(1,2) p1] pool_used_live [OF assms(3)] u by auto
  qed
  ultimately show ?thesis using ok dj by blast
qed

lemma ngx_pcalloc_zeroes_witness:
  "hmem (fst (snd (ngx_pcalloc bump_calloc (snd pool256) (fst pool256) 20))) 0x1055 = 0"
proof -
  have "fst (ngx_pcalloc bump_calloc (snd pool256) (fst pool256) 20) = 0x1050" by code_simp
  then obtain h p where r: "ngx_pcalloc bump_calloc (snd pool256) (fst pool256) 20 = (0x1050, h, p)"
    by (metis eq_fst_iff)
  from ngx_pcalloc_zeroes [OF bump_calloc_ok pool256_ok r, of "0x1055"]
  show ?thesis by (simp add: r span_def)
qed

lemma small_null:
  assumes "calloc_ok f" "heap_ok h" "pool_ok (live h) p" "unat n + 32 \<le> unat (pool_psize p)"
    and r: "ngx_palloc_small f h p n al = (0, h', p')"
  shows "f (calls h) (live h) (pool_psize p) = 0"
proof -
  obtain m h1 where c: "sys_calloc f h (pool_psize p) = (m, h1)" by force
  have "m = 0"
  proof (rule ccontr)
    assume m: "m \<noteq> 0"
    note ca = sys_calloc_ok [OF assms(1,2) c]
    have "palloc_scan al n (drop (p_current p) (p_chain p)) (p_current p) = None"
    proof (rule ccontr)
      assume "palloc_scan al n (drop (p_current p) (p_chain p)) (p_current p) \<noteq> None"
      then obtain i b where s: "palloc_scan al n (drop (p_current p) (p_chain p)) (p_current p) = Some (i, b)"
        by auto
      obtain k where k: "k < length (drop (p_current p) (p_chain p))" "i = p_current p + k"
        "b = (if al then ngx_align_ptr (d_last (drop (p_current p) (p_chain p) ! k)) NGX_ALIGNMENT
              else d_last (drop (p_current p) (p_chain p) ! k))"
        "n \<le> d_end (drop (p_current p) (p_chain p) ! k) - b" using palloc_scan_Some [OF s] by blast
      then have "i < length (p_chain p)" "drop (p_current p) (p_chain p) ! k = p_chain p ! i" by auto
      from cut_post(3) [OF assms(2,3) this(1) k(3,4) [unfolded this(2)] refl]
      show False using r s by (simp add: ngx_palloc_small_def)
    qed
    then have z: "ngx_align_ptr (m + sizeof_pool_data) NGX_ALIGNMENT = 0"
      using r c m by (simp add: ngx_palloc_small_def ngx_palloc_block_def pool_psize_def Let_def split: prod.splits)
    have "8 dvd unat (pool_psize p)" using assms(3) by (simp add: pool_ok_def)
    from new_block_arith(1) [OF ca(6) [OF m] ca(7) [OF m] assms(4) refl this refl]
    show False by (simp add: z)
  qed
  then show ?thesis using c by (simp add: sys_calloc_def Let_def)
qed

text \<open>
  C23: \<open>ngx_palloc\<close> returns NULL only when \<open>calloc\<close> has failed (for a new block, for the large
  region or for the block its list node needs), and then the pool and the live allocations are
  what they were.\<close>

theorem ngx_palloc_null:
  assumes "calloc_ok f" "heap_ok h" "pool_ok (live h) p" and r: "ngx_palloc f h p n = (0, h', p')"
  shows "p' = p \<and> live h' = live h \<and>
    (f (calls h) (live h) (if n \<le> p_max p then pool_psize p else n) = 0 \<or>
     p_max p < n \<and> f (Suc (calls h)) ((f (calls h) (live h) n, n) # live h) (pool_psize p) = 0)"
proof (cases "n \<le> p_max p")
  case True
  have le: "unat n + 32 \<le> unat (pool_psize p)" 
    using assms(3) True by (simp add: pool_ok_def word_le_nat_alt)
  have s: "ngx_palloc_small f h p n True = (0, h', p')" using r True by (simp add: ngx_palloc_def)
  show ?thesis using small_post [OF assms(1-3) le s] small_null [OF assms(1-3) le s] True by simp
next
  case False
  then have r': "ngx_palloc_large f h p n = (0, h', p')" using r by (simp add: ngx_palloc_def)
  obtain b h1 where c: "sys_calloc f h n = (b, h1)" by force
  have b: "b = f (calls h) (live h) n" using c by (simp add: sys_calloc_def Let_def)
  show ?thesis
  proof (cases "b = 0")
    case True
    then show ?thesis using False r' c b by (auto simp: ngx_palloc_large_def sys_calloc_def Let_def)
  next
    case bnz: False
    then have pl: "push_large f h1 p b = (0, h', p')"
      using r' c by (auto simp: ngx_palloc_large_def split: option.splits)
    obtain nd h2 p2 where s: "ngx_palloc_small f h1 p sizeof_pool_large True = (nd, h2, p2)"
      by (metis prod_cases3)
    have nd: "nd = 0" using pl s bnz by (auto simp: push_large_def split: if_splits)
    note ca = sys_calloc_ok [OF assms(1,2) c]
    have le: "unat sizeof_pool_large + 32 \<le> unat (pool_psize p)"
      using assms(3) by (simp add: pool_ok_def sizeof_pool_large_def)
    have "f (calls h1) (live h1) (pool_psize p) = 0"
      using small_null [OF assms(1) ca(1) pool_ok_mono [OF assms(3) ca(2)] le] s nd by blast
    moreover have "calls h1 = Suc (calls h)" using c by (auto simp: sys_calloc_def Let_def)
    moreover have "p' = p \<and> live h' = live h" using push_large_post [OF assms(1-3) c bnz pl] by simp
    ultimately show ?thesis using False bnz ca(4) b by simp
  qed
qed

lemma ngx_palloc_null_witness:
  "snd (snd (ngx_palloc (\<lambda>_ _ _. 0) (snd pool256) (fst pool256) 300)) = fst pool256"
proof -
  have ok: "calloc_ok (\<lambda>_ _ _. 0)" by (simp add: calloc_ok_def)
  have "fst (ngx_palloc (\<lambda>_ _ _. 0) (snd pool256) (fst pool256) 300) = 0" by code_simp
  then obtain h p where r: "ngx_palloc (\<lambda>_ _ _. 0) (snd pool256) (fst pool256) 300 = (0, h, p)"
    by (metis eq_fst_iff)
  from ngx_palloc_null [OF ok pool256_ok r] show ?thesis by (simp add: r)
qed

lemma pfree_large_Some:
  "pfree_large ls q = Some (a, ls') \<Longrightarrow> \<exists>us l vs. ls = us @ l # vs \<and> l_alloc l = q \<and> a = q \<and>
     q \<notin> l_alloc ` set us \<and> ls' = us @ l\<lparr>l_alloc := 0\<rparr> # vs"
proof (induction ls q arbitrary: ls' rule: pfree_large.induct)
  case (2 l ls q)
  show ?case
  proof (cases "q = l_alloc l")
    case True
    then show ?thesis using 2 by (intro exI [of _ "[]"]) auto
  next
    case False
    then obtain ls2 where r: "pfree_large ls q = Some (a, ls2)" "ls' = l # ls2" using 2 by auto
    with 2(1) [OF False] obtain us k vs where "ls = us @ k # vs" "l_alloc k = q" "a = q"
      "q \<notin> l_alloc ` set us" "ls2 = us @ k\<lparr>l_alloc := 0\<rparr> # vs" by blast
    then show ?thesis using False r by (intro exI [of _ "l # us"]) auto
  qed
qed simp

lemma pfree_large_None: "pfree_large ls q = None \<longleftrightarrow> q \<notin> l_alloc ` set ls"
  by (induction ls q rule: pfree_large.induct) (auto split: prod.splits)

text \<open>
  \<open>ngx_pfree\<close> of a large allocation returns NGX_OK, gives exactly that allocation back to the
  system and keeps the pool well formed; of an address that is no large allocation (small blocks
  included) it returns NGX_DECLINED and changes nothing.\<close>

theorem ngx_pfree_correct:
  assumes h: "heap_ok h" and p: "pool_ok (live h) p" and q: "q \<noteq> 0"
    and r: "ngx_pfree h p q = (rc, h', p')"
  shows "if q \<in> set (pool_larges p)
    then rc = NGX_OK \<and> live h' = filter (\<lambda>e. fst e \<noteq> q) (live h) \<and> heap_ok h' \<and>
      pool_ok (live h') p' \<and> set (pool_larges p') = set (pool_larges p) - {q}
    else rc = NGX_DECLINED \<and> h' = h \<and> p' = p"
proof (cases "q \<in> set (pool_larges p)")
  case False
  then have "pfree_large (p_large p) q = None"
    using q by (auto simp: pfree_large_None pool_larges_def)
  then show ?thesis using False r by (simp add: ngx_pfree_def)
next
  case True
  then have "pfree_large (p_large p) q \<noteq> None" by (auto simp: pfree_large_None pool_larges_def)
  then obtain a ls' where pf: "pfree_large (p_large p) q = Some (a, ls')" by auto
  from pfree_large_Some [OF pf] obtain us l vs where ls: "p_large p = us @ l # vs" "l_alloc l = q"
    "a = q" "ls' = us @ l\<lparr>l_alloc := 0\<rparr> # vs" by blast
  let ?p1 = "p\<lparr>p_large := us @ l\<lparr>l_alloc := 0\<rparr> # vs\<rparr>"
  have res: "rc = NGX_OK" "h' = sys_free h q" "p' = ?p1"
    using r pf ls by (auto simp: ngx_pfree_def)
  have d: "distinct (pool_bases p @ pool_larges p)" and sub: "set (pool_larges p) \<subseteq> fst ` set (live h)"
    using p by (auto simp: pool_ok_def)
  have split: "pool_larges p = filter (\<lambda>a. a \<noteq> 0) (map l_alloc us) @ q # filter (\<lambda>a. a \<noteq> 0) (map l_alloc vs)"
    "pool_larges ?p1 = filter (\<lambda>a. a \<noteq> 0) (map l_alloc us) @ filter (\<lambda>a. a \<noteq> 0) (map l_alloc vs)"
    using ls q by (simp_all add: pool_larges_def)
  have bs: "pool_bases ?p1 = pool_bases p" "pool_psize ?p1 = pool_psize p"
    by (simp_all add: pool_bases_def pool_psize_def)
  have lset: "set (pool_larges ?p1) = set (pool_larges p) - {q}" "distinct (pool_larges ?p1)"
    using d split by auto
  then have p1: "pool_ok (live h) ?p1"
    using p unfolding pool_ok_def bs by auto
  have "q \<in> fst ` set (live h)" "q \<notin> set (pool_bases ?p1)" "q \<notin> set (pool_larges ?p1)"
    using True sub d lset unfolding bs by auto
  from sys_free_other [OF h p1 this] show ?thesis using True res lset by simp
qed

lemma ngx_pfree_correct_witness:
  "live (fst (snd (ngx_pfree (snd pool256_used) (fst pool256_used) 0x1120))) = [(0x1010, 256)]"
proof -
  obtain rc h p where r: "ngx_pfree (snd pool256_used) (fst pool256_used) 0x1120 = (rc, h, p)"
    by (metis prod_cases3)
  have "0x1120 \<in> set (pool_larges (fst pool256_used))" by code_simp
  then have "live h = filter (\<lambda>e. fst e \<noteq> 0x1120) (live (snd pool256_used))"
    using ngx_pfree_correct [OF pool256_used_ok _ r] by simp
  moreover have "filter (\<lambda>e. fst e \<noteq> 0x1120) (live (snd pool256_used)) = [(0x1010, 256)]" by code_simp
  ultimately show ?thesis by (simp add: r)
qed

text \<open>
  C22: \<open>ngx_destroy_pool\<close> runs every installed cleanup handler once, the latest first, and gives
  back to the system exactly what the pool owns, each block and each large allocation once:
  nothing else is freed and nothing is freed twice.\<close>

theorem ngx_destroy_pool_frees:
  assumes h: "heap_ok h" and p: "pool_ok (live h) p"
  shows "ngx_destroy_pool h p =
    (concat (map (\<lambda>c. case c_handler c of None \<Rightarrow> [] | Some k \<Rightarrow> run_handler k c) (p_cleanup p)),
     h\<lparr>live := filter (\<lambda>e. fst e \<notin> set (pool_larges p) \<union> set (pool_bases p)) (live h)\<rparr>)"
proof -
  have evs: "run_cleanups cs =
      concat (map (\<lambda>c. case c_handler c of None \<Rightarrow> [] | Some k \<Rightarrow> run_handler k c) cs)" for cs
    by (induction cs) auto
  have "free_chain (free_large h (p_large p)) (p_chain p) = free_all h (pool_larges p @ pool_bases p)"
    by (simp add: free_large_eq free_chain_eq free_all_append pool_larges_def pool_bases_def)
  also have "\<dots> = h\<lparr>live := filter (\<lambda>e. fst e \<notin> set (pool_larges p @ pool_bases p)) (live h)\<rparr>"
    using pool_free_cond [OF h p] by (intro free_all_eq) auto
  finally show ?thesis by (simp add: ngx_destroy_pool_def evs)
qed

lemma ngx_destroy_pool_frees_witness:
  "live (snd (ngx_destroy_pool (snd pool256_used) (fst pool256_used))) = [] \<and>
   \<not> bad_free (snd (ngx_destroy_pool (snd pool256_used) (fst pool256_used)))"
proof -
  have "filter (\<lambda>e. fst e \<notin> set (pool_larges (fst pool256_used)) \<union> set (pool_bases (fst pool256_used)))
     (live (snd pool256_used)) = []" by code_simp
  then show ?thesis
    using ngx_destroy_pool_frees [OF pool256_used_ok] pool256_used_ok(1) by (simp add: heap_ok_def)
qed

text \<open>
  C24: \<open>ngx_reset_pool\<close> gives every large allocation back and leaves a well-formed pool in which only
  the block headers are used; the list of cleanup handlers, whose nodes lie in the memory made
  available again, stays installed.\<close>

theorem ngx_reset_pool_correct:
  assumes h: "heap_ok h" and p: "pool_ok (live h) p" and r: "ngx_reset_pool h p = (h', p')"
  shows "live h' = filter (\<lambda>e. fst e \<notin> set (pool_larges p)) (live h) \<and> heap_ok h' \<and>
    pool_ok (live h') p' \<and> pool_bases p' = pool_bases p \<and> p_current p' = 0 \<and>
    pool_used (live h') p' = (\<Union>a\<in>set (pool_bases p). {unat a ..< unat a + 64}) \<and>
    p_cleanup p' = p_cleanup p"
proof -
  let ?f = "\<lambda>b. b\<lparr>d_last := d_base b + sizeof_pool, d_failed := 0\<rparr>"
  note fc = pool_free_cond [OF h p]
  have h': "h' = h\<lparr>live := filter (\<lambda>e. fst e \<notin> set (pool_larges p)) (live h)\<rparr>"
    using r fc free_all_eq [of "pool_larges p" h]
    by (auto simp: ngx_reset_pool_def free_large_eq pool_larges_def [symmetric])
  have p': "p_chain p' = map ?f (p_chain p)" "p_current p' = 0" "p_max p' = p_max p"
    "p_large p' = []" "p_cleanup p' = p_cleanup p" using r by (auto simp: ngx_reset_pool_def)
  have ne: "p_chain p \<noteq> []" using p by (simp add: pool_ok_def)
  have bs: "pool_bases p' = pool_bases p" by (simp add: pool_bases_def p' comp_def)
  have ps: "pool_psize p' = pool_psize p" using ne by (simp add: pool_psize_def p' hd_map)
  have lg: "pool_larges p' = []" by (simp add: pool_larges_def p')
  have blk: "block_ok (live h') (pool_psize p) (?f b) \<and>
      unat (d_last (?f b)) = unat (d_base b) + 64" if b: "b \<in> set (p_chain p)" for b
  proof -
    have ok: "block_ok (live h) (pool_psize p) b" and z: "64 \<le> unat (pool_psize p)"
      using p b by (auto simp: pool_ok_def)
    have "d_base b \<notin> set (pool_larges p)" using b fc(3) by (auto simp: pool_bases_def)
    moreover have "unat (d_base b + sizeof_pool) = unat (d_base b) + 64"
      using ok z by (simp add: block_ok_def sizeof_pool_def unat_add_u64)
    ultimately show ?thesis using ok z by (simp add: block_ok_def h')
  qed
  have "pool_ok (live h') p'"
    using p blk unfolding pool_ok_def ps bs lg by (auto simp: p' ne)
  moreover have "pool_used (live h') p' = (\<Union>a\<in>set (pool_bases p). {unat a ..< unat a + 64})"
    using blk unfolding pool_used_def lg p' by (auto simp: pool_bases_def)
  ultimately show ?thesis using h' bs p' heap_ok_filter [OF h] by simp
qed

lemma ngx_reset_pool_correct_witness:
  "pool_ok [(0x1010, 256)] (snd (ngx_reset_pool (snd pool256_used) (fst pool256_used)))"
proof -
  obtain h p where r: "ngx_reset_pool (snd pool256_used) (fst pool256_used) = (h, p)" by force
  have "filter (\<lambda>e. fst e \<notin> set (pool_larges (fst pool256_used))) (live (snd pool256_used)) =
      [(0x1010, 256)]" by code_simp
  then show ?thesis using ngx_reset_pool_correct [OF pool256_used_ok r] by (auto simp: r)
qed

text \<open>
  a pool whose size is not a multiple of 8 hands out memory past its end: once its
  first block is full, the aligned pointer lies beyond \<open>d.end\<close>, the unsigned difference wraps and
  any small request is granted there, without a new block.\<close>

theorem ngx_palloc_unaligned_pool:
  assumes n: "64 < unat n" "unat n \<le> 4095 + 64" "\<not> 8 dvd unat n"
    and a0: "8 dvd unat a0" "a0 \<noteq> 0" "unat a0 + unat n + 7 < 2 ^ 64"
    and c: "f (calls h) (live h) n = a0"
    and create: "ngx_create_pool f h n = (Some p, h1)"
    and first: "ngx_palloc f h1 p (n - sizeof_pool) = (a, h2, p2)"
    and second: "k \<le> p_max p" "ngx_palloc f h2 p2 k = (b, h3, p3)"
  shows "a = a0 + sizeof_pool \<and> unat a0 + unat n < unat b \<and> h3 = h1"
proof -
  have p: "p = \<lparr>p_chain = [\<lparr>d_base = a0, d_last = a0 + sizeof_pool, d_end = a0 + n, d_failed = 0\<rparr>],
      p_max = (if n - sizeof_pool < NGX_MAX_ALLOC_FROM_POOL then n - sizeof_pool else NGX_MAX_ALLOC_FROM_POOL),
      p_current = 0, p_large = [], p_cleanup = []\<rparr>"
    using create c a0 by (simp add: ngx_create_pool_def sys_calloc_def Let_def)
  have le: "sizeof_pool \<le> n" using n by (simp add: sizeof_pool_def word_le_nat_alt)
  have un: "unat (n - sizeof_pool) = unat n - 64" using le by (simp add: unat_sub_u64 sizeof_pool_def)
  then have "n - sizeof_pool \<le> NGX_MAX_ALLOC_FROM_POOL"
    using n by (simp add: word_le_nat_alt NGX_MAX_ALLOC_FROM_POOL_def)
  then have mx: "p_max p = n - sizeof_pool" using p by auto
  have last: "unat (a0 + sizeof_pool) = unat a0 + 64" 
    using a0 n by (simp add: sizeof_pool_def unat_add_u64)
  have al: "ngx_align_ptr (a0 + sizeof_pool) NGX_ALIGNMENT = a0 + sizeof_pool"
  proof (rule word_unat_eq_iff [THEN iffD2])
    have "unat (a0 + sizeof_pool) + 7 < 2 ^ 64" using last a0 n by linarith
    then show "unat (ngx_align_ptr (a0 + sizeof_pool) NGX_ALIGNMENT) = unat (a0 + sizeof_pool)"
      using a0(1) last by (auto simp: unat_align_8 elim!: dvdE)
  qed
  have "ngx_palloc f h1 p (n - sizeof_pool) = (a0 + sizeof_pool, h1,
      p\<lparr>p_chain := [\<lparr>d_base = a0, d_last = a0 + n, d_end = a0 + n, d_failed = 0\<rparr>]\<rparr>)"
    unfolding ngx_palloc_def mx by (simp add: ngx_palloc_small_def p al)
  then have st: "a = a0 + sizeof_pool" "h2 = h1"
    "p2 = p\<lparr>p_chain := [\<lparr>d_base = a0, d_last = a0 + n, d_end = a0 + n, d_failed = 0\<rparr>]\<rparr>"
    using first by auto
  let ?m = "ngx_align_ptr (a0 + n) NGX_ALIGNMENT"
  have ue: "unat (a0 + n) = unat a0 + unat n" using a0 by (simp add: unat_add_u64)
  then have um: "unat ?m = (unat a0 + unat n + 7) div 8 * 8" using a0(3) by (simp add: unat_align_8)
  have nd: "\<not> 8 dvd unat a0 + unat n" using a0(1) n(3) by (simp add: dvd_add_right_iff)
  have gt: "unat a0 + unat n < unat ?m" and near: "unat ?m < unat a0 + unat n + 8"
    using nd um by presburger+
  have d: "unat (?m - (a0 + n)) < 8" 
    using gt near ue by (simp add: unat_sub_u64 word_le_nat_alt)
  have fits: "k \<le> (a0 + n) - ?m"
  proof -
    have "(a0 + n) - ?m = - (?m - (a0 + n))" by simp
    moreover have "?m - (a0 + n) \<noteq> 0" using gt ue by auto
    ultimately have "unat ((a0 + n) - ?m) = 2 ^ 64 - unat (?m - (a0 + n))"
      using unat_neg_u64 by metis
    moreover have "unat k \<le> 4095" using second(1) mx un n by (simp add: word_le_nat_alt)
    ultimately show ?thesis using d by (simp add: word_le_nat_alt)
  qed
  have "ngx_palloc f h2 p2 k = (?m, h1, p2\<lparr>p_chain := [\<lparr>d_base = a0, d_last = ?m + k, d_end = a0 + n, d_failed = 0\<rparr>]\<rparr>)"
    using second(1) fits by (simp add: ngx_palloc_def ngx_palloc_small_def st p)
  then show ?thesis using second(2) gt st by simp
qed

lemma ngx_palloc_unaligned_pool_witness:
  "let (p, h1) = ngx_create_pool bump_calloc empty_heap 100;
       (a, h2, p2) = ngx_palloc bump_calloc h1 (the p) 36
   in unat (0x1010 :: u64) + 100 < unat (fst (ngx_palloc bump_calloc h2 p2 24))"
proof -
  obtain q h1 where 1: "ngx_create_pool bump_calloc empty_heap 100 = (q, h1)" by force
  have "q \<noteq> None" using 1 by (auto simp: ngx_create_pool_def sys_calloc_def bump_calloc_def
    empty_heap_def heap_top_def Let_def split: if_splits)
  then obtain p where q: "q = Some p" by auto
  obtain a h2 p2 where 2: "ngx_palloc bump_calloc h1 p 36 = (a, h2, p2)" by (metis prod_cases3)
  obtain b h3 p3 where 3: "ngx_palloc bump_calloc h2 p2 24 = (b, h3, p3)" by (metis prod_cases3)
  have c: "bump_calloc (calls empty_heap) (live empty_heap) 100 = 0x1010" by code_simp
  have mx: "24 \<le> p_max p" using 1 q by (auto simp: ngx_create_pool_def sys_calloc_def bump_calloc_def
    empty_heap_def heap_top_def Let_def pool_consts split: if_splits)
  have "unat (0x1010 :: u64) + unat (100 :: u64) < unat b"
    using ngx_palloc_unaligned_pool [of 100 "0x1010" bump_calloc empty_heap p h1 a h2 p2 24 b h3 p3]
      c 1 2 3 q mx by (simp add: sizeof_pool_def)
  then show ?thesis by (simp add: 1 2 3 q)
qed

end
