(* ===== verification/Array.thy ===== *)
theory Array imports Palloc begin

text \<open>
  The growing array of \<open>ngx/ngx_array.c\<close> and \<open>ngx/ngx_array.h\<close>, whose elements live in a pool.

  \<open>a_self\<close> is the address of the \<open>ngx_array_t\<close> itself and \<open>a_slots\<close> what the \<open>nalloc\<close> element
  slots at \<open>elts\<close> hold; elements are typed values, the slots past \<open>nelts\<close> keep what was last
  stored there.  \<open>fresh\<close> is what newly obtained memory reads as.
\<close>

record 'a ngx_array =
  a_self :: u64
  a_elts :: u64
  a_nelts :: u64
  a_size :: u64
  a_nalloc :: u64
  a_slots :: "'a list"

definition sizeof_array :: u64 where "sizeof_array = 40"

definition first_last :: "ngx_pool \<Rightarrow> u64" where
  "first_last p = d_last (hd (p_chain p))"

definition first_end :: "ngx_pool \<Rightarrow> u64" where
  "first_end p = d_end (hd (p_chain p))"

definition set_first_last :: "ngx_pool \<Rightarrow> u64 \<Rightarrow> ngx_pool" where
  "set_first_last p x = p\<lparr>p_chain := (p_chain p)[0 := (p_chain p ! 0)\<lparr>d_last := x\<rparr>]\<rparr>"

text \<open>The status is NGX_OK or NGX_ERROR.\<close>

definition ngx_array_init ::
  "calloc_fn \<Rightarrow> sysheap \<Rightarrow> ngx_pool \<Rightarrow> u64 \<Rightarrow> u64 \<Rightarrow> u64 \<Rightarrow> 'a \<Rightarrow>
     int \<times> 'a ngx_array \<times> sysheap \<times> ngx_pool" where
  "ngx_array_init f h p self n sz fresh =
     (let (m, h1, p1) = ngx_palloc f h p (n * sz);
          a = \<lparr>a_self = self, a_elts = m, a_nelts = 0, a_size = sz, a_nalloc = n,
               a_slots = replicate (unat n) fresh\<rparr>
      in (if m = 0 then NGX_ERROR else NGX_OK, a, h1, p1))"

definition ngx_array_create ::
  "calloc_fn \<Rightarrow> sysheap \<Rightarrow> ngx_pool \<Rightarrow> u64 \<Rightarrow> u64 \<Rightarrow> 'a \<Rightarrow>
     'a ngx_array option \<times> sysheap \<times> ngx_pool" where
  "ngx_array_create f h p n sz fresh =
     (let (self, h1, p1) = ngx_palloc f h p sizeof_array
      in if self = 0 then (None, h1, p1)
         else
           let (rc, a, h2, p2) = ngx_array_init f h1 p1 self n sz fresh
           in if rc \<noteq> NGX_OK then (None, h2, p2) else (Some a, h2, p2))"

definition ngx_array_destroy :: "ngx_pool \<Rightarrow> 'a ngx_array \<Rightarrow> ngx_pool" where
  "ngx_array_destroy p a =
     (let p1 = (if a_elts a + a_size a * a_nalloc a = first_last p
                then set_first_last p (first_last p - a_size a * a_nalloc a) else p)
      in if a_self a + sizeof_array = first_last p1 then set_first_last p1 (a_self a) else p1)"

text \<open>
  The results of the two push functions: the address of the new element (0 for NULL), and the heap,
  the pool and the array afterwards.
\<close>

definition ngx_array_push ::
  "calloc_fn \<Rightarrow> sysheap \<Rightarrow> ngx_pool \<Rightarrow> 'a ngx_array \<Rightarrow> 'a \<Rightarrow>
     u64 \<times> sysheap \<times> ngx_pool \<times> 'a ngx_array" where
  "ngx_array_push f h p a fresh =
     (let take_slot = (\<lambda>h p a. (a_elts a + a_size a * a_nelts a, h, p, a\<lparr>a_nelts := a_nelts a + 1\<rparr>))
      in if a_nelts a = a_nalloc a then
           let sz = a_size a * a_nalloc a
           in if a_elts a + sz = first_last p \<and> first_last p + a_size a \<le> first_end p
              then take_slot h (set_first_last p (first_last p + a_size a))
                     (a\<lparr>a_nalloc := a_nalloc a + 1, a_slots := a_slots a @ [fresh]\<rparr>)
              else
                let (new, h1, p1) = ngx_palloc f h p (2 * sz)
                in if new = 0 then (0, h1, p1, a)
                   else take_slot h1 p1
                     (a\<lparr>a_elts := new, a_nalloc := a_nalloc a * 2,
                        a_slots := a_slots a @ replicate (unat (a_nalloc a * 2) - length (a_slots a)) fresh\<rparr>)
         else take_slot h p a)"

definition ngx_array_push_n ::
  "calloc_fn \<Rightarrow> sysheap \<Rightarrow> ngx_pool \<Rightarrow> 'a ngx_array \<Rightarrow> u64 \<Rightarrow> 'a \<Rightarrow>
     u64 \<times> sysheap \<times> ngx_pool \<times> 'a ngx_array" where
  "ngx_array_push_n f h p a n fresh =
     (let take_slots = (\<lambda>h p a. (a_elts a + a_size a * a_nelts a, h, p, a\<lparr>a_nelts := a_nelts a + n\<rparr>));
          sz = n * a_size a
      in if a_nelts a + n > a_nalloc a then
           if a_elts a + a_size a * a_nalloc a = first_last p \<and> first_last p + sz \<le> first_end p
           then take_slots h (set_first_last p (first_last p + sz))
                  (a\<lparr>a_nalloc := a_nalloc a + n, a_slots := a_slots a @ replicate (unat n) fresh\<rparr>)
           else
             let nalloc = 2 * (if n \<ge> a_nalloc a then n else a_nalloc a);
                 (new, h1, p1) = ngx_palloc f h p (nalloc * a_size a)
             in if new = 0 then (0, h1, p1, a)
                else take_slots h1 p1
                  (a\<lparr>a_elts := new, a_nalloc := nalloc,
                     a_slots := take (unat (a_nelts a)) (a_slots a) @
                       replicate (unat nalloc - unat (a_nelts a)) fresh\<rparr>)
         else take_slots h p a)"

text \<open>Storing through the pointer a push has returned.\<close>

definition store_last :: "'a ngx_array \<Rightarrow> 'a \<Rightarrow> 'a ngx_array" where
  "store_last a x = a\<lparr>a_slots := (a_slots a)[unat (a_nelts a) - 1 := x]\<rparr>"

text \<open>The list an array stands for.\<close>

definition array_list :: "'a ngx_array \<Rightarrow> 'a list" where
  "array_list a = take (unat (a_nelts a)) (a_slots a)"

subsection \<open>The invariant\<close>

definition array_region :: "'a ngx_array \<Rightarrow> nat set" where
  "array_region a = {unat (a_elts a) ..< unat (a_elts a) + unat (a_size a) * unat (a_nalloc a)}"

definition array_ok :: "nat set \<Rightarrow> 'a ngx_array \<Rightarrow> bool" where
  "array_ok U a \<longleftrightarrow> a_elts a \<noteq> 0 \<and> 0 < unat (a_size a) \<and> unat (a_nelts a) \<le> unat (a_nalloc a) \<and>
     length (a_slots a) = unat (a_nalloc a) \<and>
     unat (a_elts a) + unat (a_size a) * unat (a_nalloc a) < 2 ^ 64 \<and> array_region a \<subseteq> U"

text \<open>What a push of \<open>n\<close> elements promises when it does not return NULL.\<close>

definition push_post :: "sysheap \<Rightarrow> ngx_pool \<Rightarrow> 'a ngx_array \<Rightarrow> nat \<Rightarrow> u64 \<Rightarrow>
    sysheap \<Rightarrow> ngx_pool \<Rightarrow> 'a ngx_array \<Rightarrow> bool" where
  "push_post h p a n e h' p' a' \<longleftrightarrow> heap_ok h' \<and> pool_ok (live h') p' \<and>
     array_ok (pool_used (live h') p') a' \<and> pool_used (live h) p \<subseteq> pool_used (live h') p' \<and>
     unat (a_nelts a') = unat (a_nelts a) + n \<and> a_size a' = a_size a \<and>
     take (unat (a_nelts a)) (a_slots a') = array_list a \<and>
     unat e = unat (a_elts a') + unat (a_size a) * unat (a_nelts a) \<and>
     array_region a' \<inter> (pool_used (live h) p - array_region a) = {}"

lemma array_slot_addr:
  assumes a: "array_ok U a" and i: "i \<le> unat (a_nalloc a)" and j: "unat j = i"
  shows "unat (a_elts a + a_size a * j) = unat (a_elts a) + unat (a_size a) * i"
proof -
  have "unat (a_size a) * i \<le> unat (a_size a) * unat (a_nalloc a)" using i by simp
  then have lt: "unat (a_elts a) + unat (a_size a) * i < 2 ^ 64"
    using a unfolding array_ok_def by linarith
  then have "unat (a_size a * j) = unat (a_size a) * i" using j by (subst unat_mult_u64) auto
  then show ?thesis using lt by (subst unat_add_u64) auto
qed

text \<open>Taking slots an array has.\<close>

lemma take_slots_post:
  assumes h: "heap_ok h'" and p: "pool_ok (live h') p'" and a1: "array_ok (pool_used (live h') p') a1"
    and nelts: "a_nelts a1 = a_nelts a" "a_size a1 = a_size a"
    and n: "unat (a_nelts a) + unat n \<le> unat (a_nalloc a1)"
    and keep: "take (unat (a_nelts a)) (a_slots a1) = array_list a"
    and mono: "pool_used (live h) p \<subseteq> pool_used (live h') p'"
    and frame: "array_region a1 \<inter> (pool_used (live h) p - array_region a) = {}"
  shows "push_post h p a (unat n) (a_elts a1 + a_size a1 * a_nelts a1) h' p' (a1\<lparr>a_nelts := a_nelts a1 + n\<rparr>)"
proof -
  have "unat (a_nelts a1 + n) = unat (a_nelts a) + unat n"
    using n unat_lt_u64 [of "a_nalloc a1"] nelts by (subst unat_add_u64) auto
  moreover have "unat (a_elts a1 + a_size a1 * a_nelts a1) =
      unat (a_elts a1) + unat (a_size a) * unat (a_nelts a)"
    using array_slot_addr [OF a1, of "unat (a_nelts a)" "a_nelts a1"] n nelts by simp
  ultimately show ?thesis
    using assms by (simp add: push_post_def array_ok_def array_region_def)
qed

text \<open>Growing in place: the slots end where the first block's free space begins.\<close>

lemma grow_in_place:
  assumes h: "heap_ok h" and p: "pool_ok (live h) p" and a: "array_ok (pool_used (live h) p) a"
    and adj: "a_elts a + a_size a * a_nalloc a = first_last p"
    and fits: "first_last p + s \<le> first_end p" "unat (first_end p) + unat s < 2 ^ 64"
    and s: "unat s = unat (a_size a) * unat n"
    and p': "p' = set_first_last p (first_last p + s)"
    and a': "a' = a\<lparr>a_nalloc := a_nalloc a + n, a_slots := a_slots a @ replicate (unat n) fresh\<rparr>"
  shows "pool_ok (live h) p'" "array_ok (pool_used (live h) p') a'"
    "pool_used (live h) p \<subseteq> pool_used (live h) p'"
    "array_region a' \<inter> (pool_used (live h) p - array_region a) = {}"
    "unat (a_nalloc a') = unat (a_nalloc a) + unat n"
proof -
  have ne: "p_chain p \<noteq> []" using p by (simp add: pool_ok_def)
  have hd: "hd (p_chain p) = p_chain p ! 0" using ne by (simp add: hd_conv_nth)
  have bok: "block_ok (live h) (pool_psize p) (p_chain p ! 0)" using p ne by (simp add: pool_ok_def)
  have le: "unat (first_last p) \<le> unat (first_end p)"
    using bok by (simp add: block_ok_def first_last_def first_end_def hd unat_add_u64)
  have ls: "unat (first_last p + s) = unat (first_last p) + unat s"
    using le fits(2) by (intro unat_add_u64) linarith
  have "s \<le> d_end (p_chain p ! 0) - d_last (p_chain p ! 0)"
    using fits(1) ls le unfolding first_last_def first_end_def hd
    by (simp add: word_le_nat_alt unat_sub_u64)
  note cut = cut_post [OF h p _ _ this, of False p']
  have post: "alloc_post h p s (first_last p) h p'"
    using cut(1) ne by (simp add: p' set_first_last_def first_last_def hd)
  then show "pool_ok (live h) p'" and mono: "pool_used (live h) p \<subseteq> pool_used (live h) p'"
    by (auto simp: alloc_post_def)
  have fl0: "first_last p \<noteq> 0" using bok by (auto simp: block_ok_def first_last_def hd)
  have sp: "span (first_last p) s \<inter> pool_used (live h) p = {}"
    "span (first_last p) s \<subseteq> pool_used (live h) p'" using post fl0 by (auto simp: alloc_post_def)
  have fl: "unat (first_last p) = unat (a_elts a) + unat (a_size a) * unat (a_nalloc a)"
    using array_slot_addr [OF a order_refl, of "a_nalloc a"] adj by simp
  have lt: "unat (first_last p) + unat s < 2 ^ 64" using le fits(2) by linarith
  have "0 < unat (a_size a)" using a by (simp add: array_ok_def)
  then have "unat (a_nalloc a) + unat n \<le> unat (a_size a) * unat (a_nalloc a) + unat (a_size a) * unat n"
    by (metis Suc_leI add_mult_distrib2 mult.commute mult.right_neutral mult_le_mono2 One_nat_def)
  then have "unat (a_nalloc a) + unat n < 2 ^ 64" using lt fl s by linarith
  then show na: "unat (a_nalloc a') = unat (a_nalloc a) + unat n" by (simp add: a' unat_add_u64)
  have "array_region a' = array_region a \<union> span (first_last p) s"
    using na fl s unfolding array_region_def span_def by (auto simp: a' add_mult_distrib2)
  then show "array_region a' \<inter> (pool_used (live h) p - array_region a) = {}" using sp(1) by blast
  have "array_region a' \<subseteq> pool_used (live h) p'"
    using \<open>array_region a' = _\<close> sp(2) mono a unfolding array_ok_def by blast
  moreover have "unat (a_elts a) + unat (a_size a) * (unat (a_nalloc a) + unat n) < 2 ^ 64"
    using lt fl s by (simp add: add_mult_distrib2)
  ultimately show "array_ok (pool_used (live h) p') a'"
    using a na unfolding array_ok_def by (simp add: a')
qed

text \<open>Moving to a new region.\<close>

lemma grow_by_copy:
  assumes f: "calloc_ok f" and h: "heap_ok h" and p: "pool_ok (live h) p"
    and a: "array_ok (pool_used (live h) p) a"
    and r: "ngx_palloc f h p s = (new, h', p')" "new \<noteq> 0"
    and s: "unat s = unat (a_size a) * unat k" and k: "unat (a_nelts a) \<le> unat k"
    and a': "a_elts a' = new" "a_nalloc a' = k" "a_size a' = a_size a" "a_nelts a' = a_nelts a"
      "length (a_slots a') = unat k"
  shows "heap_ok h'" "pool_ok (live h') p'" "array_ok (pool_used (live h') p') a'"
    "pool_used (live h) p \<subseteq> pool_used (live h') p'"
    "array_region a' \<inter> (pool_used (live h) p - array_region a) = {}"
proof -
  have post: "alloc_post h p s new h' p'" using alloc_post_palloc [OF f h p r(1)] by simp
  then show h': "heap_ok h'" and p': "pool_ok (live h') p'"
    and mono: "pool_used (live h) p \<subseteq> pool_used (live h') p'" by (auto simp: alloc_post_def)
  have reg: "array_region a' = span new s" using s by (simp add: array_region_def span_def a')
  have sp: "span new s \<inter> pool_used (live h) p = {}" "span new s \<subseteq> pool_used (live h') p'"
    using post r(2) by (auto simp: alloc_post_def)
  then show "array_region a' \<inter> (pool_used (live h) p - array_region a) = {}" unfolding reg by blast
  have "unat new + unat s < 2 ^ 64" by (rule palloc_no_wrap [OF f h p r])
  then show "array_ok (pool_used (live h') p') a'"
    using a k sp(2) reg r(2) s by (simp add: array_ok_def a')
qed

lemma push_post_nonnull: "push_post h p a n e h' p' a' \<Longrightarrow> e \<noteq> 0"
  by (auto simp: push_post_def array_ok_def unat_eq_0 [symmetric])

lemma push_post_store:
  assumes "push_post h p a 1 e h' p' a'"
  shows "array_list (store_last a' x) = array_list a @ [x]"
proof -
  let ?n = "unat (a_nelts a)"
  have n: "unat (a_nelts a') = Suc ?n" and len: "Suc ?n \<le> length (a_slots a')"
    and tk: "take ?n (a_slots a') = array_list a"
    using assms by (auto simp: push_post_def array_ok_def)
  have "take (Suc ?n) ((a_slots a')[?n := x]) = take ?n (a_slots a') @ [x]"
    using len by (simp add: take_Suc_conv_app_nth)
  then show ?thesis by (simp add: array_list_def store_last_def n tk)
qed

lemma array_push_post:
  assumes f: "calloc_ok f" and h: "heap_ok h" and p: "pool_ok (live h) p"
    and a: "array_ok (pool_used (live h) p) a" and nz: "a_nalloc a \<noteq> 0"
    and room: "2 * unat (a_size a) * unat (a_nalloc a) < 2 ^ 64"
      "unat (first_end p) + unat (a_size a) < 2 ^ 64"
    and r: "ngx_array_push f h p a fresh = (e, h', p', a')"
  shows "if e = 0 then a' = a \<and> heap_ok h' \<and> pool_ok (live h') p' else push_post h p a 1 e h' p' a'"
proof -
  let ?sz = "a_size a * a_nalloc a"
  have n1: "0 < unat (a_nalloc a)" using nz by (simp add: unat_gt_0)
  have len: "length (a_slots a) = unat (a_nalloc a)" "unat (a_nelts a) \<le> unat (a_nalloc a)" 
    using a by (auto simp: array_ok_def)
  have s1: "2 * (unat (a_size a) * unat (a_nalloc a)) < 2 ^ 64" using room(1) by (simp add: mult.assoc)
  then have "unat (a_size a) * unat (a_nalloc a) < 2 ^ 64" by linarith
  then have usz: "unat ?sz = unat (a_size a) * unat (a_nalloc a)" by (rule unat_mult_u64)
  consider (has) "a_nelts a \<noteq> a_nalloc a"
    | (place) "a_nelts a = a_nalloc a" "a_elts a + ?sz = first_last p" "first_last p + a_size a \<le> first_end p"
    | (copy) "a_nelts a = a_nalloc a" "\<not> (a_elts a + ?sz = first_last p \<and> first_last p + a_size a \<le> first_end p)"
    by blast
  then show ?thesis
  proof cases
    case has
    then have "unat (a_nelts a) \<noteq> unat (a_nalloc a)" by (simp add: word_unat_eq_iff)
    then have n: "unat (a_nelts a) + unat (1 :: u64) \<le> unat (a_nalloc a)" using len by simp
    have "push_post h p a 1 e h' p' a'"
      using take_slots_post [OF h p a refl refl n _ order_refl] r has
      by (simp add: ngx_array_push_def array_list_def Diff_disjoint)
    from push_post_nonnull [OF this] this show ?thesis by simp
  next
    case place
    let ?a1 = "a\<lparr>a_nalloc := a_nalloc a + 1, a_slots := a_slots a @ replicate (unat (1 :: u64)) fresh\<rparr>"
    note g = grow_in_place [OF h p a place(2,3) room(2) _ refl, of 1 ?a1 fresh]
    have "push_post h p a (unat (1 :: u64)) (a_elts ?a1 + a_size ?a1 * a_nelts ?a1) h
      (set_first_last p (first_last p + a_size a)) (?a1\<lparr>a_nelts := a_nelts ?a1 + 1\<rparr>)"
      using g place(1) by (intro take_slots_post [OF h]) (auto simp: array_list_def len)
    then have "push_post h p a 1 e h' p' a'"
      using r place by (auto simp: ngx_array_push_def Let_def)
    from push_post_nonnull [OF this] this show ?thesis by simp
  next
    case copy
    obtain new h1 p1 where al: "ngx_palloc f h p (2 * ?sz) = (new, h1, p1)" by (metis prod_cases3)
    show ?thesis
    proof (cases "new = 0")
      case True
      then have "e = 0" "a' = a" "h' = h1" "p' = p1" 
        using r copy al by (auto simp: ngx_array_push_def Let_def)
      then show ?thesis using alloc_post_palloc [OF f h p al] by (simp add: alloc_post_def)
    next
      case False
      have "0 < unat (a_size a)" using a by (simp add: array_ok_def)
      then have "unat (a_nalloc a) \<le> unat (a_size a) * unat (a_nalloc a)" by simp
      then have "unat (a_nalloc a) * 2 < 2 ^ 64" using s1 by linarith
      then have na: "unat (a_nalloc a * 2) = unat (a_nalloc a) * 2" by (subst unat_mult_u64) simp_all
      have "unat (2 * ?sz) = 2 * unat ?sz" using s1 usz by (subst unat_mult_u64) simp_all
      then have sz: "unat (2 * ?sz) = unat (a_size a) * unat (a_nalloc a * 2)" using usz na by simp
      let ?a1 = "a\<lparr>a_elts := new, a_nalloc := a_nalloc a * 2,
        a_slots := a_slots a @ replicate (unat (a_nalloc a * 2) - length (a_slots a)) fresh\<rparr>"
      have g: "heap_ok h1" "pool_ok (live h1) p1" "array_ok (pool_used (live h1) p1) ?a1"
        "pool_used (live h) p \<subseteq> pool_used (live h1) p1"
        "array_region ?a1 \<inter> (pool_used (live h) p - array_region a) = {}"
        using grow_by_copy [OF f h p a al False sz, of ?a1] len na by auto
      have "push_post h p a (unat (1 :: u64)) (a_elts ?a1 + a_size ?a1 * a_nelts ?a1) h1 p1
        (?a1\<lparr>a_nelts := a_nelts ?a1 + 1\<rparr>)"
        using g copy(1) n1 na by (intro take_slots_post) (auto simp: array_list_def len)
      then have "push_post h p a 1 e h' p' a'"
        using r copy al False by (auto simp: ngx_array_push_def Let_def)
      from push_post_nonnull [OF this] this show ?thesis by simp
    qed
  qed
qed

text \<open>
  The growing cases of \<open>ngx_array_push_n\<close>: behind the last byte of the first block, and by a copy to a
  region twice as large as what is needed.
\<close>

lemma push_n_in_place:
  assumes h: "heap_ok h" and p: "pool_ok (live h) p" and a: "array_ok (pool_used (live h) p) a"
    and adj: "a_elts a + a_size a * a_nalloc a = first_last p"
    and fits: "first_last p + n * a_size a \<le> first_end p" "unat (first_end p) + unat (n * a_size a) < 2 ^ 64"
    and sz: "unat (n * a_size a) = unat (a_size a) * unat n"
    and a1: "a1 = a\<lparr>a_nalloc := a_nalloc a + n, a_slots := a_slots a @ replicate (unat n) fresh\<rparr>"
  shows "push_post h p a (unat n) (a_elts a1 + a_size a1 * a_nelts a1) h
    (set_first_last p (first_last p + n * a_size a)) (a1\<lparr>a_nelts := a_nelts a1 + n\<rparr>)"
proof -
  have len: "length (a_slots a) = unat (a_nalloc a)" "unat (a_nelts a) \<le> unat (a_nalloc a)"
    using a by (auto simp: array_ok_def)
  note g = grow_in_place [OF h p a adj fits sz refl a1]
  show ?thesis using g len by (intro take_slots_post [OF h]) (auto simp: array_list_def len a1)
qed

lemma push_n_by_copy:
  assumes f: "calloc_ok f" and h: "heap_ok h" and p: "pool_ok (live h) p"
    and a: "array_ok (pool_used (live h) p) a"
    and al: "ngx_palloc f h p (k * a_size a) = (new, h1, p1)" "new \<noteq> 0"
    and sz: "unat (k * a_size a) = unat (a_size a) * unat k" and kn: "unat (a_nelts a) + unat n \<le> unat k"
    and a1: "a1 = a\<lparr>a_elts := new, a_nalloc := k, a_slots := take (unat (a_nelts a)) (a_slots a) @
        replicate (unat k - unat (a_nelts a)) fresh\<rparr>"
  shows "push_post h p a (unat n) (a_elts a1 + a_size a1 * a_nelts a1) h1 p1 (a1\<lparr>a_nelts := a_nelts a1 + n\<rparr>)"
proof -
  have len: "length (a_slots a) = unat (a_nalloc a)" "unat (a_nelts a) \<le> unat (a_nalloc a)"
    using a by (auto simp: array_ok_def)
  have le: "unat (a_nelts a) \<le> unat k" using kn by linarith
  then have g: "heap_ok h1" "pool_ok (live h1) p1" "array_ok (pool_used (live h1) p1) a1"
    "pool_used (live h) p \<subseteq> pool_used (live h1) p1"
    "array_region a1 \<inter> (pool_used (live h) p - array_region a) = {}"
    using grow_by_copy [OF f h p a al sz, of a1] len by (auto simp: a1)
  show ?thesis using g kn len by (intro take_slots_post) (auto simp: array_list_def a1)
qed

lemma push_n_sizes:
  fixes n :: u64
  assumes a: "array_ok U a" and room: "2 * unat (a_size a) * (unat (a_nalloc a) + unat n) < 2 ^ 64"
  shows "unat (a_nelts a + n) = unat (a_nelts a) + unat n"
    and "k = 2 * (if n \<ge> a_nalloc a then n else a_nalloc a) \<Longrightarrow>
      unat (k * a_size a) = unat (a_size a) * unat k \<and> unat (a_nelts a) + unat n \<le> unat k"
proof -
  let ?s = "unat (a_size a)"
  have len: "unat (a_nelts a) \<le> unat (a_nalloc a)" and s0: "0 < ?s" using a by (auto simp: array_ok_def)
  have "2 * 1 * (unat (a_nalloc a) + unat n) \<le> 2 * ?s * (unat (a_nalloc a) + unat n)"
    using s0 by (intro mult_le_mono) auto
  then have small: "2 * (unat (a_nalloc a) + unat n) < 2 ^ 64" using room by linarith
  then have "unat (a_nelts a) + unat n < 2 ^ 64" using len by simp
  then show "unat (a_nelts a + n) = unat (a_nelts a) + unat n" by (rule unat_add_u64)
  assume k: "k = 2 * (if n \<ge> a_nalloc a then n else a_nalloc a)"
  then have uk: "unat k = 2 * max (unat n) (unat (a_nalloc a))"
    using small by (auto simp: unat_mult_u64 word_le_nat_alt max_def)
  have "?s * unat k \<le> 2 * ?s * (unat (a_nalloc a) + unat n)" unfolding uk by (auto simp: max_def algebra_simps)
  then have "?s * unat k < 2 ^ 64" using room by linarith
  then have "unat (k * a_size a) = ?s * unat k" by (subst unat_mult_u64) (auto simp: mult.commute)
  then show "unat (k * a_size a) = ?s * unat k \<and> unat (a_nelts a) + unat n \<le> unat k"
    unfolding uk using len by linarith
qed

lemma array_push_n_post:
  assumes f: "calloc_ok f" and h: "heap_ok h" and p: "pool_ok (live h) p"
    and a: "array_ok (pool_used (live h) p) a"
    and room: "2 * unat (a_size a) * (unat (a_nalloc a) + unat n) < 2 ^ 64"
      "unat (first_end p) + unat (a_size a) * unat n < 2 ^ 64"
    and r: "ngx_array_push_n f h p a n fresh = (e, h', p', a')"
  shows "if e = 0 then a' = a \<and> heap_ok h' \<and> pool_ok (live h') p'
    else push_post h p a (unat n) e h' p' a'"
proof -
  let ?sz = "n * a_size a"
  have fin: ?thesis if "push_post h p a (unat n) e h' p' a'"
    using push_post_nonnull [OF that] that by simp
  have "unat (a_size a) * unat n < 2 ^ 64" using room(2) by linarith
  then have usz: "unat ?sz = unat (a_size a) * unat n" by (subst unat_mult_u64) (auto simp: mult.commute)
  consider (has) "\<not> a_nelts a + n > a_nalloc a"
    | (place) "a_nelts a + n > a_nalloc a" "a_elts a + a_size a * a_nalloc a = first_last p"
        "first_last p + ?sz \<le> first_end p"
    | (copy) "a_nelts a + n > a_nalloc a"
        "\<not> (a_elts a + a_size a * a_nalloc a = first_last p \<and> first_last p + ?sz \<le> first_end p)"
    by blast
  then show ?thesis
  proof cases
    case has
    then have n: "unat (a_nelts a) + unat n \<le> unat (a_nalloc a)"
      using push_n_sizes(1) [OF a room(1)] by (simp add: word_less_nat_alt)
    show ?thesis
      using take_slots_post [OF h p a refl refl n _ order_refl] r has
      by (intro fin) (simp add: ngx_array_push_n_def array_list_def Let_def)
  next
    case place
    have "unat (first_end p) + unat ?sz < 2 ^ 64" using room(2) usz by simp
    from push_n_in_place [OF h p a place(2,3) this usz refl, of fresh] show ?thesis
      using r place by (intro fin) (auto simp: ngx_array_push_n_def Let_def)
  next
    case copy
    define k where "k = 2 * (if n \<ge> a_nalloc a then n else a_nalloc a)"
    obtain new h1 p1 where al: "ngx_palloc f h p (k * a_size a) = (new, h1, p1)" by (metis prod_cases3)
    show ?thesis
    proof (cases "new = 0")
      case True
      then have "e = 0" "a' = a" "h' = h1" "p' = p1"
        using r copy al by (auto simp: ngx_array_push_n_def Let_def k_def)
      then show ?thesis using alloc_post_palloc [OF f h p al] by (simp add: alloc_post_def)
    next
      case False
      from push_n_sizes(2) [OF a room(1) k_def]
      have sz: "unat (k * a_size a) = unat (a_size a) * unat k" "unat (a_nelts a) + unat n \<le> unat k" by simp_all
      from push_n_by_copy [OF f h p a al False sz refl, of fresh] show ?thesis
        using r copy al False by (intro fin) (auto simp: ngx_array_push_n_def Let_def k_def)
    qed
  qed
qed

subsection \<open>Properties\<close>

lemma array_ok_mono: "array_ok U a \<Longrightarrow> U \<subseteq> V \<Longrightarrow> array_ok V a"
  by (auto simp: array_ok_def)

lemma array_create_post:
  assumes f: "calloc_ok f" and h: "heap_ok h" and p: "pool_ok (live h) p"
    and s: "sz \<noteq> 0" "unat sz * unat n < 2 ^ 64"
    and r: "ngx_array_create f h p n sz fresh = (Some a, h', p')"
  shows "heap_ok h' \<and> pool_ok (live h') p' \<and> array_ok (pool_used (live h') p') a \<and>
    array_list a = [] \<and> a_size a = sz \<and> a_nalloc a = n \<and> a_nelts a = 0 \<and>
    pool_used (live h) p \<subseteq> pool_used (live h') p' \<and> array_region a \<inter> pool_used (live h) p = {}"
proof -
  obtain self h1 p1 where 1: "ngx_palloc f h p sizeof_array = (self, h1, p1)" by (metis prod_cases3)
  obtain m h2 p2 where 2: "ngx_palloc f h1 p1 (n * sz) = (m, h2, p2)" by (metis prod_cases3)
  have m: "m \<noteq> 0" and st: "h' = h2" "p' = p2"
    and a: "a = \<lparr>a_self = self, a_elts = m, a_nelts = 0, a_size = sz, a_nalloc = n,
      a_slots = replicate (unat n) fresh\<rparr>"
    using r 1 2 by (auto simp: ngx_array_create_def ngx_array_init_def NGX_OK_def NGX_ERROR_def
      Let_def split: if_splits)
  have ok1: "heap_ok h1" "pool_ok (live h1) p1" "pool_used (live h) p \<subseteq> pool_used (live h1) p1"
    using alloc_post_palloc [OF f h p 1] by (auto simp: alloc_post_def)
  have ok2: "heap_ok h2" "pool_ok (live h2) p2" "span m (n * sz) \<subseteq> pool_used (live h2) p2"
    "pool_used (live h1) p1 \<subseteq> pool_used (live h2) p2" "span m (n * sz) \<inter> pool_used (live h1) p1 = {}"
    using alloc_post_palloc [OF f ok1(1,2) 2] m by (auto simp: alloc_post_def)
  have "unat (n * sz) = unat sz * unat n" using s(2) by (subst unat_mult_u64) (auto simp: mult.commute)
  then have "array_region a = span m (n * sz)" and "unat m + unat sz * unat n < 2 ^ 64"
    using palloc_no_wrap [OF f ok1(1,2) 2 m] by (simp_all add: array_region_def span_def a)
  moreover have "pool_used (live h) p \<subseteq> pool_used (live h2) p2"
    "span m (n * sz) \<inter> pool_used (live h) p = {}" using ok1(3) ok2 by blast+
  ultimately show ?thesis
    using ok2 m s(1) by (simp add: st array_ok_def array_list_def a unat_gt_0)
qed

text \<open>An array of two 16-byte elements in the 256-byte pool.\<close>

definition array_run :: "nat ngx_array \<times> sysheap \<times> ngx_pool" where
  "array_run = (case ngx_array_create bump_calloc (snd pool256) (fst pool256) 2 16 0 of
     (Some a, h, p) \<Rightarrow> (a, h, p))"

lemma array_run_eq: "ngx_array_create bump_calloc (snd pool256) (fst pool256) 2 16 (0::nat) =
    (Some (fst array_run), fst (snd array_run), snd (snd array_run))"
proof -
  have "fst (ngx_array_create bump_calloc (snd pool256) (fst pool256) 2 16 (0::nat)) \<noteq> None" by code_simp
  then show ?thesis unfolding array_run_def by (auto split: prod.splits option.splits)
qed

lemmas array_run_ok = array_create_post [OF bump_calloc_ok pool256_ok _ _ array_run_eq]

text \<open>
  C20: a push that does not return NULL gives the address of a slot of its own at the end of the
  array: the array stays inside the memory of the pool and apart from everything else handed out,
  its elements are unchanged, and storing through the pointer appends to the list it stands for.
  A push that returns NULL leaves the array as it was.\<close>

theorem ngx_array_push_correct:
  assumes "calloc_ok f" "heap_ok h" "pool_ok (live h) p" "array_ok (pool_used (live h) p) a"
    and "a_nalloc a \<noteq> 0" "2 * unat (a_size a) * unat (a_nalloc a) < 2 ^ 64"
    and "unat (first_end p) + unat (a_size a) < 2 ^ 64"
    and r: "ngx_array_push f h p a fresh = (e, h', p', a')"
  shows "heap_ok h' \<and> pool_ok (live h') p' \<and>
    (if e = 0 then a' = a
     else array_ok (pool_used (live h') p') a' \<and> unat (a_nelts a') = Suc (unat (a_nelts a)) \<and>
       array_list (store_last a' x) = array_list a @ [x] \<and>
       unat e = unat (a_elts a') + unat (a_size a) * unat (a_nelts a) \<and>
       array_region a' \<inter> (pool_used (live h) p - array_region a) = {} \<and>
       pool_used (live h) p \<subseteq> pool_used (live h') p')"
  using array_push_post [OF assms] push_post_store [of h p a e h' p' a' x]
  by (auto simp: push_post_def split: if_splits)

lemma ngx_array_push_correct_witness:
  "let (a, h, p) = array_run; (e, h', p', a') = ngx_array_push bump_calloc h p a 0
   in e = 0x1078 \<and> array_list (store_last a' 7) = [7] \<and> pool_ok (live h') p'"
proof -
  obtain a h p where r: "array_run = (a, h, p)" by (metis prod_cases3)
  obtain e h' p' a' where u: "ngx_array_push bump_calloc h p a 0 = (e, h', p', a')" by (metis prod_cases4)
  have "(let (a, h, p) = array_run in fst (ngx_array_push bump_calloc h p a 0)) = 0x1078" by code_simp
  then have e: "e = 0x1078" by (simp add: r u)
  have ok: "heap_ok h" "pool_ok (live h) p" "array_ok (pool_used (live h) p) a" "array_list a = []"
    "a_size a = 16" "a_nalloc a = 2" using array_run_ok by (simp_all add: r)
  have "first_end (snd (snd array_run)) = 0x1110" by code_simp
  then have fe: "first_end p = 0x1110" by (simp add: r)
  from ngx_array_push_correct [OF bump_calloc_ok ok(1-3) _ _ _ u] ok e fe
  show ?thesis by (simp add: r u)
qed

text \<open>
  \<open>ngx_array_push_n\<close> likewise reserves \<open>n\<close> consecutive slots of the array's own.\<close>

theorem ngx_array_push_n_correct:
  assumes "calloc_ok f" "heap_ok h" "pool_ok (live h) p" "array_ok (pool_used (live h) p) a"
    and "2 * unat (a_size a) * (unat (a_nalloc a) + unat n) < 2 ^ 64"
    and "unat (first_end p) + unat (a_size a) * unat n < 2 ^ 64"
    and r: "ngx_array_push_n f h p a n fresh = (e, h', p', a')"
  shows "heap_ok h' \<and> pool_ok (live h') p' \<and>
    (if e = 0 then a' = a
     else array_ok (pool_used (live h') p') a' \<and> unat (a_nelts a') = unat (a_nelts a) + unat n \<and>
       take (unat (a_nelts a)) (array_list a') = array_list a \<and>
       unat e = unat (a_elts a') + unat (a_size a) * unat (a_nelts a) \<and>
       array_region a' \<inter> (pool_used (live h) p - array_region a) = {} \<and>
       pool_used (live h) p \<subseteq> pool_used (live h') p')"
  using array_push_n_post [OF assms]
  by (auto simp: push_post_def array_list_def min_def split: if_splits)

lemma ngx_array_push_n_correct_witness:
  "let (a, h, p) = array_run; (e, h', p', a') = ngx_array_push_n bump_calloc h p a 3 0
   in e = 0x1078 \<and> unat (a_nelts a') = 3 \<and> pool_ok (live h') p'"
proof -
  obtain a h p where r: "array_run = (a, h, p)" by (metis prod_cases3)
  obtain e h' p' a' where u: "ngx_array_push_n bump_calloc h p a 3 0 = (e, h', p', a')"
    by (metis prod_cases4)
  have "(let (a, h, p) = array_run in fst (ngx_array_push_n bump_calloc h p a 3 0)) = 0x1078" by code_simp
  then have e: "e = 0x1078" by (simp add: r u)
  have ok: "heap_ok h" "pool_ok (live h) p" "array_ok (pool_used (live h) p) a"
    "a_size a = 16" "a_nalloc a = 2" "a_nelts a = 0" using array_run_ok by (simp_all add: r)
  have "first_end (snd (snd array_run)) = 0x1110" by code_simp
  then have fe: "first_end p = 0x1110" by (simp add: r)
  from ngx_array_push_n_correct [OF bump_calloc_ok ok(1-3) _ _ u] ok e fe
  show ?thesis by (simp add: r u)
qed

lemma align_aligned:
  assumes "8 dvd unat m" shows "ngx_align_ptr m NGX_ALIGNMENT = m"
proof (rule word_unat_eq_iff [THEN iffD2])
  have "unat m + 7 < 2 ^ 64" using assms unat_lt_u64 [of m] by (auto elim!: dvdE)
  then show "unat (ngx_align_ptr m NGX_ALIGNMENT) = unat m"
    using assms by (auto simp: unat_align_8 elim!: dvdE)
qed

text \<open>
  pushing to an array created with room for no element, once it cannot grow in place, asks
  the pool for twice nothing: the element it returns has no memory of its own, and the next
  allocation from the pool gets the very same address.\<close>

theorem ngx_array_push_no_room:
  assumes f: "calloc_ok f" "heap_ok h" "pool_ok (live h) p" and p: "p_chain p = [b]"
    and a: "a_nalloc a = 0" "a_nelts a = 0" "a_elts a \<noteq> first_last p"
    and r: "ngx_array_push f h p a fresh = (e, h', p', a')"
    and k: "k \<le> p_max p" "k \<le> d_end b - e"
  shows "a_nelts a' = 1 \<and> a_nalloc a' = 0 \<and> a_slots a' = a_slots a \<and> fst (ngx_palloc f h' p' k) = e"
proof -
  let ?m = "ngx_align_ptr (d_last b) NGX_ALIGNMENT"
  have cur: "p_current p = 0" using f(3) p by (simp add: pool_ok_def)
  have al: "ngx_palloc f h p 0 = (?m, h, p\<lparr>p_chain := [b\<lparr>d_last := ?m\<rparr>]\<rparr>)"
    by (simp add: ngx_palloc_def ngx_palloc_small_def cur p)
  have "(0, 0) \<in> {}" if "?m = 0" using cut_post(3) [OF f(2,3), of 0 ?m True 0] p that by simp
  then have mnz: "?m \<noteq> 0" by blast
  have m8: "8 dvd unat ?m" using alloc_post_palloc [OF f al] by simp
  have res: "e = ?m" "h' = h" "p' = p\<lparr>p_chain := [b\<lparr>d_last := ?m\<rparr>]\<rparr>"
    "a_nelts a' = 1" "a_nalloc a' = 0" "a_slots a' = a_slots a"
    using r a al mnz by (auto simp: ngx_array_push_def)
  then show ?thesis
    using k align_aligned [OF m8] by (simp add: ngx_palloc_def ngx_palloc_small_def cur)
qed

text \<open>An array with no room, then eight bytes from the pool.\<close>

definition no_room_run :: "nat ngx_array \<times> sysheap \<times> ngx_pool" where
  "no_room_run = (case ngx_array_create bump_calloc (snd pool256) (fst pool256) 0 16 0 of
     (Some a, h, p) \<Rightarrow> (case ngx_palloc bump_calloc h p 8 of (b, h1, p1) \<Rightarrow> (a, h1, p1)))"

lemma no_room_run_ok:
  "heap_ok (fst (snd no_room_run))" "pool_ok (live (fst (snd no_room_run))) (snd (snd no_room_run))"
proof -
  obtain o1 h p where c: "ngx_array_create bump_calloc (snd pool256) (fst pool256) 0 16 (0::nat) = (o1, h, p)"
    by (metis prod_cases3)
  have "fst (ngx_array_create bump_calloc (snd pool256) (fst pool256) 0 16 (0::nat)) \<noteq> None" by code_simp
  then obtain a where o1: "o1 = Some a" using c by auto
  obtain b h1 p1 where b: "ngx_palloc bump_calloc h p 8 = (b, h1, p1)" by (metis prod_cases3)
  have "heap_ok h" "pool_ok (live h) p"
    using array_create_post [OF bump_calloc_ok pool256_ok _ _ c [unfolded o1]] by simp_all
  then have "heap_ok h1" "pool_ok (live h1) p1"
    using alloc_post_palloc [OF bump_calloc_ok _ _ b] by (auto simp: alloc_post_def)
  moreover have r: "no_room_run = (a, h1, p1)" by (simp add: no_room_run_def c o1 b)
  ultimately show "heap_ok (fst (snd no_room_run))"
    "pool_ok (live (fst (snd no_room_run))) (snd (snd no_room_run))" by (simp_all add: r)
qed

lemma ngx_array_push_no_room_witness:
  "let (a, h, p) = no_room_run; (e, h', p', a') = ngx_array_push bump_calloc h p a 0
   in a_nelts a' = 1 \<and> a_nalloc a' = 0 \<and> fst (ngx_palloc bump_calloc h' p' 16) = e"
proof -
  obtain a h p where r: "no_room_run = (a, h, p)" by (metis prod_cases3)
  obtain e h' p' a' where u: "ngx_array_push bump_calloc h p a 0 = (e, h', p', a')" by (metis prod_cases4)
  obtain b where b: "p_chain (snd (snd no_room_run)) = [b]" "d_end b = 0x1110"
    by (rule that [of "hd (p_chain (snd (snd no_room_run)))"]) code_simp+
  have "(let (a, h, p) = no_room_run in (fst (ngx_array_push bump_calloc h p a 0), a_nalloc a, a_nelts a,
      a_elts a = first_last p, 16 \<le> p_max p)) = (0x1080, 0, 0, False, True)" by code_simp
  then have v: "e = 0x1080" "a_nalloc a = 0" "a_nelts a = 0" "a_elts a \<noteq> first_last p" "16 \<le> p_max p"
    by (simp_all add: r u)
  have ok: "heap_ok h" "pool_ok (live h) p" using no_room_run_ok by (simp_all add: r)
  have "p_chain p = [b]" using b(1) by (simp add: r)
  from ngx_array_push_no_room [OF bump_calloc_ok ok this v(2-4) u v(5)] b(2)
  show ?thesis by (simp add: r u v(1))
qed

end
