(* ===== verification/Dbug.thy ===== *)
theory Dbug imports Procmem Elfsym Array begin

text \<open>
  The breakpoints and the state of the debugger (\<open>dbug.c\<close>, \<open>dbug.h\<close>).

  The traced process is its memory, its registers and its debug registers; \<open>None\<close> stands for no
  traced process, on which every \<open>ptrace\<close> request fails.  What the kernel and the processor do
  (single step, continue until the next stop, fork, exec, attach, the contents of \<open>/proc\<close>) are the
  functions of the record \<open>kernel\<close>, a parameter.  A handler that may end the program or follow a
  NULL pointer returns an \<open>outcome\<close>.
\<close>

subsection \<open>Outcomes and output\<close>

text \<open>What is written to the terminal (the newline that ends every message is left out) and the
  processes a \<open>kill\<close> is sent to.\<close>

datatype arg = Hex u64 | Dec int | Str "cptr option"
datatype out = Printf string "arg list" | Perror string | Putc u8 | Kill int

text \<open>A run that ends returns its exit code and its whole output.\<close>

datatype 'a outcome = Ret 'a | Exit int "out list" | Exec bytes "cptr option list" | Crash

fun obind :: "'a outcome \<Rightarrow> ('a \<Rightarrow> 'b outcome) \<Rightarrow> 'b outcome" where
  "obind (Ret x) g = g x"
| "obind (Exit c os) g = Exit c os"
| "obind (Exec p a) g = Exec p a"
| "obind Crash g = Crash"

fun need :: "'a option \<Rightarrow> ('a \<Rightarrow> 'b outcome) \<Rightarrow> 'b outcome" where
  "need None g = Crash"
| "need (Some x) g = g x"

subsection \<open>The traced process\<close>

text \<open>\<open>struct user_regs_struct\<close>.\<close>

record user_regs =
  reg_r15 :: u64  reg_r14 :: u64  reg_r13 :: u64  reg_r12 :: u64  reg_rbp :: u64  reg_rbx :: u64
  reg_r11 :: u64  reg_r10 :: u64  reg_r9 :: u64  reg_r8 :: u64  reg_rax :: u64  reg_rcx :: u64
  reg_rdx :: u64  reg_rsi :: u64  reg_rdi :: u64  reg_orig_rax :: u64  reg_rip :: u64  reg_cs :: u64
  reg_eflags :: u64  reg_rsp :: u64  reg_ss :: u64  reg_fs_base :: u64  reg_gs_base :: u64
  reg_ds :: u64  reg_es :: u64  reg_fs :: u64  reg_gs :: u64

record tracee =
  tr_mem :: pmem
  tr_regs :: user_regs
  tr_dr :: "nat \<Rightarrow> u64"

datatype fork_ret = In_child | In_parent int | Fork_failed

record kernel =
  k_calloc :: calloc_fn
  k_pokeuser :: "tracee \<Rightarrow> nat \<Rightarrow> u64 \<Rightarrow> tracee option"
  k_step :: "tracee \<Rightarrow> tracee option"
  k_cont :: "tracee \<Rightarrow> tracee option \<times> u32"
  k_fork :: fork_ret
  k_traceme :: bool
  k_exec :: "bytes \<Rightarrow> cptr option list \<Rightarrow> bool"
  k_child :: "int \<Rightarrow> tracee option \<times> u32"
  k_attach :: "int \<Rightarrow> (tracee option \<times> u32 option) option"
  k_maps :: "int \<Rightarrow> bytes list option"
  k_target :: "int \<Rightarrow> bytes"
  k_exe :: "int \<Rightarrow> bytes option"

text \<open>The wait status macros.\<close>

definition WIFEXITED :: "u32 \<Rightarrow> bool" where "WIFEXITED s \<longleftrightarrow> s AND 0x7f = 0"
definition WSTOPSIG :: "u32 \<Rightarrow> u32" where "WSTOPSIG s = drop_bit 8 s AND 0xff"
definition SIGTRAP :: u32 where "SIGTRAP = 5"

definition mem_of :: "tracee option \<Rightarrow> pmem" where
  "mem_of t = (case t of None \<Rightarrow> (\<lambda>_. None) | Some t \<Rightarrow> tr_mem t)"

definition set_mem :: "tracee option \<Rightarrow> pmem \<Rightarrow> tracee option" where
  "set_mem t m = map_option (\<lambda>t. t\<lparr>tr_mem := m\<rparr>) t"

subsection \<open>Breakpoints\<close>

definition INT_3 :: u8 where "INT_3 = 0xCC"
definition SFBP :: u8 where "SFBP = 1"
definition HWBP :: u8 where "HWBP = 2"

record breakpoint =
  bp_name :: "cptr option"
  bp_type :: u8
  bp_htype :: u8
  bp_addr :: u64
  bp_orig_code :: u64

definition sizeof_breakpoint :: u64 where "sizeof_breakpoint = 32"

definition zero_bp :: breakpoint where
  "zero_bp = \<lparr>bp_name = None, bp_type = 0, bp_htype = 0, bp_addr = 0, bp_orig_code = 0\<rparr>"

text \<open>Bytes copied over the first bytes of a 64-bit variable.\<close>

definition over_bytes :: "u64 \<Rightarrow> bytes \<Rightarrow> u64" where
  "over_bytes w bs = le_word (bs @ drop (length bs) (le_bytes 8 w))"

definition insert_INT3_bp ::
  "tracee option \<Rightarrow> breakpoint \<Rightarrow> (int \<times> tracee option \<times> breakpoint \<times> out list) outcome" where
  "insert_INT3_bp t bp =
     (let bp1 = bp\<lparr>bp_type := SFBP\<rparr>;
          addr = bp_addr bp1;
          (st, code) = read_pro_mem (mem_of t) addr 1;
          bp2 = bp1\<lparr>bp_orig_code := over_bytes (bp_orig_code bp1) code\<rparr>
      in need (write_pro_mem (mem_of t) addr [INT_3] 1) (\<lambda>(st, m).
           Ret (0, set_mem t m, bp2, [Printf ''break %lx(%s)'' [Hex (bp_addr bp2), Str (bp_name bp2)]])))"

text \<open>\<open>struct DR7\<close>: bit fields from the lowest bit, and the 64-bit word they make.\<close>

record DR7 =
  L0 :: u64  G0 :: u64  L1 :: u64  G1 :: u64  L2 :: u64  G2 :: u64  L3 :: u64  G3 :: u64  res1 :: u64
  rw0 :: u64  len0 :: u64  rw1 :: u64  len1 :: u64  rw2 :: u64  len2 :: u64  rw3 :: u64  len3 :: u64
  res2 :: u64

fun pack_bits :: "(nat \<times> u64) list \<Rightarrow> u64" where
  "pack_bits [] = 0"
| "pack_bits ((w, v) # fs) = take_bit w v OR push_bit w (pack_bits fs)"

definition dr7_word :: "DR7 \<Rightarrow> u64" where
  "dr7_word d = pack_bits
     [(1, L0 d), (1, G0 d), (1, L1 d), (1, G1 d), (1, L2 d), (1, G2 d), (1, L3 d), (1, G3 d), (8, res1 d),
      (2, rw0 d), (2, len0 d), (2, rw1 d), (2, len1 d), (2, rw2 d), (2, len2 d), (2, rw3 d), (2, len3 d),
      (32, res2 d)]"

definition zero_DR7 :: DR7 where
  "zero_DR7 = \<lparr>L0 = 0, G0 = 0, L1 = 0, G1 = 0, L2 = 0, G2 = 0, L3 = 0, G3 = 0, res1 = 0, rw0 = 0,
     len0 = 0, rw1 = 0, len1 = 0, rw2 = 0, len2 = 0, rw3 = 0, len3 = 0, res2 = 0\<rparr>"

definition pokeuser :: "kernel \<Rightarrow> tracee option \<Rightarrow> nat \<Rightarrow> u64 \<Rightarrow> string \<Rightarrow> tracee option \<times> out list" where
  "pokeuser K t n v err =
     (case Option.bind t (\<lambda>t. k_pokeuser K t n v) of
        None \<Rightarrow> (t, [Perror err])
      | Some t' \<Rightarrow> (Some t', []))"

definition insert_hard_break ::
  "kernel \<Rightarrow> tracee option \<Rightarrow> breakpoint \<Rightarrow> int \<times> tracee option \<times> breakpoint \<times> out list" where
  "insert_hard_break K t bp =
     (let dr_7 = zero_DR7;
          bp1 = bp\<lparr>bp_type := HWBP\<rparr>;
          (t1, o1) = pokeuser K t 0 (bp_addr bp1) ''tracer, faile to set DR_0'';
          dr_7' = dr_7\<lparr>L0 := 1, G0 := 1\<rparr>;
          dr7 = dr7_word dr_7';
          (t2, o2) = pokeuser K t1 7 dr7 ''tracer, faile to set DR_7''
      in (0, t2, bp1, o1 @ o2))"

text \<open>The third argument and the third result are the registers of the debugger's state.\<close>

definition resume_INT3_bp_next ::
  "kernel \<Rightarrow> tracee option \<Rightarrow> breakpoint \<Rightarrow> user_regs \<Rightarrow> (int \<times> tracee option \<times> user_regs) outcome" where
  "resume_INT3_bp_next K t bp regs =
     (if bp_type bp AND SFBP = 0 then Ret (- 1, t, regs)
      else
        let addr = bp_addr bp
        in need (write_pro_mem (mem_of t) addr (le_bytes 8 (bp_orig_code bp)) 1) (\<lambda>(st1, m1).
             let t1 = set_mem t m1;
                 regs' = regs\<lparr>reg_rip := bp_addr bp\<rparr>;
                 t2 = map_option (\<lambda>t. t\<lparr>tr_regs := regs'\<rparr>) t1;
                 t3 = Option.bind t2 (k_step K)
             in need (write_pro_mem (mem_of t3) addr [INT_3] 1) (\<lambda>(st2, m2).
                  Ret (0, set_mem t3 m2, regs'))))"

text \<open>
  The two searches: the loop over the first \<open>k\<close> slots; \<open>-1\<close> when none satisfies the test.  Reading
  past the slots is an access outside the array.
\<close>

fun find_bp :: "(breakpoint \<Rightarrow> bool) \<Rightarrow> breakpoint list \<Rightarrow> nat \<Rightarrow> nat \<Rightarrow> int outcome" where
  "find_bp P xs i 0 = Ret (- 1)"
| "find_bp P [] i (Suc k) = Crash"
| "find_bp P (b # xs) i (Suc k) = (if P b then Ret (int i) else find_bp P xs (Suc i) k)"

text \<open>
  The C conversion of the element count to \<open>int\<close>.  With a negative one the loops of the two searches are
  not entered, and the index 0, which differs from it, is returned.
\<close>

definition nelts_int :: "'a ngx_array \<Rightarrow> int" where
  "nelts_int a = signed_take_bit 31 (uint (a_nelts a))"

definition find_current_SF_bp :: "breakpoint ngx_array option \<Rightarrow> user_regs \<Rightarrow> int outcome" where
  "find_current_SF_bp bps regs =
     need bps (\<lambda>a. if nelts_int a < 0 then Ret 0
       else find_bp (\<lambda>b. bp_type b AND SFBP \<noteq> 0 \<and> bp_addr b = reg_rip regs - 1) (a_slots a) 0 (nat (nelts_int a)))"

definition find_current_HW_bp :: "breakpoint ngx_array option \<Rightarrow> user_regs \<Rightarrow> int outcome" where
  "find_current_HW_bp bps regs =
     need bps (\<lambda>a. if nelts_int a < 0 then Ret 0
       else find_bp (\<lambda>b. bp_type b AND HWBP \<noteq> 0 \<and> bp_addr b = reg_rip regs) (a_slots a) 0 (nat (nelts_int a)))"

subsection \<open>The debugger\<close>

record ngx_str =
  s_len :: u64
  s_data :: "cptr option"

definition sizeof_str :: u64 where "sizeof_str = 16"

definition zero_str :: ngx_str where "zero_str = \<lparr>s_len = 0, s_data = None\<rparr>"

text \<open>
  \<open>struct dbug_struct\<close>, whose \<open>current_bp\<close> no function uses, with what the debugger acts on: the
  system heap, the traced process, the input that is left and the output so far.
\<close>

record dbug_struct =
  d_pool :: "ngx_pool option"
  d_pid :: int
  d_status :: u32
  d_bps :: "breakpoint ngx_array option"
  d_cmd :: "ngx_str ngx_array option"
  d_regs :: user_regs
  d_funs :: "fun_arr option"
  d_heap :: sysheap
  d_proc :: "tracee option"
  d_stdin :: bytes
  d_out :: "out list"

definition say :: "out list \<Rightarrow> dbug_struct \<Rightarrow> dbug_struct" where
  "say os d = d\<lparr>d_out := d_out d @ os\<rparr>"

definition init_dbug :: "kernel \<Rightarrow> dbug_struct \<Rightarrow> (int \<times> dbug_struct) outcome" where
  "init_dbug K d =
     (let (p, h) = ngx_create_pool (k_calloc K) (d_heap d) 4096
      in need p (\<lambda>p.
           let (bps, h1, p1) = ngx_array_create (k_calloc K) h p 10 sizeof_breakpoint zero_bp;
               (cmd, h2, p2) = ngx_array_create (k_calloc K) h1 p1 10 sizeof_str zero_str
           in Ret (0, d\<lparr>d_pool := Some p2, d_bps := bps, d_cmd := cmd, d_heap := h2\<rparr>)))"

definition uninit_dbug :: "dbug_struct \<Rightarrow> (int \<times> dbug_struct) outcome" where
  "uninit_dbug d = need (d_pool d) (\<lambda>p. Ret (0, d\<lparr>d_heap := snd (ngx_destroy_pool (d_heap d) p)\<rparr>))"

text \<open>\<open>open_funs(pid)\<close>: the base of the executable's mapping, then its symbols.\<close>

definition open_funs_pid :: "kernel \<Rightarrow> int \<Rightarrow> (fun_arr option \<Rightarrow> 'b outcome) \<Rightarrow> 'b outcome" where
  "open_funs_pid K pid g =
     need (get_pid_base (k_maps K pid) (k_target K pid)) (\<lambda>base. need (open_funs (k_exe K pid) base) g)"

text \<open>
  \<open>close_funs\<close> on the address of the table in the system heap; \<open>word_at\<close> reads the member \<open>word\<close> of
  the structure at an address, before the structure is freed.  The debugger never calls it.
\<close>

definition close_funs :: "(u64 \<Rightarrow> u64) \<Rightarrow> sysheap \<Rightarrow> u64 \<Rightarrow> int \<times> sysheap" where
  "close_funs word_at h funs =
     (if funs = 0 then (- 1, h)
      else let word = word_at funs in (0, sys_free (sys_free h funs) word))"

lemma close_funs_frees:
  assumes "funs \<noteq> 0" and "word_at funs \<noteq> funs"
    and "funs \<in> fst ` set (live h)" and "word_at funs \<in> fst ` set (live h)"
  shows "close_funs word_at h funs =
    (0, if word_at funs = 0 then h\<lparr>live := filter (\<lambda>e. fst e \<noteq> funs) (live h)\<rparr>
        else h\<lparr>live := filter (\<lambda>e. fst e \<noteq> funs \<and> fst e \<noteq> word_at funs) (live h)\<rparr>)"
proof -
  have "word_at funs \<in> fst ` {e \<in> set (live h). fst e \<noteq> funs}" using assms(2,4) by force
  then show ?thesis using assms(1,3) by (auto simp: close_funs_def sys_free_def Let_def conj_commute)
qed

text \<open>
  \<open>dbug_pro\<close> as the process that \<open>fork\<close> returns in sees it.  A child whose \<open>exec\<close> succeeds is
  replaced by the program; one whose \<open>exec\<close> fails returns like the parent.
\<close>

definition dbug_pro :: "kernel \<Rightarrow> dbug_struct \<Rightarrow> cptr option \<Rightarrow> cptr option list \<Rightarrow> (int \<times> dbug_struct) outcome" where
  "dbug_pro K d path argv =
     (case k_fork K of
        In_child \<Rightarrow>
          if \<not> k_traceme K then Ret (- 1, say [Perror ''PTRACE_TRACEME err''] d)
          else (case path of
                  None \<Rightarrow> Ret (- 1, say [Perror ''exec err''] d)
                | Some p \<Rightarrow>
                    if k_exec K (cstr p) argv then Exec (cstr p) argv
                    else Ret (- 1, say [Perror ''exec err''] d))
      | Fork_failed \<Rightarrow> Ret (- 1, say [Perror ''fork err''] d)
      | In_parent pid \<Rightarrow>
          let (t, st) = k_child K pid;
              d1 = d\<lparr>d_status := st\<rparr>
          in if WIFEXITED st then Ret (- 1, d1)
             else open_funs_pid K pid (\<lambda>funs.
               Ret (0, d1\<lparr>d_pid := pid, d_proc := t, d_funs := funs\<rparr>)))"

definition attach_pro :: "kernel \<Rightarrow> dbug_struct \<Rightarrow> int \<Rightarrow> (int \<times> dbug_struct) outcome" where
  "attach_pro K d pid =
     (case k_attach K pid of
        None \<Rightarrow> Ret (- 1, say [Perror ''ATTACH err''] d)
      | Some (t, st) \<Rightarrow>
          let d1 = (case st of None \<Rightarrow> say [Perror ''wait err''] d | Some s \<Rightarrow> d\<lparr>d_status := s\<rparr>)
          in if WIFEXITED (d_status d1) then Ret (- 1, d1)
             else open_funs_pid K pid (\<lambda>funs.
               Ret (0, d1\<lparr>d_pid := pid, d_proc := t, d_funs := funs\<rparr>)))"

subsection \<open>The breakpoint table and the memory it has patched\<close>

definition is_sf :: "breakpoint \<Rightarrow> bool" where
  "is_sf b \<longleftrightarrow> bp_type b AND SFBP \<noteq> 0"

text \<open>The software breakpoint the debugger finds for an address: the first one in the table.\<close>

definition sf_at :: "breakpoint list \<Rightarrow> u64 \<Rightarrow> breakpoint option" where
  "sf_at bl a = find (\<lambda>b. is_sf b \<and> bp_addr b = a) bl"

text \<open>
  \<open>orig\<close> is the memory the program would have without the debugger: the process differs from it
  exactly by an INT3 at every software breakpoint, and the entry found for an address holds the
  original byte.
\<close>

definition table_ok :: "pmem \<Rightarrow> pmem \<Rightarrow> breakpoint list \<Rightarrow> bool" where
  "table_ok orig m bl \<longleftrightarrow>
     (\<forall>a. m a = (if sf_at bl a = None then orig a else Some INT_3)) \<and>
     (\<forall>a b. sf_at bl a = Some b \<longrightarrow> orig a = Some (ucast (bp_orig_code b)) \<and> mapped_word m a)"

lemma sf_at_Some: "sf_at bl a = Some b \<Longrightarrow> b \<in> set bl \<and> is_sf b \<and> bp_addr b = a"
  by (auto simp: sf_at_def find_Some_iff)

lemma sf_at_snoc:
  "sf_at (bl @ [b]) a = (case sf_at bl a of Some b' \<Rightarrow> Some b' | None \<Rightarrow>
     if is_sf b \<and> bp_addr b = a then Some b else None)"
  unfolding sf_at_def by (induction bl) auto

lemma ucast_over_bytes: "ucast (over_bytes w [b]) = b"
  by (simp add: over_bytes_def ucast_le_word_Cons)

lemma mem_of_set_mem: "mem_of (set_mem t m) = (if t = None then (\<lambda>_. None) else m)"
  by (cases t) (auto simp: mem_of_def set_mem_def)

lemma le_bytes_8_Cons: "le_bytes 8 w = ucast w # le_bytes 7 (drop_bit 8 w)"
  by (simp add: numeral_eq_Suc)

lemma write_first_byte:
  "mapped_word m a \<Longrightarrow> write_pro_mem m a (b # bs) 1 = Some (0, m(a \<mapsto> b))"
  using write_pro_mem_mapped [of 1 "b # bs" m a] by (simp add: words_mapped_def)

lemma mapped_not_None: "mapped_word (mem_of t) a \<Longrightarrow> t \<noteq> None"
  by (cases t) (auto simp: mem_of_def mapped_word_iff dest: spec [of _ 0])

text \<open>Inserting a breakpoint at an accessible address keeps the table right.\<close>

lemma insert_table_ok:
  assumes tab: "table_ok orig (mem_of t) bl" and acc: "mapped_word (mem_of t) (bp_addr bp)"
  obtains t' bp' where
    "insert_INT3_bp t bp = Ret (0, t', bp', [Printf ''break %lx(%s)'' [Hex (bp_addr bp), Str (bp_name bp)]])"
    "table_ok orig (mem_of t') (bl @ [bp'])" "t' = set_mem t ((mem_of t)(bp_addr bp \<mapsto> INT_3))"
    "bp_addr bp' = bp_addr bp" "bp_name bp' = bp_name bp" "is_sf bp'"
proof -
  let ?m = "mem_of t" and ?a = "bp_addr bp"
  obtain c where c: "?m ?a = Some c" "read_pro_mem ?m ?a 1 = (0, [c])"
    using read_one_byte [OF acc] by blast
  let ?bp = "bp\<lparr>bp_type := SFBP, bp_orig_code := over_bytes (bp_orig_code bp) [c]\<rparr>"
  let ?m' = "?m(?a \<mapsto> INT_3)"
  have sf: "is_sf ?bp" by (simp add: is_sf_def SFBP_def)
  have ins: "insert_INT3_bp t bp = Ret (0, set_mem t ?m', ?bp,
      [Printf ''break %lx(%s)'' [Hex ?a, Str (bp_name bp)]])"
    by (simp add: insert_INT3_bp_def Let_def c(2) write_one_byte [OF acc])
  have m': "mem_of (set_mem t ?m') = ?m'" using mapped_not_None [OF acc] by (auto simp: mem_of_set_mem)
  have "table_ok orig ?m' (bl @ [?bp])"
    unfolding table_ok_def
  proof (intro conjI allI impI)
    fix x
    show "?m' x = (if sf_at (bl @ [?bp]) x = None then orig x else Some INT_3)"
      using tab sf by (auto simp: table_ok_def sf_at_snoc split: option.splits)
  next
    fix x b assume f: "sf_at (bl @ [?bp]) x = Some b"
    show "mapped_word ?m' x"
    proof (cases "sf_at bl x")
      case None
      then have "x = ?a" using f by (auto simp: sf_at_snoc split: if_splits)
      then show ?thesis using acc by (simp add: mapped_word_upd [OF acc])
    next
      case (Some b')
      then show ?thesis using tab by (auto simp: table_ok_def mapped_word_upd [OF acc])
    qed
    show "orig x = Some (ucast (bp_orig_code b))"
    proof (cases "sf_at bl x")
      case None
      then have "x = ?a" "b = ?bp" using f by (auto simp: sf_at_snoc split: if_splits)
      moreover have "?m x = orig x" using tab None by (auto simp: table_ok_def)
      ultimately show ?thesis using c(1) by (simp add: ucast_over_bytes)
    next
      case (Some b')
      then show ?thesis using f tab by (auto simp: table_ok_def sf_at_snoc)
    qed
  qed
  then show ?thesis using that [OF ins] m' sf by simp
qed

text \<open>What the single step runs on: the original instruction byte and the address of the breakpoint.\<close>

definition step_start :: "tracee \<Rightarrow> user_regs \<Rightarrow> pmem \<Rightarrow> u64 \<Rightarrow> tracee" where
  "step_start t regs orig a =
     t\<lparr>tr_mem := (tr_mem t)(a := orig a), tr_regs := regs\<lparr>reg_rip := a\<rparr>\<rparr>"

text \<open>The program's own view after a step: what it wrote, and the original bytes under the INT3s.\<close>

definition own_view :: "pmem \<Rightarrow> pmem \<Rightarrow> breakpoint list \<Rightarrow> pmem" where
  "own_view orig m bl = (\<lambda>a. if sf_at bl a = None then m a else orig a)"

lemma resume_table_ok:
  assumes tab: "table_ok orig (tr_mem t) bl" and bp: "sf_at bl a = Some bp"
    and step: "k_step K (step_start t regs orig a) = Some t2"
    and keeps: "\<And>b. b \<in> set bl \<Longrightarrow> is_sf b \<Longrightarrow>
        tr_mem t2 (bp_addr b) = tr_mem (step_start t regs orig a) (bp_addr b) \<and>
        mapped_word (tr_mem t2) (bp_addr b)"
  shows "resume_INT3_bp_next K (Some t) bp regs =
      Ret (0, Some (t2\<lparr>tr_mem := (tr_mem t2)(a \<mapsto> INT_3)\<rparr>), regs\<lparr>reg_rip := a\<rparr>)"
    and "table_ok (own_view orig (tr_mem t2) bl) ((tr_mem t2)(a \<mapsto> INT_3)) bl"
proof -
  have a: "bp_addr bp = a" "is_sf bp" "bp \<in> set bl" using sf_at_Some [OF bp] by auto
  have oc: "orig a = Some (ucast (bp_orig_code bp))" and acc: "mapped_word (tr_mem t) a"
    using tab bp by (auto simp: table_ok_def)
  have acc2: "mapped_word (tr_mem t2) a" using keeps [OF a(3,2)] a(1) by simp
  have "write_pro_mem (tr_mem t) a (le_bytes 8 (bp_orig_code bp)) 1 =
      Some (0, (tr_mem t)(a := orig a))"
    unfolding le_bytes_8_Cons using write_first_byte [OF acc] oc by simp
  then show "resume_INT3_bp_next K (Some t) bp regs =
      Ret (0, Some (t2\<lparr>tr_mem := (tr_mem t2)(a \<mapsto> INT_3)\<rparr>), regs\<lparr>reg_rip := a\<rparr>)"
    using a step write_one_byte [OF acc2, of INT_3]
    by (simp add: resume_INT3_bp_next_def is_sf_def mem_of_def set_mem_def step_start_def)
  show "table_ok (own_view orig (tr_mem t2) bl) ((tr_mem t2)(a \<mapsto> INT_3)) bl"
    unfolding table_ok_def
  proof (intro conjI allI impI)
    fix x
    show "((tr_mem t2)(a \<mapsto> INT_3)) x =
        (if sf_at bl x = None then own_view orig (tr_mem t2) bl x else Some INT_3)"
    proof (cases "sf_at bl x")
      case None
      then show ?thesis using bp by (auto simp: own_view_def)
    next
      case (Some b)
      then have b: "b \<in> set bl" "is_sf b" "bp_addr b = x" using sf_at_Some by auto
      have "tr_mem t x = Some INT_3" using tab Some by (simp add: table_ok_def)
      then show ?thesis using Some keeps [OF b(1,2)] b(3) by (simp add: step_start_def)
    qed
  next
    fix x b assume f: "sf_at bl x = Some b"
    then show "own_view orig (tr_mem t2) bl x = Some (ucast (bp_orig_code b))"
      using tab by (simp add: own_view_def table_ok_def)
    have "mapped_word (tr_mem t2) x" using keeps [of b] sf_at_Some [OF f] by auto
    then show "mapped_word ((tr_mem t2)(a \<mapsto> INT_3)) x" by (simp add: mapped_word_upd [OF acc2])
  qed
qed

subsection \<open>The two searches\<close>

lemma find_bp_found:
  "\<lbrakk>k \<le> length xs; find P (take k xs) = Some b\<rbrakk> \<Longrightarrow>
     \<exists>j < k. find_bp P xs i k = Ret (int (i + j)) \<and> xs ! j = b"
proof (induction P xs i k rule: find_bp.induct)
  case (3 P c xs i k)
  show ?case
  proof (cases "P c")
    case True
    then show ?thesis using 3 by auto
  next
    case False
    then obtain j where "j < k" "find_bp P xs (Suc i) k = Ret (int (Suc i + j))" "xs ! j = b"
      using 3 by auto
    then show ?thesis using False by (intro exI [of _ "Suc j"]) auto
  qed
qed auto

lemma find_bp_none:
  "\<lbrakk>k \<le> length xs; find P (take k xs) = None\<rbrakk> \<Longrightarrow> find_bp P xs i k = Ret (- 1)"
  by (induction P xs i k rule: find_bp.induct) (auto split: if_splits)

text \<open>An array whose element count fits an \<open>int\<close> and its slots.\<close>

definition counted :: "'a ngx_array \<Rightarrow> bool" where
  "counted a \<longleftrightarrow> unat (a_nelts a) < 2 ^ 31 \<and> unat (a_nelts a) \<le> length (a_slots a)"

lemma nelts_int:
  assumes "counted a" shows "nelts_int a = int (unat (a_nelts a))"
proof -
  have "unat (a_nelts a) < 2 ^ 31" using assms by (simp add: counted_def)
  then have "int (unat (a_nelts a)) < int (2 ^ 31)" by (simp only: of_nat_less_iff)
  then have "uint (a_nelts a) < 2 ^ 31" by simp
  moreover have "- (2 ^ 31) \<le> uint (a_nelts a)" by (rule order_trans [OF _ uint_ge_0]) simp
  ultimately have "signed_take_bit 31 (uint (a_nelts a)) = uint (a_nelts a)"
    by (intro signed_take_bit_int_eq_self)
  then show ?thesis by (simp add: nelts_int_def)
qed

lemma sf_pred: "(\<lambda>b. is_sf b \<and> bp_addr b = a) = (\<lambda>b. bp_type b AND SFBP \<noteq> 0 \<and> bp_addr b = a)"
  by (simp add: is_sf_def)

lemma find_current_SF_found:
  assumes a: "counted a" and b: "sf_at (array_list a) (reg_rip regs - 1) = Some b"
  obtains j where "j < length (a_slots a)" "find_current_SF_bp (Some a) regs = Ret (int j)" "a_slots a ! j = b"
proof -
  have le: "unat (a_nelts a) \<le> length (a_slots a)" using a by (simp add: counted_def)
  from find_bp_found [OF le b [unfolded sf_at_def sf_pred array_list_def], of 0] obtain j where
    "j < unat (a_nelts a)" "find_current_SF_bp (Some a) regs = Ret (int j)" "a_slots a ! j = b"
    by (auto simp: find_current_SF_bp_def nelts_int [OF a])
  then show ?thesis using that le by simp
qed

lemma find_current_SF_none:
  assumes a: "counted a" and n: "sf_at (array_list a) (reg_rip regs - 1) = None"
  shows "find_current_SF_bp (Some a) regs = Ret (- 1)"
proof -
  have le: "unat (a_nelts a) \<le> length (a_slots a)" using a by (simp add: counted_def)
  from find_bp_none [OF le n [unfolded sf_at_def sf_pred array_list_def], of 0] show ?thesis
    by (simp add: find_current_SF_bp_def nelts_int [OF a])
qed

lemma find_current_HW_Ret:
  assumes a: "counted a"
  obtains "find_current_HW_bp (Some a) regs = Ret (- 1)"
  | j where "j < length (a_slots a)" "find_current_HW_bp (Some a) regs = Ret (int j)"
proof -
  let ?P = "\<lambda>b. bp_type b AND HWBP \<noteq> 0 \<and> bp_addr b = reg_rip regs"
  have le: "unat (a_nelts a) \<le> length (a_slots a)" using a by (simp add: counted_def)
  have e: "find_current_HW_bp (Some a) regs = find_bp ?P (a_slots a) 0 (unat (a_nelts a))"
    by (simp add: find_current_HW_bp_def nelts_int [OF a])
  show ?thesis
  proof (cases "find ?P (take (unat (a_nelts a)) (a_slots a))")
    case None
    then show ?thesis using that(1) find_bp_none [OF le None] e by simp
  next
    case (Some b)
    from find_bp_found [OF le Some, of 0] that(2) e le show ?thesis by auto
  qed
qed

end
