(* ===== verification/Lowmem.thy ===== *)
theory Lowmem imports Array begin

text \<open>
  Two arrays side by side in one pool, in a heap of user-space addresses: what the debugger needs
  of the allocator so that pushing to one of its arrays keeps both.  User-space addresses end at
  \<open>2^47\<close> on x86-64, so no size or address computed here wraps.
\<close>

subsection \<open>User-space addresses\<close>

definition calloc_low :: "calloc_fn \<Rightarrow> bool" where
  "calloc_low f \<longleftrightarrow> (\<forall>c L n. f c L n = 0 \<or> unat (f c L n) + unat n \<le> 2 ^ 47)"

definition heap_low :: "sysheap \<Rightarrow> bool" where
  "heap_low h \<longleftrightarrow> (\<forall>e\<in>set (live h). unat (fst e) + unat (snd e) \<le> 2 ^ 47)"

lemma sys_calloc_low:
  assumes "calloc_low f" "heap_low h" "sys_calloc f h n = (a, h1)" shows "heap_low h1"
proof (cases "f (calls h) (live h) n = 0")
  case True
  then show ?thesis using assms by (auto simp: sys_calloc_def Let_def heap_low_def)
next
  case False
  then have "unat (f (calls h) (live h) n) + unat n \<le> 2 ^ 47" using assms(1) by (auto simp: calloc_low_def)
  then show ?thesis using assms False by (auto simp: sys_calloc_def Let_def heap_low_def)
qed

lemma sys_free_low: "heap_low h \<Longrightarrow> heap_low (sys_free h a)"
  by (auto simp: heap_low_def sys_free_def)

lemma block_low:
  assumes "calloc_low f" "heap_low h" "ngx_palloc_block f h p n = (a, h', p')" shows "heap_low h'"
proof -
  obtain m h1 where c: "sys_calloc f h (d_end (hd (p_chain p)) - d_base (hd (p_chain p))) = (m, h1)" by force
  then have "h' = h1" using assms(3) by (auto simp: ngx_palloc_block_def Let_def split: if_splits prod.splits)
  then show ?thesis using sys_calloc_low [OF assms(1,2) c] by simp
qed

lemma small_low:
  assumes "calloc_low f" "heap_low h" "ngx_palloc_small f h p n al = (a, h', p')" shows "heap_low h'"
  using assms block_low [OF assms(1,2)]
  by (cases "palloc_scan al n (drop (p_current p) (p_chain p)) (p_current p)")
    (auto simp: ngx_palloc_small_def)

lemma large_low:
  assumes "calloc_low f" "heap_low h" "ngx_palloc_large f h p n = (a, h', p')" shows "heap_low h'"
proof -
  obtain m h1 where c: "sys_calloc f h n = (m, h1)" by force
  have l1: "heap_low h1" by (rule sys_calloc_low [OF assms(1,2) c])
  obtain nd h2 p2 where s: "ngx_palloc_small f h1 p sizeof_pool_large True = (nd, h2, p2)"
    by (metis prod_cases3)
  have l2: "heap_low h2" by (rule small_low [OF assms(1) l1 s])
  have "h' = h1 \<or> h' = h2 \<or> h' = sys_free h2 m"
    using assms(3) c s by (auto simp: ngx_palloc_large_def push_large_def split: if_splits option.splits)
  then show ?thesis using l1 l2 sys_free_low by blast
qed

lemma palloc_low:
  assumes "calloc_low f" "heap_low h" "ngx_palloc f h p n = (a, h', p')" shows "heap_low h'"
  using assms(3) small_low [OF assms(1,2)] large_low [OF assms(1,2)]
  by (auto simp: ngx_palloc_def split: if_splits)

lemma pcalloc_low:
  assumes "calloc_low f" "heap_low h" "ngx_pcalloc f h p n = (a, h', p')" shows "heap_low h'"
proof -
  obtain b h1 p1 where 1: "ngx_palloc f h p n = (b, h1, p1)" by (metis prod_cases3)
  then have "live h' = live h1" using assms(3) by (auto simp: ngx_pcalloc_def split: if_splits)
  then show ?thesis using palloc_low [OF assms(1,2) 1] by (simp add: heap_low_def)
qed

lemma push_low:
  assumes "calloc_low f" "heap_low h" "ngx_array_push f h p a fresh = (e, h', p', a')"
  shows "heap_low h'"
proof -
  obtain m h1 p1 where 1: "ngx_palloc f h p (2 * (a_size a * a_nalloc a)) = (m, h1, p1)" by (metis prod_cases3)
  have "h' = h \<or> h' = h1" using assms(3) 1 by (auto simp: ngx_array_push_def Let_def split: if_splits)
  then show ?thesis using palloc_low [OF assms(1,2) 1] assms(2) by blast
qed

lemma create_low:
  assumes "calloc_low f" "heap_low h" "ngx_array_create f h p n sz fresh = (a, h', p')"
  shows "heap_low h'"
proof -
  obtain s h1 p1 where 1: "ngx_palloc f h p sizeof_array = (s, h1, p1)" by (metis prod_cases3)
  obtain m h2 p2 where 2: "ngx_palloc f h1 p1 (n * sz) = (m, h2, p2)" by (metis prod_cases3)
  have "h' = h1 \<or> h' = h2"
    using assms(3) 1 2 by (auto simp: ngx_array_create_def ngx_array_init_def Let_def split: if_splits)
  then show ?thesis using palloc_low [OF assms(1)] assms(2) 1 2 by blast
qed

lemma live_mem_low: "heap_low h \<Longrightarrow> x \<in> live_mem (live h) \<Longrightarrow> x < 2 ^ 47"
  unfolding heap_low_def live_mem_def span_def by fastforce

lemma array_low:
  assumes h: "heap_low h" and p: "pool_ok (live h) p" and a: "array_ok (pool_used (live h) p) a"
    and nz: "a_nalloc a \<noteq> 0"
  shows "unat (a_elts a) + unat (a_size a) * unat (a_nalloc a) \<le> 2 ^ 47"
proof -
  define k where "k = unat (a_size a) * unat (a_nalloc a)"
  have k: "0 < k" using a nz by (simp add: k_def array_ok_def unat_gt_0)
  then have "unat (a_elts a) + (k - 1) \<in> array_region a"
    unfolding array_region_def k_def [symmetric] by simp
  then have "unat (a_elts a) + (k - 1) < 2 ^ 47"
    using a pool_used_live [OF p] live_mem_low [OF h] unfolding array_ok_def by blast
  then show ?thesis using k unfolding k_def [symmetric] by linarith
qed

lemma first_end_low:
  assumes h: "heap_low h" and p: "pool_ok (live h) p"
  shows "unat (first_end p) \<le> 2 ^ 47"
proof -
  have "hd (p_chain p) \<in> set (p_chain p)" using p by (simp add: pool_ok_def)
  then have b: "block_ok (live h) (pool_psize p) (hd (p_chain p))" using p by (simp add: pool_ok_def)
  then have "unat (d_base (hd (p_chain p))) + unat (pool_psize p) \<le> 2 ^ 47"
    using h by (fastforce simp: block_ok_def heap_low_def)
  then show ?thesis using b by (simp add: first_end_def block_ok_def unat_add_u64)
qed

subsection \<open>Two arrays in one pool\<close>

definition arrays_ok :: "sysheap \<Rightarrow> ngx_pool \<Rightarrow> 'a ngx_array \<Rightarrow> 'b ngx_array \<Rightarrow> bool" where
  "arrays_ok h p a c \<longleftrightarrow> heap_ok h \<and> heap_low h \<and> pool_ok (live h) p \<and>
     array_ok (pool_used (live h) p) a \<and> array_ok (pool_used (live h) p) c \<and>
     array_region a \<inter> array_region c = {} \<and> a_nalloc a \<noteq> 0 \<and> a_nalloc c \<noteq> 0"

lemma arrays_ok_swap: "arrays_ok h p a c \<Longrightarrow> arrays_ok h p c a"
  by (auto simp: arrays_ok_def)

lemma pcalloc_arrays:
  assumes f: "calloc_ok f" "calloc_low f" and ok: "arrays_ok h p a c"
    and r: "ngx_pcalloc f h p n = (m, h', p')"
  shows "arrays_ok h' p' a c"
proof -
  have o: "heap_ok h" "heap_low h" "pool_ok (live h) p" using ok by (auto simp: arrays_ok_def)
  have post: "alloc_post h p n m h' p'" using alloc_post_pcalloc [OF f(1) o(1,3) r] by simp
  then have u: "pool_used (live h) p \<subseteq> pool_used (live h') p'" by (simp add: alloc_post_def)
  have "array_ok (pool_used (live h') p') a" "array_ok (pool_used (live h') p') c"
    using ok array_ok_mono [OF _ u] by (auto simp: arrays_ok_def)
  then show ?thesis
    using ok post pcalloc_low [OF f(2) o(2) r] by (simp add: arrays_ok_def alloc_post_def)
qed

lemma push_arrays:
  assumes f: "calloc_ok f" "calloc_low f" and ok: "arrays_ok h p a c"
    and r: "ngx_array_push f h p a fresh = (e, h', p', a')" and e: "e \<noteq> 0"
  shows "arrays_ok h' p' a' c" "push_post h p a 1 e h' p' a'"
proof -
  have o: "heap_ok h" "heap_low h" "pool_ok (live h) p" "array_ok (pool_used (live h) p) a"
    "a_nalloc a \<noteq> 0" using ok by (auto simp: arrays_ok_def)
  have lo: "unat (a_elts a) + unat (a_size a) * unat (a_nalloc a) \<le> 2 ^ 47"
    by (rule array_low [OF o(2-5)])
  then have "2 * (unat (a_size a) * unat (a_nalloc a)) \<le> 2 * 2 ^ 47" by linarith
  also have "\<dots> < (2 ^ 64 :: nat)" by simp
  finally have r1: "2 * unat (a_size a) * unat (a_nalloc a) < 2 ^ 64" unfolding mult.assoc .
  have "0 < unat (a_nalloc a)" using o(5) by (simp add: unat_gt_0)
  then have "unat (a_size a) \<le> unat (a_size a) * unat (a_nalloc a)" by simp
  then have "unat (first_end p) + unat (a_size a) \<le> 2 ^ 47 + 2 ^ 47"
    using lo first_end_low [OF o(2,3)] by linarith
  also have "\<dots> < (2 ^ 64 :: nat)" by simp
  finally have r2: "unat (first_end p) + unat (a_size a) < 2 ^ 64" .
  show post: "push_post h p a 1 e h' p' a'"
    using array_push_post [OF f(1) o(1,3,4,5) r1 r2 r] e by simp
  have c: "array_ok (pool_used (live h) p) c" "array_region a \<inter> array_region c = {}" "a_nalloc c \<noteq> 0"
    using ok by (auto simp: arrays_ok_def)
  have "array_region c \<subseteq> pool_used (live h) p - array_region a" using c by (auto simp: array_ok_def)
  then have "array_region a' \<inter> array_region c = {}" using post by (auto simp: push_post_def)
  moreover have "unat (a_nalloc a') \<noteq> 0" using post by (auto simp: push_post_def array_ok_def)
  then have "a_nalloc a' \<noteq> 0" by auto
  moreover have "array_ok (pool_used (live h') p') c"
    using c(1) post by (intro array_ok_mono [OF c(1)]) (simp add: push_post_def)
  ultimately show "arrays_ok h' p' a' c"
    using post c push_low [OF f(2) o(2) r] by (simp add: arrays_ok_def push_post_def)
qed

lemma store_last_arrays: "arrays_ok h p (store_last a x) c = arrays_ok h p a c"
  by (simp add: arrays_ok_def array_ok_def array_region_def store_last_def)

lemma clear_arrays: "arrays_ok h p a c \<Longrightarrow> arrays_ok h p (a\<lparr>a_nelts := 0\<rparr>) c"
proof -
  assume ok: "arrays_ok h p a c"
  have "array_region (a\<lparr>a_nelts := 0\<rparr>) = array_region a" by (simp add: array_region_def)
  moreover have "array_ok U (a\<lparr>a_nelts := 0\<rparr>)" if "array_ok U a" for U
    using that by (simp add: array_ok_def array_region_def)
  ultimately show ?thesis using ok by (simp add: arrays_ok_def)
qed

subsection \<open>An allocator of user-space addresses, for concrete runs\<close>

definition low_calloc :: "calloc_fn \<Rightarrow> calloc_fn" where
  "low_calloc f c L n = (let a = f c L n in if uint a + uint n \<le> 2 ^ 47 then a else 0)"

lemma low_calloc_cases: "low_calloc f c L n = 0 \<or>
    low_calloc f c L n = f c L n \<and> unat (f c L n) + unat n \<le> 2 ^ 47"
proof (cases "uint (f c L n) + uint n \<le> 2 ^ 47")
  case True
  then have "int (unat (f c L n) + unat n) \<le> int (2 ^ 47)" by simp
  then have "unat (f c L n) + unat n \<le> 2 ^ 47" by (simp only: of_nat_le_iff)
  then show ?thesis using True by (simp add: low_calloc_def Let_def)
next
  case False
  then show ?thesis by (simp add: low_calloc_def Let_def)
qed

lemma low_calloc_low: "calloc_low (low_calloc f)"
  unfolding calloc_low_def using low_calloc_cases by metis

lemma low_calloc_ok: "calloc_ok f \<Longrightarrow> calloc_ok (low_calloc f)"
  unfolding calloc_ok_def using low_calloc_cases [of f] by (metis (no_types))

lemma empty_heap_low: "heap_low empty_heap"
  by (simp add: heap_low_def empty_heap_def)

end
