(* ===== verification/Command.thy ===== *)
theory Command imports Dbug Lowmem begin

text \<open>
  The commands (\<open>command.c\<close>) and the main loop (\<open>main.c\<close>): reading a line and splitting it into the
  \<open>cmd\<close> array, looking the first word up in the command table, and the handlers.
\<close>

subsection \<open>Handlers\<close>

text \<open>\<open>arg\<close> is the array of the command's words; its slots past the last word keep older words.\<close>

definition slot :: "'a ngx_array \<Rightarrow> nat \<Rightarrow> ('a \<Rightarrow> 'b outcome) \<Rightarrow> 'b outcome" where
  "slot a i g = (if i < length (a_slots a) then g (a_slots a ! i) else Crash)"

text \<open>\<open>ngx_array_push\<close> on the breakpoint array, with a store through the pointer it returns.\<close>

definition push_bp :: "kernel \<Rightarrow> dbug_struct \<Rightarrow> (breakpoint \<Rightarrow> dbug_struct \<Rightarrow> 'b outcome) \<Rightarrow> 'b outcome" where
  "push_bp K d g =
     need (d_pool d) (\<lambda>p. need (d_bps d) (\<lambda>a.
       let (e, h, p', a') = ngx_array_push (k_calloc K) (d_heap d) p a zero_bp;
           d' = d\<lparr>d_heap := h, d_pool := Some p', d_bps := Some a'\<rparr>
       in if e = 0 then Crash else slot a' (unat (a_nelts a')  - 1) (\<lambda>bp. g bp d')))"

definition set_bp :: "breakpoint \<Rightarrow> dbug_struct \<Rightarrow> dbug_struct" where
  "set_bp bp d = d\<lparr>d_bps := map_option (\<lambda>a. store_last a bp) (d_bps d)\<rparr>"

text \<open>What \<open>command_break\<close> does with the new entry, for the function at \<open>index\<close>.\<close>

definition break_at :: "nat \<Rightarrow> breakpoint \<Rightarrow> dbug_struct \<Rightarrow> (int \<times> dbug_struct) outcome" where
  "break_at index bp d =
     need (d_funs d) (\<lambda>funs.
       let fn = fdata funs ! index;
           bp1 = bp\<lparr>bp_name := Some (fname fn), bp_addr := faddr fn\<rparr>
       in obind (insert_INT3_bp (d_proc d) bp1) (\<lambda>(rc, t, bp2, os).
            Ret (0, say os (set_bp bp2 (d\<lparr>d_proc := t\<rparr>)))))"

definition command_break :: "kernel \<Rightarrow> dbug_struct \<Rightarrow> ngx_str ngx_array \<Rightarrow> (int \<times> dbug_struct) outcome" where
  "command_break K d arg =
     slot arg 1 (\<lambda>str1.
       need (find_func (d_funs d) (s_data str1)) (\<lambda>index.
         if index = - 1 then Ret (- 1, d) else push_bp K d (break_at (nat index))))"

text \<open>The two parts of \<open>command_continue\<close> that follow a SIGTRAP.\<close>

definition trigger_SF :: "kernel \<Rightarrow> breakpoint ngx_array \<Rightarrow> int \<Rightarrow> dbug_struct \<Rightarrow> dbug_struct outcome" where
  "trigger_SF K bps index d =
     (if index \<noteq> - 1 then
        slot bps (nat index) (\<lambda>bp.
          obind (resume_INT3_bp_next K (d_proc d) bp (d_regs d)) (\<lambda>(rc, t, regs).
            Ret (say [Printf ''trigger breakpoint %lx(%s)'' [Hex (bp_addr bp), Str (bp_name bp)]]
                   (d\<lparr>d_proc := t, d_regs := regs\<rparr>))))
      else Ret d)"

definition trigger_HW :: "breakpoint ngx_array \<Rightarrow> int \<Rightarrow> dbug_struct \<Rightarrow> (int \<times> dbug_struct) outcome" where
  "trigger_HW bps index d =
     (if index \<noteq> - 1 then
        slot bps (nat index) (\<lambda>bp.
          Ret (0, say [Printf ''trigger HW breakpoint %lx'' [Hex (bp_addr bp)]] d))
      else Ret (0, d))"

definition continue_proc :: "kernel \<Rightarrow> dbug_struct \<Rightarrow> dbug_struct" where
  "continue_proc K d =
     (case d_proc d of
        None \<Rightarrow> say [Perror ''ptrace cont err''] d
      | Some t \<Rightarrow> (case k_cont K t of (t', st) \<Rightarrow> d\<lparr>d_proc := t', d_status := st\<rparr>))"

definition get_regs :: "dbug_struct \<Rightarrow> dbug_struct" where
  "get_regs d = (case d_proc d of None \<Rightarrow> d | Some t \<Rightarrow> d\<lparr>d_regs := tr_regs t\<rparr>)"

definition command_continue :: "kernel \<Rightarrow> dbug_struct \<Rightarrow> ngx_str ngx_array \<Rightarrow> (int \<times> dbug_struct) outcome" where
  "command_continue K d arg =
     need (d_bps d) (\<lambda>bps.
       let d1 = continue_proc K d
       in if WIFEXITED (d_status d1) then Exit 0 (d_out d1)
          else
            let d2 = get_regs d1
            in if WSTOPSIG (d_status d2) = SIGTRAP then
                 obind (find_current_SF_bp (d_bps d2) (d_regs d2)) (\<lambda>index.
                   obind (trigger_SF K bps index d2) (\<lambda>d3.
                     obind (find_current_HW_bp (d_bps d3) (d_regs d3)) (\<lambda>index2.
                       trigger_HW bps index2 d3)))
               else Ret (0, d2))"

text \<open>\<open>foreach_fun\<close> prints the function table.\<close>

definition foreach_fun :: "fun_arr option \<Rightarrow> out list" where
  "foreach_fun funs =
     (case funs of
        None \<Rightarrow> []
      | Some fs \<Rightarrow> map (\<lambda>i. Printf ''%-3d func:%-25s addr:%lx''
          [Dec (int i), Str (Some (fname (fdata fs ! i))), Hex (faddr (fdata fs ! i))]) [0..<length (fdata fs)])"

definition command_show :: "dbug_struct \<Rightarrow> ngx_str ngx_array \<Rightarrow> (int \<times> dbug_struct) outcome" where
  "command_show d arg = Ret (0, say (foreach_fun (d_funs d)) d)"

text \<open>\<open>kill\<close> of the traced process, then \<open>exit(0)\<close>.\<close>

definition command_exit :: "dbug_struct \<Rightarrow> ngx_str ngx_array \<Rightarrow> (int \<times> dbug_struct) outcome" where
  "command_exit d arg = Exit 0 (d_out d @ [Kill (d_pid d)])"

fun print_bps :: "breakpoint list \<Rightarrow> nat \<Rightarrow> nat \<Rightarrow> out list outcome" where
  "print_bps xs i 0 = Ret []"
| "print_bps [] i (Suc k) = Crash"
| "print_bps (b # xs) i (Suc k) =
     obind (print_bps xs (Suc i) k) (\<lambda>os. Ret (Printf ''%4d %lx'' [Dec (int i), Hex (bp_addr b)] # os))"

definition command_showbps :: "dbug_struct \<Rightarrow> ngx_str ngx_array \<Rightarrow> (int \<times> dbug_struct) outcome" where
  "command_showbps d arg =
     need (d_bps d) (\<lambda>bps. obind (print_bps (a_slots bps) 0 (nat (nelts_int bps))) (\<lambda>os. Ret (0, say os d)))"

text \<open>
  \<open>argv[i] = str[i+1].data\<close> for every \<open>i < nelts\<close>: the last one comes from the slot after the last
  word.
\<close>

definition command_dbug :: "kernel \<Rightarrow> dbug_struct \<Rightarrow> ngx_str ngx_array \<Rightarrow> (int \<times> dbug_struct) outcome" where
  "command_dbug K d arg =
     need (d_pool d) (\<lambda>p.
       let (a, h, p') = ngx_pcalloc (k_calloc K) (d_heap d) p (8 * a_nelts arg);
           d1 = d\<lparr>d_heap := h, d_pool := Some p'\<rparr>;
           n = unat (a_nelts arg)
       in if n \<noteq> 0 \<and> a = 0 then Crash
          else slot arg (max n 1) (\<lambda>_.
            let argv = map (\<lambda>i. s_data (a_slots arg ! (i + 1))) [0..<n]
            in obind (dbug_pro K d1 (s_data (a_slots arg ! 1)) argv) (\<lambda>(rc, d2). Ret (0, d2))))"

text \<open>\<open>atoi\<close>: \<open>strtol\<close> in base 10, which saturates, cut to an \<open>int\<close>.\<close>

definition is_digit :: "u8 \<Rightarrow> bool" where "is_digit c \<longleftrightarrow> 0x30 \<le> c \<and> c \<le> 0x39"

definition dec_number :: "bytes \<Rightarrow> int" where
  "dec_number ds = foldl (\<lambda>v c. 10 * v + (uint c - 0x30)) 0 ds"

definition c_atoi :: "bytes \<Rightarrow> int" where
  "c_atoi s =
     (let s1 = dropWhile isspace s;
          (neg, s2) = (case s1 of c # r \<Rightarrow> if c = 0x2d then (True, r) else if c = 0x2b then (False, r) else (False, s1)
                              | [] \<Rightarrow> (False, []));
          v = dec_number (takeWhile is_digit s2);
          l = max (- (2 ^ 63)) (min (2 ^ 63 - 1) (if neg then - v else v))
      in signed_take_bit 31 l)"

definition command_attach :: "kernel \<Rightarrow> dbug_struct \<Rightarrow> ngx_str ngx_array \<Rightarrow> (int \<times> dbug_struct) outcome" where
  "command_attach K d arg =
     slot arg 1 (\<lambda>str1. need (s_data str1) (\<lambda>s.
       obind (attach_pro K d (c_atoi (cstr s))) (\<lambda>(rc, d1). Ret (0, d1))))"

definition command_showreg :: "dbug_struct \<Rightarrow> ngx_str ngx_array \<Rightarrow> (int \<times> dbug_struct) outcome" where
  "command_showreg d arg =
     (let d1 = (case d_proc d of
                  None \<Rightarrow> say [Perror ''PTRACE_GETREGS err''] d
                | Some t \<Rightarrow> d\<lparr>d_regs := tr_regs t\<rparr>);
          reg = d_regs d1;
          pr = (\<lambda>nm v. Printf (nm @ '':0x%llx'') [Hex v])
      in Ret (0, say [pr ''r15'' (reg_r15 reg), pr ''r14'' (reg_r14 reg), pr ''r13'' (reg_r13 reg),
           pr ''r12'' (reg_r12 reg), pr ''rbp'' (reg_rbp reg), pr ''rbx'' (reg_rbx reg),
           pr ''r11'' (reg_r11 reg), pr ''r10'' (reg_r10 reg), pr ''r9'' (reg_r9 reg),
           pr ''r8'' (reg_r8 reg), pr ''rax'' (reg_rax reg), pr ''rcx'' (reg_rcx reg),
           pr ''rdx'' (reg_rdx reg), pr ''rsi'' (reg_rsi reg), pr ''rdi'' (reg_rdi reg),
           pr ''orig_rax'' (reg_orig_rax reg), pr ''rip'' (reg_rip reg), pr ''cs'' (reg_cs reg),
           pr ''eflags'' (reg_eflags reg), pr ''rsp'' (reg_rsp reg), pr ''ss'' (reg_ss reg),
           pr ''fs_base'' (reg_fs_base reg), pr ''gs_base'' (reg_gs_base reg), pr ''ds'' (reg_ds reg),
           pr ''es'' (reg_es reg), pr ''fs'' (reg_fs reg), pr ''gs'' (reg_gs reg)] d1))"

definition watch_at :: "kernel \<Rightarrow> cptr option \<Rightarrow> breakpoint \<Rightarrow> dbug_struct \<Rightarrow> (int \<times> dbug_struct) outcome" where
  "watch_at K arg bp d =
     need arg (\<lambda>s.
       let bp1 = (case scan_lx (cstr s) of None \<Rightarrow> bp | Some v \<Rightarrow> bp\<lparr>bp_addr := v\<rparr>);
           (rc, t, bp2, os) = insert_hard_break K (d_proc d) bp1
       in Ret (0, say (Printf ''watch %lx'' [Hex (bp_addr bp1)] # os) (set_bp bp2 (d\<lparr>d_proc := t\<rparr>))))"

definition command_watch :: "kernel \<Rightarrow> dbug_struct \<Rightarrow> ngx_str ngx_array \<Rightarrow> (int \<times> dbug_struct) outcome" where
  "command_watch K d arg = slot arg 1 (\<lambda>str1. push_bp K d (watch_at K (s_data str1)))"

subsection \<open>Reading a command\<close>

text \<open>\<open>fgets(buf, n, stdin)\<close>: the bytes read (none at the end of the input) and the input left.\<close>

definition fgets :: "nat \<Rightarrow> bytes \<Rightarrow> bytes \<times> bytes" where
  "fgets n s =
     (let l = takeWhile (\<lambda>c. c \<noteq> 0x0a) s;
          r = take (n - 1) (l @ take 1 (drop (length l) s))
      in (r, drop (length r) s))"

fun find_space :: "bytes \<Rightarrow> nat option" where
  "find_space [] = None"
| "find_space (c # cs) = (if isspace c then Some 0 else map_option Suc (find_space cs))"

text \<open>A word and its NUL in memory of the pool, and its entry in the array of words.\<close>

definition push_word :: "kernel \<Rightarrow> dbug_struct \<Rightarrow> bytes \<Rightarrow> dbug_struct outcome" where
  "push_word K d w =
     need (d_pool d) (\<lambda>p. need (d_cmd d) (\<lambda>cmds.
       let (a, h, p1) = ngx_pcalloc (k_calloc K) (d_heap d) p (of_nat (length w + 1))
       in if a = 0 then Crash
          else
            let p_data = w @ [0];
                (e, h2, p2, cmds') = ngx_array_push (k_calloc K) h p1 cmds zero_str
            in if e = 0 then Crash
               else Ret (d\<lparr>d_heap := h2, d_pool := Some p2,
                 d_cmd := Some (store_last cmds' \<lparr>s_len = of_nat (length (cstr p_data)), s_data = Some p_data\<rparr>)\<rparr>)))"

text \<open>The loop over the line from position \<open>i\<close> on; the argument is what is left of it.\<close>

function word_loop :: "kernel \<Rightarrow> dbug_struct \<Rightarrow> bytes \<Rightarrow> dbug_struct outcome" where
  "word_loop K d [] = Ret d"
| "word_loop K d (c # s) =
     (if c = 0x20 then word_loop K d s
      else case find_space (c # s) of
             None \<Rightarrow> word_loop K d s
           | Some k \<Rightarrow> obind (push_word K d (take k (c # s))) (\<lambda>d1. word_loop K d1 (drop (Suc k) (c # s))))"
  by pat_completeness auto
termination
  by (relation "measure (\<lambda>(K, d, s). length s)") auto

definition get_command :: "kernel \<Rightarrow> dbug_struct \<Rightarrow> (int \<times> dbug_struct) outcome" where
  "get_command K d =
     (let (line, rest) = fgets 50 (d_stdin d);
          d1 = say [Putc 0x3e] (d\<lparr>d_stdin := rest\<rparr>)
      in need (d_cmd d1) (\<lambda>cmds.
           obind (word_loop K (d1\<lparr>d_cmd := Some (cmds\<lparr>a_nelts := 0\<rparr>)\<rparr>) (cstr line)) (\<lambda>d2. Ret (0, d2))))"

subsection \<open>The command table\<close>

datatype command_fun = Command_break | Command_continue | Command_show | Command_dbug
  | Command_attach | Command_showreg | Command_watch | Command_exit | Command_showbps

definition cmd_set :: "(bytes \<times> command_fun) list" where
  "cmd_set = [(ascii ''b'', Command_break), (ascii ''c'', Command_continue), (ascii ''show'', Command_show),
     (ascii ''dbug'', Command_dbug), (ascii ''attach'', Command_attach), (ascii ''showreg'', Command_showreg),
     (ascii ''watch'', Command_watch), (ascii ''q'', Command_exit), (ascii ''exit'', Command_exit),
     (ascii ''quit'', Command_exit), (ascii ''showbps'', Command_showbps)]"

fun run_command :: "kernel \<Rightarrow> command_fun \<Rightarrow> dbug_struct \<Rightarrow> ngx_str ngx_array \<Rightarrow> (int \<times> dbug_struct) outcome" where
  "run_command K Command_break d arg = command_break K d arg"
| "run_command K Command_continue d arg = command_continue K d arg"
| "run_command K Command_show d arg = command_show d arg"
| "run_command K Command_dbug d arg = command_dbug K d arg"
| "run_command K Command_attach d arg = command_attach K d arg"
| "run_command K Command_showreg d arg = command_showreg d arg"
| "run_command K Command_watch d arg = command_watch K d arg"
| "run_command K Command_exit d arg = command_exit d arg"
| "run_command K Command_showbps d arg = command_showbps d arg"

text \<open>The loop over the table.  \<open>Ret None\<close> when no name matches.\<close>

fun find_command :: "(bytes \<times> command_fun) list \<Rightarrow> ngx_str \<Rightarrow> command_fun option outcome" where
  "find_command [] str = Ret None"
| "find_command ((nm, f) # cs) str =
     (if s_len str = of_nat (length nm) then
        need (s_data str) (\<lambda>s. need (memcmp s (nm @ [0]) (length nm)) (\<lambda>c.
          if c = 0 then Ret (Some f) else find_command cs str))
      else find_command cs str)"

definition play_command :: "kernel \<Rightarrow> dbug_struct \<Rightarrow> (int \<times> dbug_struct) outcome" where
  "play_command K d =
     need (d_cmd d) (\<lambda>cmds.
       slot cmds 0 (\<lambda>str.
         obind (find_command cmd_set str) (\<lambda>r.
           case r of
             Some f \<Rightarrow> obind (run_command K f d cmds) (\<lambda>(rc, d1). Ret (0, d1))
           | None \<Rightarrow> Ret (- 1, say [Printf ''not command %s'' [Str (s_data str)]] d))))"

text \<open>\<open>main\<close>: the endless loop, \<open>n\<close> rounds of it.\<close>

fun rounds :: "kernel \<Rightarrow> nat \<Rightarrow> dbug_struct \<Rightarrow> dbug_struct outcome" where
  "rounds K 0 d = Ret d"
| "rounds K (Suc n) d =
     obind (get_command K d) (\<lambda>(r1, d1). obind (play_command K d1) (\<lambda>(r2, d2). rounds K n d2))"

definition main_loop :: "kernel \<Rightarrow> nat \<Rightarrow> dbug_struct \<Rightarrow> dbug_struct outcome" where
  "main_loop K n d = obind (init_dbug K d) (\<lambda>(rc, d1). rounds K n d1)"

subsection \<open>The memory invariant\<close>

definition dbug_ok :: "kernel \<Rightarrow> dbug_struct \<Rightarrow> bool" where
  "dbug_ok K d \<longleftrightarrow> calloc_ok (k_calloc K) \<and> calloc_low (k_calloc K) \<and>
     (\<exists>p a c. d_pool d = Some p \<and> d_bps d = Some a \<and> d_cmd d = Some c \<and> arrays_ok (d_heap d) p a c)"

text \<open>The breakpoints and the words of the current command.\<close>

definition bp_list :: "dbug_struct \<Rightarrow> breakpoint list" where
  "bp_list d = (case d_bps d of None \<Rightarrow> [] | Some a \<Rightarrow> array_list a)"

definition word_list :: "dbug_struct \<Rightarrow> ngx_str list" where
  "word_list d = (case d_cmd d of None \<Rightarrow> [] | Some c \<Rightarrow> array_list c)"

lemma dbug_okE:
  assumes "dbug_ok K d"
  obtains p a c where "d_pool d = Some p" "d_bps d = Some a" "d_cmd d = Some c"
    "arrays_ok (d_heap d) p a c" "calloc_ok (k_calloc K)" "calloc_low (k_calloc K)"
  using assms by (auto simp: dbug_ok_def)

lemma dbug_ok_same:
  "dbug_ok K d \<Longrightarrow> d_pool d' = d_pool d \<Longrightarrow> d_bps d' = d_bps d \<Longrightarrow> d_cmd d' = d_cmd d \<Longrightarrow>
   d_heap d' = d_heap d \<Longrightarrow> dbug_ok K d'"
  by (simp add: dbug_ok_def)

lemma say_simps [simp]:
  "d_pool (say os d) = d_pool d" "d_bps (say os d) = d_bps d" "d_cmd (say os d) = d_cmd d"
  "d_heap (say os d) = d_heap d" "d_proc (say os d) = d_proc d" "d_regs (say os d) = d_regs d"
  "d_funs (say os d) = d_funs d" "d_stdin (say os d) = d_stdin d" "d_out (say os d) = d_out d @ os"
  "d_status (say os d) = d_status d" "d_pid (say os d) = d_pid d"
  by (simp_all add: say_def)

lemma obind_Ret_iff: "obind x g = Ret r \<longleftrightarrow> (\<exists>y. x = Ret y \<and> g y = Ret r)"
  by (cases x) auto

lemma need_Ret_iff: "need x g = Ret r \<longleftrightarrow> (\<exists>y. x = Some y \<and> g y = Ret r)"
  by (cases x) auto

lemma slot_Ret_iff: "slot a i g = Ret r \<longleftrightarrow> i < length (a_slots a) \<and> g (a_slots a ! i) = Ret r"
  by (simp add: slot_def)

lemmas Ret_iffs = obind_Ret_iff need_Ret_iff slot_Ret_iff

text \<open>A new entry of the breakpoint table.\<close>

lemma push_bp_Ret:
  assumes ok: "dbug_ok K d" and r: "push_bp K d g = Ret x"
  obtains bp d1 where "g bp d1 = Ret x" "dbug_ok K d1" "\<And>b. bp_list (set_bp b d1) = bp_list d @ [b]"
    "d_proc d1 = d_proc d" "d_funs d1 = d_funs d" "d_out d1 = d_out d" "word_list d1 = word_list d"
    "d_cmd d1 = d_cmd d" "d_regs d1 = d_regs d"
proof -
  obtain p a c where d: "d_pool d = Some p" "d_bps d = Some a" "d_cmd d = Some c"
    and ar: "arrays_ok (d_heap d) p a c" and f: "calloc_ok (k_calloc K)" "calloc_low (k_calloc K)"
    by (rule dbug_okE [OF ok])
  obtain e h p' a' where u: "ngx_array_push (k_calloc K) (d_heap d) p a zero_bp = (e, h, p', a')"
    by (metis prod_cases4)
  let ?d1 = "d\<lparr>d_heap := h, d_pool := Some p', d_bps := Some a'\<rparr>"
  have e: "e \<noteq> 0" and g: "g (a_slots a' ! (unat (a_nelts a') - 1)) ?d1 = Ret x"
    using r d u by (auto simp: push_bp_def Ret_iffs split: if_splits)
  note pa = push_arrays [OF f ar u e]
  have "dbug_ok K ?d1" using pa(1) f d by (simp add: dbug_ok_def)
  moreover have "bp_list (set_bp b ?d1) = bp_list d @ [b]" for b
    using push_post_store [OF pa(2)] d by (simp add: bp_list_def set_bp_def)
  ultimately show ?thesis using that g d by (simp add: word_list_def)
qed

lemma set_bp_ok: "dbug_ok K d \<Longrightarrow> dbug_ok K (set_bp b d)"
  by (auto simp: dbug_ok_def set_bp_def store_last_arrays)

lemma set_bp_simps [simp]:
  "d_pool (set_bp b d) = d_pool d" "d_cmd (set_bp b d) = d_cmd d" "d_heap (set_bp b d) = d_heap d"
  "d_proc (set_bp b d) = d_proc d" "d_out (set_bp b d) = d_out d" "d_regs (set_bp b d) = d_regs d"
  by (simp_all add: set_bp_def)

lemma init_ok:
  assumes f: "calloc_ok (k_calloc K)" "calloc_low (k_calloc K)" and h: "heap_ok (d_heap d)" "heap_low (d_heap d)"
    and r: "init_dbug K d = Ret (rc, d')" and made: "d_bps d' \<noteq> None" "d_cmd d' \<noteq> None"
  shows "dbug_ok K d' \<and> bp_list d' = [] \<and> word_list d' = []"
proof -
  obtain p0 h0 where 0: "ngx_create_pool (k_calloc K) (d_heap d) 4096 = (p0, h0)" by force
  obtain p where p: "p0 = Some p" using r 0 by (auto simp: init_dbug_def Ret_iffs)
  obtain bps h1 p1 where 1: "ngx_array_create (k_calloc K) h0 p 10 sizeof_breakpoint zero_bp = (bps, h1, p1)"
    by (metis prod_cases3)
  obtain cmd h2 p2 where 2: "ngx_array_create (k_calloc K) h1 p1 10 sizeof_str zero_str = (cmd, h2, p2)"
    by (metis prod_cases3)
  have d': "d' = d\<lparr>d_pool := Some p2, d_bps := bps, d_cmd := cmd, d_heap := h2\<rparr>"
    using r 0 1 2 p by (simp add: init_dbug_def)
  obtain a c where ac: "bps = Some a" "cmd = Some c" using made d' by auto
  note ok0 = create_post [OF f(1) h(1) _ _ 0 [unfolded p]]
  have l0: "heap_low h0"
    using 0 sys_calloc_low [OF f(2) h(2)] by (auto simp: ngx_create_pool_def Let_def split: prod.splits if_splits)
  note c1 = array_create_post [OF f(1) ok0(1,2) _ _ 1 [unfolded ac]]
  have ok1: "heap_ok h1" "pool_ok (live h1) p1" "array_ok (pool_used (live h1) p1) a" "array_list a = []"
    "a_nalloc a \<noteq> 0" using c1 by (simp_all add: sizeof_breakpoint_def)
  note c2 = array_create_post [OF f(1) ok1(1,2) _ _ 2 [unfolded ac]]
  have ok2: "heap_ok h2" "pool_ok (live h2) p2" "array_ok (pool_used (live h2) p2) c" "array_list c = []"
    "a_nalloc c \<noteq> 0" "pool_used (live h1) p1 \<subseteq> pool_used (live h2) p2"
    "array_region c \<inter> pool_used (live h1) p1 = {}" using c2 by (simp_all add: sizeof_str_def)
  have "array_region a \<inter> array_region c = {}" using ok1(3) ok2(7) by (auto simp: array_ok_def)
  moreover have "heap_low h2" by (rule create_low [OF f(2) create_low [OF f(2) l0 1] 2])
  ultimately have "arrays_ok h2 p2 a c"
    using ok1 ok2 array_ok_mono [OF ok1(3) ok2(6)] by (simp add: arrays_ok_def)
  then show ?thesis
    using f ok1(4) ok2(4) by (simp add: dbug_ok_def d' ac bp_list_def word_list_def)
qed

subsection \<open>Reading words\<close>

text \<open>The entry for a word.\<close>

definition str_of :: "bytes \<Rightarrow> ngx_str" where
  "str_of w = \<lparr>s_len = of_nat (length w), s_data = Some (w @ [0])\<rparr>"

lemma push_word_eq:
  assumes "0 \<notin> set w" and d: "d_pool d = Some p" "d_cmd d = Some c"
    and 1: "ngx_pcalloc (k_calloc K) (d_heap d) p (of_nat (length w + 1)) = (m, h1, p1)"
    and 2: "ngx_array_push (k_calloc K) h1 p1 c zero_str = (e, h2, p2, c')"
  shows "push_word K d w = (if m = 0 \<or> e = 0 then Crash
    else Ret (d\<lparr>d_heap := h2, d_pool := Some p2, d_cmd := Some (store_last c' (str_of w))\<rparr>))"
proof -
  have "cstr (w @ [0]) = w" using assms(1) by (rule cstr_append_NUL)
  then show ?thesis
    unfolding push_word_def d need.simps 1 Let_def split_conv 2 str_of_def by simp
qed

lemma push_word_Ret:
  assumes ok: "dbug_ok K d" and w: "0 \<notin> set w" and r: "push_word K d w = Ret d'"
  shows "dbug_ok K d' \<and> word_list d' = word_list d @ [str_of w] \<and> d_bps d' = d_bps d \<and>
    d_proc d' = d_proc d \<and> d_stdin d' = d_stdin d \<and> d_out d' = d_out d \<and> d_funs d' = d_funs d \<and>
    d_regs d' = d_regs d"
proof -
  obtain p a c where d: "d_pool d = Some p" "d_bps d = Some a" "d_cmd d = Some c"
    and ar: "arrays_ok (d_heap d) p a c" and f: "calloc_ok (k_calloc K)" "calloc_low (k_calloc K)"
    by (rule dbug_okE [OF ok])
  obtain m h1 p1 where 1: "ngx_pcalloc (k_calloc K) (d_heap d) p (of_nat (length w + 1)) = (m, h1, p1)"
    by (metis prod_cases3)
  obtain e h2 p2 c' where 2: "ngx_array_push (k_calloc K) h1 p1 c zero_str = (e, h2, p2, c')"
    by (metis prod_cases4)
  have e: "e \<noteq> 0" and d': "d' = d\<lparr>d_heap := h2, d_pool := Some p2, d_cmd := Some (store_last c' (str_of w))\<rparr>"
    using r unfolding push_word_eq [OF w d(1,3) 1 2] by (simp_all split: if_split_asm)
  have "arrays_ok h1 p1 c a" by (rule arrays_ok_swap [OF pcalloc_arrays [OF f ar 1]])
  note pa = push_arrays [OF f this 2 e]
  have "arrays_ok h2 p2 a (store_last c' (str_of w))"
    by (rule arrays_ok_swap) (simp add: store_last_arrays pa(1))
  moreover have "array_list (store_last c' (str_of w)) = array_list c @ [str_of w]"
    by (rule push_post_store [OF pa(2)])
  ultimately show ?thesis using f d by (simp add: dbug_ok_def d' word_list_def)
qed

lemma word_loop_ok:
  "\<lbrakk>word_loop K d s = Ret d'; dbug_ok K d; 0 \<notin> set s\<rbrakk> \<Longrightarrow> dbug_ok K d' \<and> d_bps d' = d_bps d \<and>
    d_proc d' = d_proc d \<and> d_stdin d' = d_stdin d \<and> d_out d' = d_out d \<and> d_funs d' = d_funs d \<and>
    d_regs d' = d_regs d"
proof (induction K d s arbitrary: d' rule: word_loop.induct)
  case (2 K d c s)
  show ?case
  proof (cases "c = 0x20 \<or> find_space (c # s) = None")
    case True
    then have "word_loop K d s = Ret d'" using "2.prems" by (auto split: if_splits)
    then show ?thesis using True "2.IH"(1,2) "2.prems" by (cases "c = 0x20") auto
  next
    case False
    then obtain k where k: "find_space (c # s) = Some k" by auto
    with False "2.prems" obtain d1 where d1: "push_word K d (take k (c # s)) = Ret d1"
      "word_loop K d1 (drop (Suc k) (c # s)) = Ret d'" by (auto simp: obind_Ret_iff simp del: find_space.simps)
    have z: "0 \<notin> set (take k (c # s))" "0 \<notin> set (drop (Suc k) (c # s))"
      using "2.prems"(3) by (meson in_set_takeD in_set_dropD)+
    note pw = push_word_Ret [OF "2.prems"(2) z(1) d1(1)]
    have "c \<noteq> 0x20" using False by simp
    from "2.IH"(3) [OF this k d1(2)] pw z(2) show ?thesis by simp
  qed
qed simp

text \<open>
  A line as the loop sees it: items of some blanks, a word without white space and the white space
  character that ends it.  An empty word arises only from white space that is not a blank.
\<close>

type_synonym item = "nat \<times> bytes \<times> u8"

definition item_ok :: "item \<Rightarrow> bool" where
  "item_ok it = (case it of (k, w, e) \<Rightarrow>
     isspace e \<and> (\<forall>c\<in>set w. \<not> isspace c \<and> c \<noteq> 0) \<and> (w \<noteq> [] \<or> e \<noteq> 0x20))"

definition item_text :: "item \<Rightarrow> bytes" where
  "item_text it = (case it of (k, w, e) \<Rightarrow> replicate k 0x20 @ w @ [e])"

fun push_words :: "kernel \<Rightarrow> dbug_struct \<Rightarrow> bytes list \<Rightarrow> dbug_struct outcome" where
  "push_words K d [] = Ret d"
| "push_words K d (w # ws) = obind (push_word K d w) (\<lambda>d1. push_words K d1 ws)"

lemma find_space_word: "\<forall>c\<in>set w. \<not> isspace c \<Longrightarrow> isspace e \<Longrightarrow> find_space (w @ e # r) = Some (length w)"
  by (induction w) auto

lemma find_space_none: "\<forall>c\<in>set w. \<not> isspace c \<Longrightarrow> find_space w = None"
  by (induction w) auto

lemma word_loop_blanks: "word_loop K d (replicate k 0x20 @ s) = word_loop K d s"
  by (induction k) auto

lemma word_loop_item:
  assumes "item_ok (k, w, e)"
  shows "word_loop K d (item_text (k, w, e) @ s) = obind (push_word K d w) (\<lambda>d1. word_loop K d1 s)"
proof -
  have fs: "find_space (w @ e # s) = Some (length w)"
    using assms by (intro find_space_word) (auto simp: item_ok_def)
  obtain c r where c: "w @ e # s = c # r" "c \<noteq> 0x20"
    using assms by (cases w) (auto simp: item_ok_def isspace_def)
  have "take (length w) (c # r) = w" "drop (Suc (length w)) (c # r) = s"
    unfolding c(1) [symmetric] by simp_all
  then have "word_loop K d (c # r) = obind (push_word K d w) (\<lambda>d1. word_loop K d1 s)"
    using c(2) fs unfolding c(1) by (simp del: find_space.simps take_Suc_Cons drop_Suc_Cons)
  then show ?thesis by (simp add: item_text_def word_loop_blanks c(1))
qed

lemma word_loop_items:
  "\<forall>it\<in>set items. item_ok it \<Longrightarrow>
   word_loop K d (concat (map item_text items) @ s) =
     obind (push_words K d (map (fst \<circ> snd) items)) (\<lambda>d1. word_loop K d1 s)"
proof (induction items arbitrary: d)
  case (Cons it items)
  obtain k w e where it: "it = (k, w, e)" by (metis prod_cases3)
  have "obind (obind x g) h = obind x (\<lambda>y. obind (g y) h)" for x :: "dbug_struct outcome"
    and g and h :: "dbug_struct \<Rightarrow> dbug_struct outcome" by (cases x) auto
  then show ?case using Cons word_loop_item [of k w e K d] by (simp add: it)
qed simp

text \<open>Characters after the last white space are dropped.\<close>

lemma word_loop_tail: "\<forall>c\<in>set t. \<not> isspace c \<Longrightarrow> word_loop K d t = Ret d"
proof (induction t)
  case (Cons c t)
  then have "find_space (c # t) = None" by (intro find_space_none) simp
  then show ?case using Cons by (simp del: find_space.simps)
qed simp

subsection \<open>Room in the pool\<close>

text \<open>The free bytes of the pool's current block.\<close>

definition pool_room :: "ngx_pool \<Rightarrow> nat" where
  "pool_room p = unat (d_end (p_chain p ! p_current p)) - unat (d_last (p_chain p ! p_current p))"

lemma palloc_room:
  assumes p: "pool_ok L p" and n: "n \<le> p_max p" "unat n + 7 \<le> pool_room p"
  obtains m p' where "ngx_palloc f h p n = (m, h, p')" "m \<noteq> 0" "pool_room p \<le> pool_room p' + unat n + 7"
    "p_max p' = p_max p"
proof -
  let ?i = "p_current p" let ?b = "p_chain p ! ?i"
  let ?m = "ngx_align_ptr (d_last ?b) NGX_ALIGNMENT"
  have i: "?i < length (p_chain p)" using p by (simp add: pool_ok_def)
  have bok: "block_ok L (pool_psize p) ?b" using p i by (simp add: pool_ok_def)
  have e: "unat (d_end ?b) = unat (d_base ?b) + unat (pool_psize p)"
    using bok by (simp add: block_ok_def unat_add_u64)
  have le: "unat (d_last ?b) + unat n + 7 \<le> unat (d_end ?b)"
    using n(2) bok e by (simp add: pool_room_def block_ok_def)
  have um: "unat ?m = (unat (d_last ?b) + 7) div 8 * 8"
    using le unat_lt_u64 [of "d_end ?b"] by (intro unat_align_8) linarith
  then have m: "unat ?m \<le> unat (d_last ?b) + 7" "unat (d_last ?b) \<le> unat ?m" by auto
  have mn: "unat ?m + unat n \<le> unat (d_end ?b)" using m le by linarith
  then have umn: "unat (?m + n) = unat ?m + unat n"
    using unat_lt_u64 [of "d_end ?b"] by (intro unat_add_u64) linarith
  have "?m \<le> d_end ?b" using mn by (simp add: word_le_nat_alt)
  then have fits: "n \<le> d_end ?b - ?m" using mn by (simp add: word_le_nat_alt unat_sub_u64)
  have dr: "drop ?i (p_chain p) = ?b # drop (Suc ?i) (p_chain p)" using i by (simp add: Cons_nth_drop_Suc)
  let ?p' = "p\<lparr>p_chain := (p_chain p)[?i := ?b\<lparr>d_last := ?m + n\<rparr>]\<rparr>"
  have "ngx_palloc f h p n = (?m, h, ?p')"
    using n(1) fits by (simp add: ngx_palloc_def ngx_palloc_small_def dr)
  moreover have "?m \<noteq> 0" using m bok by (auto simp: block_ok_def)
  moreover have "pool_room p \<le> pool_room ?p' + unat n + 7"
    using i umn m mn by (simp add: pool_room_def)
  ultimately show ?thesis using that by simp
qed

lemma pcalloc_room:
  assumes p: "pool_ok L p" and n: "n \<le> p_max p" "unat n + 7 \<le> pool_room p"
  obtains m h' p' where "ngx_pcalloc f h p n = (m, h', p')" "m \<noteq> 0"
    "pool_room p \<le> pool_room p' + unat n + 7" "p_max p' = p_max p"
proof -
  obtain m p' where "ngx_palloc f h p n = (m, h, p')" "m \<noteq> 0"
    "pool_room p \<le> pool_room p' + unat n + 7" "p_max p' = p_max p" by (rule palloc_room [OF p n])
  then show ?thesis using that by (simp add: ngx_pcalloc_def)
qed

text \<open>Room for \<open>k\<close> bytes and \<open>j\<close> words of at most 49 bytes.\<close>

definition word_room :: "dbug_struct \<Rightarrow> nat \<Rightarrow> nat \<Rightarrow> bool" where
  "word_room d k j \<longleftrightarrow> (case (d_pool d, d_cmd d) of
     (Some p, Some c) \<Rightarrow> 50 \<le> unat (p_max p) \<and> k \<le> pool_room p \<and> unat (a_nelts c) + j \<le> unat (a_nalloc c)
   | _ \<Rightarrow> False)"

lemma push_word_total:
  assumes ok: "dbug_ok K d" and w: "0 \<notin> set w" "length w \<le> 49"
    and room: "word_room d (length w + 8 + k) (Suc j)"
  obtains d' where "push_word K d w = Ret d'" "word_room d' k j"
proof -
  obtain p a c where d: "d_pool d = Some p" "d_bps d = Some a" "d_cmd d = Some c"
    and ar: "arrays_ok (d_heap d) p a c" and f: "calloc_ok (k_calloc K)" "calloc_low (k_calloc K)"
    by (rule dbug_okE [OF ok])
  have p: "pool_ok (live (d_heap d)) p" using ar by (simp add: arrays_ok_def)
  let ?n = "of_nat (length w + 1) :: u64"
  have un: "unat ?n = length w + 1" using w(2) by (intro unat_of_nat_u64) simp
  have rm: "50 \<le> unat (p_max p)" "length w + 8 + k \<le> pool_room p" "unat (a_nelts c) + Suc j \<le> unat (a_nalloc c)"
    using room d by (auto simp: word_room_def)
  have n: "?n \<le> p_max p" "unat ?n + 7 \<le> pool_room p"
    using un rm w(2) unfolding word_le_nat_alt by linarith+
  obtain m h1 p1 where 1: "ngx_pcalloc (k_calloc K) (d_heap d) p ?n = (m, h1, p1)" and m: "m \<noteq> 0"
    and r1: "pool_room p \<le> pool_room p1 + unat ?n + 7" "p_max p1 = p_max p"
    by (rule pcalloc_room [OF p n])
  have ne: "a_nelts c \<noteq> a_nalloc c" using rm(3) by auto
  have cok: "array_ok (pool_used (live (d_heap d)) p) c" using ar by (simp add: arrays_ok_def)
  have "unat (a_elts c + a_size c * a_nelts c) = unat (a_elts c) + unat (a_size c) * unat (a_nelts c)"
    using rm(3) by (intro array_slot_addr [OF cok]) auto
  moreover have "unat (a_elts c) \<noteq> 0" using cok by (simp add: array_ok_def unat_eq_0)
  ultimately have e: "a_elts c + a_size c * a_nelts c \<noteq> 0" by (metis add_is_0 unat_0)
  let ?c' = "c\<lparr>a_nelts := a_nelts c + 1\<rparr>"
  have 2: "ngx_array_push (k_calloc K) h1 p1 c zero_str = (a_elts c + a_size c * a_nelts c, h1, p1, ?c')"
    using ne by (simp add: ngx_array_push_def)
  have "unat (a_nelts c + 1) = unat (a_nelts c) + 1"
    using rm(3) unat_lt_u64 [of "a_nalloc c"] by (subst unat_add_u64) auto
  then have "word_room (d\<lparr>d_heap := h1, d_pool := Some p1, d_cmd := Some (store_last ?c' (str_of w))\<rparr>) k j"
    using rm r1 un by (simp add: word_room_def store_last_def)
  then show ?thesis using that push_word_eq [OF w(1) d(1,3) 1 2] m e by simp
qed

fun word_cost :: "bytes list \<Rightarrow> nat" where
  "word_cost [] = 0"
| "word_cost (w # ws) = length w + 8 + word_cost ws"

lemma push_words_total:
  "\<lbrakk>dbug_ok K d; \<forall>w\<in>set ws. 0 \<notin> set w \<and> length w \<le> 49; word_room d (word_cost ws + k) (length ws + j)\<rbrakk> \<Longrightarrow>
   \<exists>d'. push_words K d ws = Ret d' \<and> dbug_ok K d' \<and> word_list d' = word_list d @ map str_of ws \<and>
     d_bps d' = d_bps d \<and> d_proc d' = d_proc d \<and> d_stdin d' = d_stdin d \<and> d_out d' = d_out d \<and>
     d_funs d' = d_funs d \<and> d_regs d' = d_regs d \<and> word_room d' k j"
proof (induction ws arbitrary: d)
  case (Cons w ws)
  have "word_room d (length w + 8 + (word_cost ws + k)) (Suc (length ws + j))"
    using Cons.prems(3) by (simp add: algebra_simps)
  then obtain d1 where d1: "push_word K d w = Ret d1" "word_room d1 (word_cost ws + k) (length ws + j)"
    using push_word_total [OF Cons.prems(1)] Cons.prems(2) by (metis list.set_intros(1))
  have "0 \<notin> set w" using Cons.prems(2) by simp
  note pw = push_word_Ret [OF Cons.prems(1) this d1(1)]
  from Cons.IH [OF _ _ d1(2)] pw Cons.prems(2) d1(1) show ?case by auto
qed simp

subsection \<open>Every command keeps the memory invariant\<close>

lemma length_fgets: "length (fst (fgets n s)) \<le> n - 1"
  by (simp add: fgets_def Let_def)

lemma cstr_no_NUL_id: "0 \<notin> set s \<Longrightarrow> cstr s = s"
  by (auto simp: cstr_def takeWhile_eq_all_conv)

lemma clear_words_ok:
  assumes "dbug_ok K d" "d_cmd d = Some c"
  shows "dbug_ok K (d\<lparr>d_cmd := Some (c\<lparr>a_nelts := 0\<rparr>)\<rparr>)"
proof -
  obtain p a c' where d: "d_pool d = Some p" "d_bps d = Some a" and c': "d_cmd d = Some c'"
    "arrays_ok (d_heap d) p a c'" and f: "calloc_ok (k_calloc K)" "calloc_low (k_calloc K)"
    by (rule dbug_okE [OF assms(1)])
  have ar: "arrays_ok (d_heap d) p a c" using c' assms(2) by simp
  have "arrays_ok (d_heap d) p a (c\<lparr>a_nelts := 0\<rparr>)"
    by (rule arrays_ok_swap [OF clear_arrays [OF arrays_ok_swap [OF ar]]])
  then show ?thesis using d f by (simp add: dbug_ok_def)
qed

lemma get_command_ok:
  assumes ok: "dbug_ok K d" and r: "get_command K d = Ret (rc, d')"
  shows "dbug_ok K d' \<and> bp_list d' = bp_list d \<and> d_proc d' = d_proc d"
proof -
  obtain line rest where l: "fgets 50 (d_stdin d) = (line, rest)" by force
  obtain c where c: "d_cmd d = Some c" using ok by (rule dbug_okE)
  let ?d1 = "say [Putc 0x3e] (d\<lparr>d_stdin := rest\<rparr>)"
  let ?d2 = "?d1\<lparr>d_cmd := Some (c\<lparr>a_nelts := 0\<rparr>)\<rparr>"
  have w: "word_loop K ?d2 (cstr line) = Ret d'"
    using r l c by (auto simp: get_command_def Ret_iffs)
  have "dbug_ok K ?d1" using ok by (rule dbug_ok_same) simp_all
  then have "dbug_ok K ?d2" by (rule clear_words_ok) (simp add: c)
  from word_loop_ok [OF w this cstr_no_NUL] show ?thesis by (simp add: bp_list_def)
qed

lemma push_bp_ok:
  assumes ok: "dbug_ok K d" and r: "push_bp K d g = Ret (rc, d')"
    and g: "\<And>bp d1. dbug_ok K d1 \<Longrightarrow> g bp d1 = Ret (rc, d') \<Longrightarrow> dbug_ok K d'"
  shows "dbug_ok K d'"
  by (rule push_bp_Ret [OF ok r]) (rule g)

lemma say_set_bp_ok: "dbug_ok K d \<Longrightarrow> dbug_ok K (say os (set_bp b (d\<lparr>d_proc := t\<rparr>)))"
proof -
  assume "dbug_ok K d"
  then have "dbug_ok K (d\<lparr>d_proc := t\<rparr>)" by (rule dbug_ok_same) simp_all
  then have "dbug_ok K (set_bp b (d\<lparr>d_proc := t\<rparr>))" by (rule set_bp_ok)
  then show ?thesis by (rule dbug_ok_same) simp_all
qed

lemma break_at_ok: "dbug_ok K d \<Longrightarrow> break_at i bp d = Ret (rc, d') \<Longrightarrow> dbug_ok K d'"
  by (auto simp: break_at_def Ret_iffs Let_def intro: say_set_bp_ok)

lemma watch_at_ok: "dbug_ok K d \<Longrightarrow> watch_at K s bp d = Ret (rc, d') \<Longrightarrow> dbug_ok K d'"
  by (auto simp: watch_at_def Ret_iffs Let_def split_beta intro: say_set_bp_ok)

lemma command_break_ok:
  assumes ok: "dbug_ok K d" and r: "command_break K d arg = Ret (rc, d')"
  shows "dbug_ok K d'"
  using r ok push_bp_ok [OF ok _ break_at_ok]
  by (auto simp: command_break_def Ret_iffs split: if_splits)

lemma command_watch_ok:
  assumes ok: "dbug_ok K d" and r: "command_watch K d arg = Ret (rc, d')"
  shows "dbug_ok K d'"
  using r push_bp_ok [OF ok _ watch_at_ok] by (auto simp: command_watch_def Ret_iffs)

text \<open>The other commands leave the arrays, the pool and the heap alone, or only allocate.\<close>

definition same_mem :: "dbug_struct \<Rightarrow> dbug_struct \<Rightarrow> bool" where
  "same_mem d d' \<longleftrightarrow> d_pool d' = d_pool d \<and> d_bps d' = d_bps d \<and> d_cmd d' = d_cmd d \<and> d_heap d' = d_heap d"

lemma same_mem_ok: "dbug_ok K d \<Longrightarrow> same_mem d d' \<Longrightarrow> dbug_ok K d'"
  by (simp add: same_mem_def dbug_ok_def)

lemma same_mem_trans: "same_mem d d1 \<Longrightarrow> same_mem d1 d2 \<Longrightarrow> same_mem d d2"
  by (simp add: same_mem_def)

lemma same_mem_refl [simp]: "same_mem d d"
  by (simp add: same_mem_def)

lemma same_mem_say [simp]: "same_mem d (say os d') \<longleftrightarrow> same_mem d d'"
  by (simp add: same_mem_def)

lemma same_mem_upd [simp]:
  "same_mem d (d'\<lparr>d_proc := t\<rparr>) \<longleftrightarrow> same_mem d d'" "same_mem d (d'\<lparr>d_regs := r\<rparr>) \<longleftrightarrow> same_mem d d'"
  "same_mem d (d'\<lparr>d_status := st\<rparr>) \<longleftrightarrow> same_mem d d'" "same_mem d (d'\<lparr>d_pid := i\<rparr>) \<longleftrightarrow> same_mem d d'"
  "same_mem d (d'\<lparr>d_funs := fs\<rparr>) \<longleftrightarrow> same_mem d d'"
  by (simp_all add: same_mem_def)

lemma dbug_pro_same: "dbug_pro K d path argv = Ret (rc, d') \<Longrightarrow> same_mem d d'"
  by (auto simp: dbug_pro_def open_funs_pid_def Ret_iffs Let_def
      split: fork_ret.splits prod.splits if_splits option.splits)

lemma attach_pro_same: "attach_pro K d pid = Ret (rc, d') \<Longrightarrow> same_mem d d'"
  by (auto simp: attach_pro_def open_funs_pid_def Ret_iffs Let_def split: prod.splits if_splits option.splits)

lemma trigger_SF_same: "trigger_SF K bps i d = Ret d' \<Longrightarrow> same_mem d d'"
  by (auto simp: trigger_SF_def Ret_iffs split: if_splits)

lemma trigger_HW_same: "trigger_HW bps i d = Ret (rc, d') \<Longrightarrow> same_mem d d'"
  by (auto simp: trigger_HW_def Ret_iffs split: if_splits)

lemma get_regs_same: "same_mem d (get_regs d)"
  by (simp add: get_regs_def split: option.splits)

lemma continue_proc_same: "same_mem d (continue_proc K d)"
  by (simp add: continue_proc_def split: option.splits prod.splits)

lemma command_continue_same:
  assumes "command_continue K d arg = Ret (rc, d')" shows "same_mem d d'"
proof -
  let ?d2 = "get_regs (continue_proc K d)"
  have 2: "same_mem d ?d2" by (rule same_mem_trans [OF continue_proc_same get_regs_same])
  from assms consider "d' = ?d2" | bps i d3 j where "trigger_SF K bps i ?d2 = Ret d3" "trigger_HW bps j d3 = Ret (rc, d')"
    by (auto simp: command_continue_def Ret_iffs Let_def split: if_splits)
  then show ?thesis
    using 2 trigger_SF_same trigger_HW_same by cases (blast intro: same_mem_trans)+
qed

lemma command_dbug_ok:
  assumes ok: "dbug_ok K d" and r: "command_dbug K d arg = Ret (rc, d')"
  shows "dbug_ok K d'"
proof -
  obtain p a c where d: "d_pool d = Some p" "d_bps d = Some a" "d_cmd d = Some c"
    and ar: "arrays_ok (d_heap d) p a c" and f: "calloc_ok (k_calloc K)" "calloc_low (k_calloc K)"
    by (rule dbug_okE [OF ok])
  obtain m h p' where 1: "ngx_pcalloc (k_calloc K) (d_heap d) p (8 * a_nelts arg) = (m, h, p')"
    by (metis prod_cases3)
  let ?d1 = "d\<lparr>d_heap := h, d_pool := Some p'\<rparr>"
  obtain path argv rc2 where "dbug_pro K ?d1 path argv = Ret (rc2, d')"
    using r d 1 by (auto simp: command_dbug_def Ret_iffs Let_def split: if_splits)
  from dbug_pro_same [OF this] have "d_pool d' = Some p'" "d_bps d' = Some a" "d_cmd d' = Some c"
    "d_heap d' = h" using d by (auto simp: same_mem_def)
  then show ?thesis using pcalloc_arrays [OF f ar 1] f by (simp add: dbug_ok_def)
qed

lemma run_command_ok:
  assumes ok: "dbug_ok K d" and r: "run_command K f d arg = Ret (rc, d')"
  shows "dbug_ok K d'"
proof (cases f)
  case Command_break
  then show ?thesis using command_break_ok [OF ok] r by simp
next
  case Command_continue
  then show ?thesis using command_continue_same r same_mem_ok [OF ok] by simp
next
  case Command_show
  then have "same_mem d d'" using r by (auto simp: command_show_def)
  then show ?thesis by (rule same_mem_ok [OF ok])
next
  case Command_dbug
  then show ?thesis using command_dbug_ok [OF ok] r by simp
next
  case Command_attach
  then have "same_mem d d'" using r attach_pro_same by (auto simp: command_attach_def Ret_iffs)
  then show ?thesis by (rule same_mem_ok [OF ok])
next
  case Command_showreg
  then have "same_mem d d'" using r
    by (auto simp: command_showreg_def Let_def split: option.splits)
  then show ?thesis by (rule same_mem_ok [OF ok])
next
  case Command_watch
  then show ?thesis using command_watch_ok [OF ok] r by simp
next
  case Command_exit
  then show ?thesis using r by (simp add: command_exit_def)
next
  case Command_showbps
  then have "same_mem d d'" using r by (auto simp: command_showbps_def Ret_iffs)
  then show ?thesis by (rule same_mem_ok [OF ok])
qed

lemma play_command_ok:
  assumes ok: "dbug_ok K d" and r: "play_command K d = Ret (rc, d')"
  shows "dbug_ok K d'"
proof -
  obtain cmds fo where fo: "d_cmd d = Some cmds"
    "(case fo of Some f \<Rightarrow> obind (run_command K f d cmds) (\<lambda>(rc, d1). Ret (0, d1))
       | None \<Rightarrow> Ret (- 1, say [Printf ''not command %s'' [Str (s_data (a_slots cmds ! 0))]] d)) = Ret (rc, d')"
    using r by (auto simp: play_command_def Ret_iffs)
  show ?thesis
  proof (cases fo)
    case None
    then show ?thesis using fo by (auto intro: dbug_ok_same [OF ok])
  next
    case (Some f)
    then obtain rc2 where "run_command K f d cmds = Ret (rc2, d')" using fo by (auto simp: Ret_iffs)
    then show ?thesis by (rule run_command_ok [OF ok])
  qed
qed

lemma rounds_ok: "dbug_ok K d \<Longrightarrow> rounds K n d = Ret d' \<Longrightarrow> dbug_ok K d'"
proof (induction n arbitrary: d)
  case (Suc n)
  then obtain r1 d1 r2 d2 where "get_command K d = Ret (r1, d1)" "play_command K d1 = Ret (r2, d2)"
    "rounds K n d2 = Ret d'" by (auto simp: Ret_iffs)
  with Suc.IH Suc.prems(1) get_command_ok play_command_ok show ?case by blast
qed simp

subsection \<open>Looking a command up\<close>

lemma find_command_str_of:
  assumes w: "0 \<notin> set w" "length w < 2 ^ 64" and cs: "\<forall>(nm, f)\<in>set cs. length nm < 2 ^ 64"
  shows "find_command cs (str_of w) = Ret (map_of cs w)"
  using cs
proof (induction cs)
  case (Cons nf cs)
  obtain nm f where nf: "nf = (nm, f)" by force
  have len: "(of_nat (length w) :: u64) = of_nat (length nm) \<longleftrightarrow> length w = length nm"
    using w(2) Cons.prems nf unat_of_nat_u64 by (metis case_prodD list.set_intros(1))
  show ?case
  proof (cases "length w = length nm")
    case True
    then obtain c where c: "memcmp (w @ [0]) (nm @ [0]) (length nm) = Some c"
      by (simp add: memcmp_def)
    have "c = 0 \<longleftrightarrow> w = nm"
      using c memcmp_eq_0_iff [of "w @ [0]" "nm @ [0]" "length nm"] True by auto
    then show ?thesis using Cons True c len by (simp add: nf str_of_def)
  next
    case False
    then show ?thesis using Cons len by (auto simp: nf str_of_def)
  qed
qed simp

lemma cmd_set_short: "\<forall>(nm, f)\<in>set cmd_set. length nm < 2 ^ 64"
  by (simp add: cmd_set_def)

subsection \<open>A debugger for concrete runs\<close>

definition demo_regs :: user_regs where
  "demo_regs = \<lparr>reg_r15 = 0, reg_r14 = 0, reg_r13 = 0, reg_r12 = 0, reg_rbp = 0, reg_rbx = 0,
     reg_r11 = 0, reg_r10 = 0, reg_r9 = 0, reg_r8 = 0, reg_rax = 0, reg_rcx = 0, reg_rdx = 0,
     reg_rsi = 0, reg_rdi = 0, reg_orig_rax = 0, reg_rip = 0x401000, reg_cs = 0, reg_eflags = 0,
     reg_rsp = 0, reg_ss = 0, reg_fs_base = 0, reg_gs_base = 0, reg_ds = 0, reg_es = 0, reg_fs = 0,
     reg_gs = 0\<rparr>"

definition demo_tracee :: tracee where
  "demo_tracee = \<lparr>tr_mem = (\<lambda>_. Some 0x90), tr_regs = demo_regs, tr_dr = (\<lambda>_. 0)\<rparr>"

text \<open>The processor of the demonstration executes one-byte instructions; continued, it stops after
  the byte at \<open>0x401136\<close> with SIGTRAP.\<close>

definition demo_kernel :: kernel where
  "demo_kernel = \<lparr>k_calloc = low_calloc bump_calloc,
     k_pokeuser = (\<lambda>t n v. Some (t\<lparr>tr_dr := (tr_dr t)(n := v)\<rparr>)),
     k_step = (\<lambda>t. Some (t\<lparr>tr_regs := (tr_regs t)\<lparr>reg_rip := reg_rip (tr_regs t) + 1\<rparr>\<rparr>)),
     k_cont = (\<lambda>t. (Some (t\<lparr>tr_regs := (tr_regs t)\<lparr>reg_rip := 0x401137\<rparr>\<rparr>), 0x57f)),
     k_fork = In_parent 42, k_traceme = True, k_exec = (\<lambda>_ _. True),
     k_child = (\<lambda>_. (Some demo_tracee, 0x57f)), k_attach = (\<lambda>_. None), k_maps = (\<lambda>_. None),
     k_target = (\<lambda>_. []), k_exe = (\<lambda>_. None)\<rparr>"

definition demo_funs :: fun_arr where
  "demo_funs = \<lparr>fword = [], fdata = [\<lparr>fname = ascii ''main'' @ [0], faddr = 0x401136\<rparr>]\<rparr>"

definition demo0 :: dbug_struct where
  "demo0 = \<lparr>d_pool = None, d_pid = 0, d_status = 0, d_bps = None, d_cmd = None, d_regs = demo_regs,
     d_funs = Some demo_funs, d_heap = empty_heap, d_proc = Some demo_tracee,
     d_stdin = ascii ''b  main'' @ [0x0a], d_out = []\<rparr>"

definition demo :: dbug_struct where
  "demo = (case init_dbug demo_kernel demo0 of Ret (rc, d) \<Rightarrow> d)"

lemma demo_init: "\<exists>rc. init_dbug demo_kernel demo0 = Ret (rc, demo)"
proof -
  have "(case init_dbug demo_kernel demo0 of Ret x \<Rightarrow> True | _ \<Rightarrow> False)" by code_simp
  then show ?thesis unfolding demo_def by (auto split: outcome.splits)
qed

lemma demo_ok: "dbug_ok demo_kernel demo" "bp_list demo = []" "word_list demo = []"
proof -
  obtain rc where i: "init_dbug demo_kernel demo0 = Ret (rc, demo)" using demo_init by blast
  have f: "calloc_ok (k_calloc demo_kernel)" "calloc_low (k_calloc demo_kernel)"
    "heap_ok (d_heap demo0)" "heap_low (d_heap demo0)"
    by (simp_all add: demo_kernel_def demo0_def low_calloc_ok low_calloc_low bump_calloc_ok
        empty_heap_ok empty_heap_low)
  have "d_bps demo \<noteq> None" "d_cmd demo \<noteq> None" by code_simp+
  from init_ok [OF f i this] show "dbug_ok demo_kernel demo" "bp_list demo = []" "word_list demo = []"
    by simp_all
qed

subsection \<open>Properties\<close>

text \<open>
  C13: \<open>get_command\<close> reads one line of at most 49 characters and leaves in the \<open>cmd\<close> array exactly the
  words of the line in order, each ended by the white space character after it; blanks before a
  word are skipped and what follows the last white space is dropped.  With ten words at most and
  129 free bytes in the pool's current block it always succeeds.  Breakpoints, process and the
  memory invariant are kept.\<close>

theorem get_command_words:
  assumes ok: "dbug_ok K d"
    and line: "fgets 50 (d_stdin d) = (concat (map item_text items) @ replicate k 0x20 @ tail, rest)"
    and items: "\<forall>it\<in>set items. item_ok it" "length items \<le> 10"
    and tail: "\<forall>c\<in>set tail. \<not> isspace c \<and> c \<noteq> 0"
    and room: "d_pool d = Some p" "50 \<le> unat (p_max p)" "129 \<le> pool_room p"
      "d_cmd d = Some c" "10 \<le> unat (a_nalloc c)"
  shows "\<exists>d'. get_command K d = Ret (0, d') \<and> word_list d' = map (\<lambda>(k, w, e). str_of w) items \<and>
    dbug_ok K d' \<and> d_stdin d' = rest \<and> d_bps d' = d_bps d \<and> d_proc d' = d_proc d \<and>
    d_out d' = d_out d @ [Putc 0x3e]"
proof -
  let ?ws = "map (fst \<circ> snd) items" and ?line = "concat (map item_text items) @ replicate k 0x20 @ tail"
  let ?d1 = "say [Putc 0x3e] (d\<lparr>d_stdin := rest\<rparr>)"
  let ?d2 = "?d1\<lparr>d_cmd := Some (c\<lparr>a_nelts := 0\<rparr>)\<rparr>"
  have "dbug_ok K ?d1" using ok by (rule dbug_ok_same) simp_all
  then have ok2: "dbug_ok K ?d2" by (rule clear_words_ok) (simp add: room)
  have len: "length ?line \<le> 49" using length_fgets [of 50 "d_stdin d"] line by simp
  have ic: "0 \<notin> set (item_text it) \<and> length (fst (snd it)) < length (item_text it) \<and>
      0 \<notin> set (fst (snd it))" if "it \<in> set items" for it
    using items(1) that by (fastforce simp: item_ok_def item_text_def isspace_def split: prod.splits)
  have cl: "cstr ?line = ?line" using ic tail by (intro cstr_no_NUL_id) auto
  have "word_cost (map (fst \<circ> snd) its) \<le> length (concat (map item_text its)) + 8 * length its"
    if "set its \<subseteq> set items" for its
    using that by (induction its) (auto dest: ic simp: Suc_le_eq intro: less_imp_le add_mono)
  then have cost: "word_cost ?ws \<le> 129" using len items(2) by (fastforce intro: order_trans)
  have wlen: "0 \<notin> set w \<and> length w \<le> 49" if w: "w \<in> set ?ws" for w
  proof -
    obtain it where it: "it \<in> set items" "w = fst (snd it)" using w by auto
    have "length (item_text it) \<le> length (concat (map item_text items))"
      using it(1) by (induction items) auto
    then show ?thesis using ic [OF it(1)] it(2) len by simp
  qed
  have "word_room ?d2 (word_cost ?ws + 0) (length ?ws + 0)"
    using room cost items(2) by (simp add: word_room_def)
  from push_words_total [OF ok2 _ this] wlen obtain d' where
    d': "push_words K ?d2 ?ws = Ret d'" "dbug_ok K d'" "word_list d' = word_list ?d2 @ map str_of ?ws"
    "d_bps d' = d_bps ?d2" "d_proc d' = d_proc ?d2" "d_stdin d' = d_stdin ?d2" "d_out d' = d_out ?d2"
    by blast
  have "word_loop K ?d2 (cstr ?line) = Ret d'"
    using word_loop_items [OF items(1), of K ?d2 "replicate k 0x20 @ tail"] word_loop_tail [of tail K d'] tail
    unfolding cl by (simp add: d'(1) word_loop_blanks)
  then have "get_command K d = Ret (0, d')" by (simp add: get_command_def line room(4))
  moreover have "map str_of ?ws = map (\<lambda>(k, w, e). str_of w) items" by (induction items) auto
  ultimately show ?thesis using d' by (simp add: word_list_def array_list_def)
qed

lemma get_command_words_witness:
  "\<exists>d'. get_command demo_kernel demo = Ret (0, d') \<and>
     word_list d' = [str_of (ascii ''b''), str_of (ascii ''main'')]"
proof -
  let ?items = "[(0, ascii ''b'', 0x20), (1, ascii ''main'', 0x0a)] :: item list"
  have l: "fgets 50 (d_stdin demo) = (concat (map item_text ?items) @ replicate 0 0x20 @ [], [])" by code_simp
  have "d_pool demo \<noteq> None" "d_cmd demo \<noteq> None" by code_simp+
  then obtain p c where pc: "d_pool demo = Some p" "d_cmd demo = Some c" by auto
  have "(case (d_pool demo, d_cmd demo) of (Some p, Some c) \<Rightarrow> (p_max p, d_end (p_chain p ! p_current p),
      d_last (p_chain p ! p_current p), a_nalloc c)) = (4032, 8208, 4736, 10)" by code_simp
  then have v: "p_max p = 4032" "pool_room p = 3472" "a_nalloc c = 10"
    by (simp_all add: pc pool_room_def)
  have "\<forall>it\<in>set ?items. item_ok it" by (simp add: item_ok_def isspace_def)
  from get_command_words [OF demo_ok(1) l this _ _ pc(1) _ _ pc(2)] show ?thesis by (auto simp: v)
qed

text \<open>
  at the end of the input \<open>get_command\<close> reads no word but leaves the old words in their slots:
  \<open>play_command\<close> then runs the previous command again.\<close>

theorem get_command_eof_repeats:
  assumes "d_stdin d = []" "d_cmd d = Some c" "a_slots c \<noteq> []"
    and "find_command cmd_set (a_slots c ! 0) = Ret (Some f)"
  shows "\<exists>d'. get_command K d = Ret (0, d') \<and> word_list d' = [] \<and>
    play_command K d' = obind (run_command K f d' (c\<lparr>a_nelts := 0\<rparr>)) (\<lambda>(rc, d1). Ret (0, d1))"
  using assms by (simp add: get_command_def fgets_def cstr_def play_command_def slot_def
      word_list_def array_list_def)

text \<open>Words as a command array, for concrete runs.\<close>

definition demo_cmds :: "bytes list \<Rightarrow> ngx_str ngx_array" where
  "demo_cmds ws = \<lparr>a_self = 0x2000, a_elts = 0x2100, a_nelts = of_nat (length ws), a_size = 16, a_nalloc = 10,
     a_slots = map str_of ws @ replicate (10 - length ws) zero_str\<rparr>"

lemma get_command_eof_repeats_witness:
  "\<exists>d'. get_command demo_kernel (demo\<lparr>d_stdin := [], d_cmd := Some (demo_cmds [ascii ''showbps''])\<rparr>) = Ret (0, d') \<and>
     play_command demo_kernel d' = obind (run_command demo_kernel Command_showbps d'
       ((demo_cmds [ascii ''showbps''])\<lparr>a_nelts := 0\<rparr>)) (\<lambda>(rc, d1). Ret (0, d1))"
proof -
  have "find_command cmd_set (a_slots (demo_cmds [ascii ''showbps'']) ! 0) = Ret (Some Command_showbps)" 
    by code_simp
  then show ?thesis
    using get_command_eof_repeats [of "demo\<lparr>d_stdin := [], d_cmd := Some (demo_cmds [ascii ''showbps''])\<rparr>"
        "demo_cmds [ascii ''showbps'']" Command_showbps demo_kernel]
    by (auto simp: demo_cmds_def)
qed

text \<open>
  \<open>play_command\<close> runs the handler the command table has for the first word, comparing whole
  names, and reports any other word.\<close>

theorem play_command_dispatch:
  assumes c: "d_cmd d = Some c" and w: "a_slots c \<noteq> []" "a_slots c ! 0 = str_of w" "0 \<notin> set w" "length w < 2 ^ 64"
  shows "play_command K d =
    (case map_of cmd_set w of
       Some f \<Rightarrow> obind (run_command K f d c) (\<lambda>(rc, d1). Ret (0, d1))
     | None \<Rightarrow> Ret (- 1, say [Printf ''not command %s'' [Str (Some (w @ [0]))]] d))"
  using find_command_str_of [OF w(3,4) cmd_set_short] c w(1,2)
  by (simp add: play_command_def slot_def str_of_def split: option.splits)

lemma play_command_dispatch_witness:
  "play_command demo_kernel (demo\<lparr>d_cmd := Some (demo_cmds [ascii ''sho''])\<rparr>) =
     Ret (- 1, say [Printf ''not command %s'' [Str (Some (ascii ''sho'' @ [0]))]]
       (demo\<lparr>d_cmd := Some (demo_cmds [ascii ''sho''])\<rparr>))"
  using play_command_dispatch [of "demo\<lparr>d_cmd := Some (demo_cmds [ascii ''sho''])\<rparr>"
      "demo_cmds [ascii ''sho'']" "ascii ''sho''" demo_kernel]
  by (simp add: demo_cmds_def cmd_set_def)

lemma push_bp_total:
  assumes ok: "dbug_ok K d" and a: "d_bps d = Some a" "a_nelts a \<noteq> a_nalloc a"
  obtains bp d1 where "push_bp K d g = g bp d1" "dbug_ok K d1"
    "\<And>b. bp_list (set_bp b d1) = bp_list d @ [b]" "d_proc d1 = d_proc d" "d_funs d1 = d_funs d"
    "d_out d1 = d_out d"
proof -
  obtain p a' c where d: "d_pool d = Some p" "d_bps d = Some a'" "d_cmd d = Some c"
    and ar: "arrays_ok (d_heap d) p a' c" and f: "calloc_ok (k_calloc K)" "calloc_low (k_calloc K)"
    by (rule dbug_okE [OF ok])
  have aa: "a' = a" using d a by simp
  let ?a1 = "a\<lparr>a_nelts := a_nelts a + 1\<rparr>" and ?e = "a_elts a + a_size a * a_nelts a"
  let ?d1 = "d\<lparr>d_heap := d_heap d, d_pool := Some p, d_bps := Some ?a1\<rparr>"
  have u: "ngx_array_push (k_calloc K) (d_heap d) p a zero_bp = (?e, d_heap d, p, ?a1)"
    using a(2) by (simp add: ngx_array_push_def)
  have aok: "array_ok (pool_used (live (d_heap d)) p) a" using ar aa by (simp add: arrays_ok_def)
  have "unat (a_nelts a) \<noteq> unat (a_nalloc a)" using a(2) by (simp add: word_unat_eq_iff)
  then have lt: "unat (a_nelts a) < unat (a_nalloc a)" using aok by (simp add: array_ok_def)
  have "unat ?e = unat (a_elts a) + unat (a_size a) * unat (a_nelts a)"
    using lt by (intro array_slot_addr [OF aok]) auto
  moreover have "unat (a_elts a) \<noteq> 0" using aok by (simp add: array_ok_def unat_eq_0)
  ultimately have e: "?e \<noteq> 0" by (metis add_is_0 unat_0)
  note pa = push_arrays [OF f ar [unfolded aa] u e]
  have n1: "unat (a_nelts a + 1) = Suc (unat (a_nelts a))"
    using lt unat_lt_u64 [of "a_nalloc a"] by (subst unat_add_u64) auto
  have "unat (a_nelts ?a1) - 1 < length (a_slots ?a1)" using lt aok n1 by (simp add: array_ok_def)
  then have "push_bp K d g = g (a_slots ?a1 ! (unat (a_nelts ?a1) - 1)) ?d1"
    using u e d aa by (simp add: push_bp_def slot_def)
  moreover have "dbug_ok K ?d1" using pa(1) f d by (simp add: dbug_ok_def)
  moreover have "bp_list (set_bp b ?d1) = bp_list d @ [b]" for b
    using push_post_store [OF pa(2)] d aa by (simp add: bp_list_def set_bp_def)
  ultimately show ?thesis by (rule that) simp_all
qed

text \<open>
  C2: \<open>b name\<close> for a function of the table, while the array of breakpoints has room, adds one entry with the function's address, patches
  that one byte of the process with INT3, reports it, and keeps the table right: the process still
  is the original program with an INT3 at every breakpoint and each found entry holds the original
  byte, also when the address has a breakpoint already.\<close>

theorem command_break_correct:
  assumes ok: "dbug_ok K d" and room: "d_bps d = Some a" "a_nelts a \<noteq> a_nalloc a"
    and arg: "1 < length (a_slots arg)" "s_data (a_slots arg ! 1) = Some s"
    and f: "d_funs d = Some funs" "find_func (Some funs) (Some s) = Some (int i)"
    and addr: "faddr (fdata funs ! i) = addr"
    and tab: "table_ok orig (mem_of (d_proc d)) (bp_list d)" and acc: "mapped_word (mem_of (d_proc d)) addr"
  shows "\<exists>d' bp. command_break K d arg = Ret (0, d') \<and> dbug_ok K d' \<and> bp_list d' = bp_list d @ [bp] \<and>
    bp_addr bp = addr \<and> is_sf bp \<and> mem_of (d_proc d') = (mem_of (d_proc d))(addr \<mapsto> INT_3) \<and>
    table_ok orig (mem_of (d_proc d')) (bp_list d') \<and>
    d_out d' = d_out d @ [Printf ''break %lx(%s)'' [Hex addr, Str (Some (fname (fdata funs ! i)))]]"
proof -
  obtain bp d1 where p: "push_bp K d (break_at i) = break_at i bp d1" "dbug_ok K d1"
    "\<And>b. bp_list (set_bp b d1) = bp_list d @ [b]" "d_proc d1 = d_proc d" "d_funs d1 = d_funs d"
    "d_out d1 = d_out d" by (rule push_bp_total [OF ok room, of "break_at i"]) blast
  let ?bp = "bp\<lparr>bp_name := Some (fname (fdata funs ! i)), bp_addr := addr\<rparr>"
  have "mapped_word (mem_of (d_proc d)) (bp_addr ?bp)" using acc by simp
  then obtain t' bp' where raw:
    "insert_INT3_bp (d_proc d) ?bp = Ret (0, t', bp', [Printf ''break %lx(%s)'' [Hex (bp_addr ?bp), Str (bp_name ?bp)]])"
    "table_ok orig (mem_of t') (bp_list d @ [bp'])"
    "t' = set_mem (d_proc d) ((mem_of (d_proc d))(bp_addr ?bp \<mapsto> INT_3))"
    "bp_addr bp' = bp_addr ?bp" "is_sf bp'" by (rule insert_table_ok [OF tab]) blast
  then have ins: "insert_INT3_bp (d_proc d) ?bp = Ret (0, t', bp', [Printf ''break %lx(%s)'' [Hex addr, Str (bp_name ?bp)]])"
    and t': "table_ok orig (mem_of t') (bp_list d @ [bp'])"
      "t' = set_mem (d_proc d) ((mem_of (d_proc d))(addr \<mapsto> INT_3))" "bp_addr bp' = addr" "is_sf bp'"
    by simp_all
  let ?d' = "say [Printf ''break %lx(%s)'' [Hex addr, Str (bp_name ?bp)]] (set_bp bp' (d1\<lparr>d_proc := t'\<rparr>))"
  have "break_at i bp d1 = Ret (0, ?d')"
    using ins p(4,5) f(1) addr by (simp add: break_at_def)
  then have "command_break K d arg = Ret (0, ?d')"
    using arg f p(1) by (simp add: command_break_def slot_def)
  moreover have "bp_list ?d' = bp_list d @ [bp']"
    using p(3) [of bp'] by (simp add: bp_list_def set_bp_def)
  moreover have "dbug_ok K ?d'" by (rule say_set_bp_ok [OF p(2)])
  moreover have "mem_of t' = (mem_of (d_proc d))(addr \<mapsto> INT_3)"
    using mapped_not_None [OF acc] by (auto simp: t'(2) mem_of_set_mem)
  ultimately show ?thesis using t' p(6) by (intro exI [of _ ?d'] exI [of _ bp']) simp
qed

lemma init_keeps: "init_dbug K d = Ret (rc, d') \<Longrightarrow> d_proc d' = d_proc d \<and> d_funs d' = d_funs d"
  by (auto simp: init_dbug_def Ret_iffs Let_def split_beta)

lemma demo_table: "table_ok (\<lambda>_. Some 0x90) (mem_of (d_proc demo)) (bp_list demo)"
  "mapped_word (mem_of (d_proc demo)) a" "d_funs demo = Some demo_funs" "d_proc demo = Some demo_tracee"
proof -
  obtain rc where i: "init_dbug demo_kernel demo0 = Ret (rc, demo)" using demo_init by blast
  show "d_funs demo = Some demo_funs" using init_keeps [OF i] by (simp add: demo0_def)
  show p: "d_proc demo = Some demo_tracee" using init_keeps [OF i] by (simp add: demo0_def)
  then have m: "mem_of (d_proc demo) = (\<lambda>_. Some 0x90)" by (simp add: mem_of_def demo_tracee_def)
  show "mapped_word (mem_of (d_proc demo)) a" by (simp add: m mapped_word_iff)
  show "table_ok (\<lambda>_. Some 0x90) (mem_of (d_proc demo)) (bp_list demo)"
    by (simp add: m demo_ok(2) table_ok_def sf_at_def)
qed

lemma demo_bps: "\<exists>a. d_bps demo = Some a \<and> a_nelts a = 0 \<and> a_nalloc a = 10"
proof -
  have "(case d_bps demo of Some a \<Rightarrow> a_nelts a = 0 \<and> a_nalloc a = 10 | None \<Rightarrow> False)" by code_simp
  then show ?thesis by (auto split: option.splits)
qed

lemma command_break_correct_witness:
  "\<exists>d' bp. command_break demo_kernel demo (demo_cmds [ascii ''b'', ascii ''main'']) = Ret (0, d') \<and>
     bp_list d' = [bp] \<and> bp_addr bp = 0x401136 \<and> mem_of (d_proc d') 0x401136 = Some INT_3"
proof -
  obtain a where a: "d_bps demo = Some a" "a_nelts a \<noteq> a_nalloc a" using demo_bps by auto
  have f: "find_func (Some demo_funs) (Some (ascii ''main'' @ [0])) = Some (int 0)" by code_simp
  have "faddr (fdata demo_funs ! 0) = 0x401136" by (simp add: demo_funs_def)
  from command_break_correct [OF demo_ok(1) a _ _ demo_table(3) f this demo_table(1,2),
      of "demo_cmds [ascii ''b'', ascii ''main'']"]
  show ?thesis by (auto simp: demo_cmds_def str_of_def demo_ok(2) fun_upd_def)
qed

lemma trigger_HW_Ret:
  assumes "i = - 1 \<or> (\<exists>n < length (a_slots a). i = int n)"
  shows "\<exists>os. trigger_HW a i d = Ret (0, say os d)"
proof (cases "i = - 1")
  case True
  then have "trigger_HW a i d = Ret (0, say [] d)" by (simp add: trigger_HW_def say_def)
  then show ?thesis by blast
next
  case False
  then obtain n where "n < length (a_slots a)" "i = int n" using assms by blast
  then have "trigger_HW a i d =
      Ret (0, say [Printf ''trigger HW breakpoint %lx'' [Hex (bp_addr (a_slots a ! n))]] d)"
    by (simp add: trigger_HW_def slot_def)
  then show ?thesis by blast
qed

text \<open>
  C1: when the process, continued, stops with SIGTRAP one byte after a software breakpoint, \<open>c\<close>
  reports that breakpoint, lets the processor execute the one instruction there on the original
  byte and from the original address, and arms the breakpoint again: the table is right
  afterwards for the program's own view of its memory.  The step must not write to patched
  bytes nor unmap them.\<close>

theorem command_continue_breakpoint:
  assumes bps: "d_bps d = Some a" "counted a" and proc: "d_proc d = Some t"
    and cont: "k_cont K t = (Some t1, st)" "\<not> WIFEXITED st" "WSTOPSIG st = SIGTRAP"
    and tab: "table_ok orig (tr_mem t1) (array_list a)"
    and hit: "sf_at (array_list a) (reg_rip (tr_regs t1) - 1) = Some bp"
    and step: "k_step K (step_start t1 (tr_regs t1) orig (bp_addr bp)) = Some t2"
    and keeps: "\<forall>b\<in>set (array_list a). is_sf b \<longrightarrow>
      tr_mem t2 (bp_addr b) = tr_mem (step_start t1 (tr_regs t1) orig (bp_addr bp)) (bp_addr b) \<and>
      mapped_word (tr_mem t2) (bp_addr b)"
  shows "\<exists>d' os. command_continue K d arg = Ret (0, d') \<and> same_mem d d' \<and>
    d_proc d' = Some (t2\<lparr>tr_mem := (tr_mem t2)(bp_addr bp \<mapsto> INT_3)\<rparr>) \<and>
    table_ok (own_view orig (tr_mem t2) (array_list a)) (mem_of (d_proc d')) (bp_list d') \<and>
    reg_rip (d_regs d') = bp_addr bp \<and>
    d_out d' = d_out d @ Printf ''trigger breakpoint %lx(%s)'' [Hex (bp_addr bp), Str (bp_name bp)] # os"
proof -
  let ?a = "bp_addr bp" and ?regs = "tr_regs t1"
  let ?d2 = "d\<lparr>d_proc := Some t1, d_status := st, d_regs := ?regs\<rparr>"
  have rip: "reg_rip ?regs - 1 = ?a" using sf_at_Some [OF hit] by simp
  have d1: "continue_proc K d = d\<lparr>d_proc := Some t1, d_status := st\<rparr>"
    by (simp add: continue_proc_def proc cont(1))
  have d2: "get_regs (d\<lparr>d_proc := Some t1, d_status := st\<rparr>) = ?d2" by (simp add: get_regs_def)
  obtain j where j: "j < length (a_slots a)" "find_current_SF_bp (Some a) ?regs = Ret (int j)" "a_slots a ! j = bp"
    by (rule find_current_SF_found [OF bps(2) hit])
  have k: "\<And>b. b \<in> set (array_list a) \<Longrightarrow> is_sf b \<Longrightarrow>
      tr_mem t2 (bp_addr b) = tr_mem (step_start t1 ?regs orig ?a) (bp_addr b) \<and>
      mapped_word (tr_mem t2) (bp_addr b)" using keeps by blast
  note res = resume_table_ok [OF tab hit [unfolded rip] step k]
  let ?t3 = "t2\<lparr>tr_mem := (tr_mem t2)(?a \<mapsto> INT_3)\<rparr>"
  let ?d3 = "say [Printf ''trigger breakpoint %lx(%s)'' [Hex ?a, Str (bp_name bp)]]
    (?d2\<lparr>d_proc := Some ?t3, d_regs := ?regs\<lparr>reg_rip := ?a\<rparr>\<rparr>)"
  have t: "trigger_SF K a (int j) ?d2 = Ret ?d3" using res(1) j by (simp add: trigger_SF_def slot_def)
  obtain i where i: "find_current_HW_bp (Some a) (?regs\<lparr>reg_rip := ?a\<rparr>) = Ret i" "i = - 1 \<or> (\<exists>n < length (a_slots a). i = int n)"
    by (rule find_current_HW_Ret [OF bps(2)]) auto
  obtain os where hw: "trigger_HW a i ?d3 = Ret (0, say os ?d3)"
    using trigger_HW_Ret [OF i(2)] by blast
  have "command_continue K d arg = obind (find_current_SF_bp (Some a) ?regs) (\<lambda>index.
      obind (trigger_SF K a index ?d2) (\<lambda>d3.
        obind (find_current_HW_bp (d_bps d3) (d_regs d3)) (\<lambda>index2. trigger_HW a index2 d3)))"
    using cont(2,3) bps(1) by (simp add: command_continue_def d1 d2)
  also have "\<dots> = obind (find_current_HW_bp (d_bps ?d3) (d_regs ?d3)) (\<lambda>index2. trigger_HW a index2 ?d3)"
    by (simp only: j(2) t obind.simps)
  also have "\<dots> = Ret (0, say os ?d3)" using i(1) bps(1) hw by simp
  finally have "command_continue K d arg = Ret (0, say os ?d3)" .
  moreover have "table_ok (own_view orig (tr_mem t2) (array_list a)) (mem_of (Some ?t3)) (bp_list (say os ?d3))"
    using res(2) bps(1) by (simp add: mem_of_def bp_list_def)
  ultimately show ?thesis by (intro exI [of _ "say os ?d3"] exI [of _ os]) (simp add: same_mem_def)
qed

text \<open>The demonstration with a breakpoint at \<open>main\<close> already set.\<close>

definition demo_bp :: breakpoint where
  "demo_bp = \<lparr>bp_name = Some (ascii ''main'' @ [0]), bp_type = SFBP, bp_htype = 0, bp_addr = 0x401136,
     bp_orig_code = 0x90\<rparr>"

definition demo_table_array :: "breakpoint ngx_array" where
  "demo_table_array = \<lparr>a_self = 0x2000, a_elts = 0x2100, a_nelts = 1, a_size = 32, a_nalloc = 2,
     a_slots = [demo_bp, zero_bp]\<rparr>"

definition demo_patched :: tracee where
  "demo_patched = demo_tracee\<lparr>tr_mem := (\<lambda>_. Some 0x90)(0x401136 \<mapsto> INT_3)\<rparr>"

lemma command_continue_breakpoint_witness:
  "\<exists>d' os. command_continue demo_kernel (demo0\<lparr>d_bps := Some demo_table_array, d_proc := Some demo_patched\<rparr>)
       (demo_cmds [ascii ''c'']) = Ret (0, d') \<and>
     d_out d' = Printf ''trigger breakpoint %lx(%s)'' [Hex 0x401136, Str (Some (ascii ''main'' @ [0]))] # os \<and>
     mem_of (d_proc d') 0x401136 = Some INT_3"
proof -
  let ?d = "demo0\<lparr>d_bps := Some demo_table_array, d_proc := Some demo_patched\<rparr>"
  let ?t1 = "demo_patched\<lparr>tr_regs := demo_regs\<lparr>reg_rip := 0x401137\<rparr>\<rparr>"
  let ?start = "step_start ?t1 (tr_regs ?t1) (\<lambda>_. Some 0x90) 0x401136"
  let ?t2 = "?start\<lparr>tr_regs := (tr_regs ?start)\<lparr>reg_rip := 0x401137\<rparr>\<rparr>"
  have l: "array_list demo_table_array = [demo_bp]" by (simp add: array_list_def demo_table_array_def)
  have sf: "sf_at [demo_bp] a = (if a = 0x401136 then Some demo_bp else None)" for a
    by (auto simp: sf_at_def demo_bp_def is_sf_def SFBP_def)
  have cont: "k_cont demo_kernel demo_patched = (Some ?t1, 0x57f)"
    by (simp add: demo_kernel_def demo_patched_def demo_tracee_def)
  have st: "\<not> WIFEXITED 0x57f" "WSTOPSIG 0x57f = SIGTRAP" by code_simp+
  have tab: "table_ok (\<lambda>_. Some 0x90) (tr_mem ?t1) (array_list demo_table_array)"
    unfolding l table_ok_def sf
    by (auto simp: demo_patched_def demo_bp_def mapped_word_iff)
  have step: "k_step demo_kernel (step_start ?t1 (tr_regs ?t1) (\<lambda>_. Some 0x90) (bp_addr demo_bp)) = Some ?t2"
    by (simp add: demo_kernel_def step_start_def demo_bp_def)
  have cnt: "counted demo_table_array" by (simp add: counted_def demo_table_array_def)
  have keeps: "\<forall>b\<in>set (array_list demo_table_array). is_sf b \<longrightarrow>
      tr_mem ?t2 (bp_addr b) = tr_mem (step_start ?t1 (tr_regs ?t1) (\<lambda>_. Some 0x90) (bp_addr demo_bp)) (bp_addr b) \<and>
      mapped_word (tr_mem ?t2) (bp_addr b)"
    unfolding l by (simp add: step_start_def demo_bp_def demo_patched_def mapped_word_iff)
  from command_continue_breakpoint [OF _ cnt _ cont st tab _ step keeps, of ?d "demo_cmds [ascii ''c'']"]
  show ?thesis
    unfolding l sf by (auto simp: demo0_def mem_of_def demo_bp_def)
qed

text \<open>
  \<open>watch addr\<close> puts the address in debug register 0 whatever it held and enables it in DR7 with
  the R/W field 0, which breaks on execution, not on writing: an earlier watched address stays in
  the table but is no longer watched.\<close>

theorem command_watch_overwrites:
  assumes ok: "dbug_ok K d" and room: "d_bps d = Some a" "a_nelts a \<noteq> a_nalloc a"
    and arg: "1 < length (a_slots arg)" "s_data (a_slots arg ! 1) = Some s" "scan_lx (cstr s) = Some v"
    and proc: "d_proc d = Some t" and k: "\<And>t n v. k_pokeuser K t n v = Some (t\<lparr>tr_dr := (tr_dr t)(n := v)\<rparr>)"
  shows "\<exists>d' bp. command_watch K d arg = Ret (0, d') \<and> dbug_ok K d' \<and> bp_list d' = bp_list d @ [bp] \<and>
    bp_addr bp = v \<and> bp_type bp = HWBP \<and> d_proc d' = Some (t\<lparr>tr_dr := (tr_dr t)(0 := v, 7 := 3)\<rparr>) \<and>
    take_bit 2 (drop_bit 16 (tr_dr (the (d_proc d')) 7)) = 0 \<and> d_out d' = d_out d @ [Printf ''watch %lx'' [Hex v]]"
proof -
  obtain bp d1 where p: "push_bp K d (watch_at K (Some s)) = watch_at K (Some s) bp d1" "dbug_ok K d1"
    "\<And>b. bp_list (set_bp b d1) = bp_list d @ [b]" "d_proc d1 = d_proc d" "d_funs d1 = d_funs d"
    "d_out d1 = d_out d" by (rule push_bp_total [OF ok room, of "watch_at K (Some s)"]) blast
  let ?bp = "bp\<lparr>bp_addr := v, bp_type := HWBP\<rparr>" and ?t = "t\<lparr>tr_dr := (tr_dr t)(0 := v, 7 := 3)\<rparr>"
  have "dr7_word (zero_DR7\<lparr>L0 := 1, G0 := 1\<rparr>) = 3" by (simp add: dr7_word_def zero_DR7_def)
  then have ins: "insert_hard_break K (Some t) (bp\<lparr>bp_addr := v\<rparr>) = (0, Some ?t, ?bp, [])"
    by (simp add: insert_hard_break_def pokeuser_def k)
  let ?d' = "say [Printf ''watch %lx'' [Hex v]] (set_bp ?bp (d1\<lparr>d_proc := Some ?t\<rparr>))"
  have "command_watch K d arg = Ret (0, ?d')"
    using arg p(1,4) proc by (simp add: command_watch_def slot_def watch_at_def ins)
  moreover have "dbug_ok K ?d'" by (rule say_set_bp_ok [OF p(2)])
  moreover have "bp_list ?d' = bp_list d @ [?bp]" using p(3) [of ?bp] by (simp add: bp_list_def set_bp_def)
  moreover have "take_bit 2 (drop_bit 16 (3 :: u64)) = 0" by simp
  ultimately show ?thesis using p(6) by (intro exI [of _ ?d'] exI [of _ ?bp]) simp
qed

lemma command_watch_overwrites_witness:
  "\<exists>d'. command_watch demo_kernel demo (demo_cmds [ascii ''watch'', ascii ''40'']) = Ret (0, d') \<and>
     tr_dr (the (d_proc d')) 0 = 0x40"
proof -
  obtain a where a: "d_bps demo = Some a" "a_nelts a \<noteq> a_nalloc a" using demo_bps by auto
  have "cstr (ascii ''40'' @ [0]) = ascii ''40''" by (rule cstr_append_NUL) simp
  moreover have "hex_token (ascii ''40'')" "hex_number (ascii ''40'') = 64"
    by (simp_all add: hex_token_def hex_number_def hexval_def)
  ultimately have s: "scan_lx (cstr (ascii ''40'' @ [0])) = Some 0x40" by (simp add: scan_lx_hex_token del: ascii_Cons)
  have "k_pokeuser demo_kernel t n v = Some (t\<lparr>tr_dr := (tr_dr t)(n := v)\<rparr>)" for t n v
    by (simp add: demo_kernel_def)
  from command_watch_overwrites [OF demo_ok(1) a _ _ s demo_table(4) this,
      of "demo_cmds [ascii ''watch'', ascii ''40'']"]
  show ?thesis by (auto simp: demo_cmds_def str_of_def)
qed

text \<open>
  C3: from its start on, through any number of rounds of the main loop and any input, the two
  arrays of the debugger lie apart from each other inside the live memory of a well-formed pool,
  hold at most as many elements as they have slots, and nothing is freed that is not allocated.\<close>

theorem main_loop_keeps_memory:
  assumes "calloc_ok (k_calloc K)" "calloc_low (k_calloc K)" "heap_ok (d_heap d)" "heap_low (d_heap d)"
    and "init_dbug K d = Ret (rc, d1)" "d_bps d1 \<noteq> None" "d_cmd d1 \<noteq> None"
    and "rounds K n d1 = Ret d'"
  shows "\<exists>p a c. d_pool d' = Some p \<and> d_bps d' = Some a \<and> d_cmd d' = Some c \<and>
    heap_ok (d_heap d') \<and> pool_ok (live (d_heap d')) p \<and> array_region a \<inter> array_region c = {} \<and>
    array_region a \<union> array_region c \<subseteq> live_mem (live (d_heap d')) \<and>
    unat (a_nelts a) \<le> length (a_slots a) \<and> unat (a_nelts c) \<le> length (a_slots c)"
proof -
  have "dbug_ok K d'" using init_ok [OF assms(1-7)] rounds_ok assms(8) by blast
  then obtain p a c where d: "d_pool d' = Some p" "d_bps d' = Some a" "d_cmd d' = Some c"
    and ar: "arrays_ok (d_heap d') p a c" by (auto simp: dbug_ok_def)
  then have p: "pool_ok (live (d_heap d')) p" by (simp add: arrays_ok_def)
  have "array_region a \<union> array_region c \<subseteq> live_mem (live (d_heap d'))"
    using ar pool_used_live [OF p] by (auto simp: arrays_ok_def array_ok_def)
  then show ?thesis using d ar by (auto simp: arrays_ok_def array_ok_def)
qed

lemma main_loop_keeps_memory_witness:
  "case main_loop demo_kernel 1 (demo0\<lparr>d_stdin := ascii ''x'' @ [0x0a]\<rparr>) of Ret d' \<Rightarrow> heap_ok (d_heap d') | _ \<Rightarrow> False"
proof -
  let ?d = "demo0\<lparr>d_stdin := ascii ''x'' @ [0x0a]\<rparr>"
  have f: "calloc_ok (k_calloc demo_kernel)" "calloc_low (k_calloc demo_kernel)"
    "heap_ok (d_heap ?d)" "heap_low (d_heap ?d)"
    by (simp_all add: demo_kernel_def demo0_def low_calloc_ok low_calloc_low bump_calloc_ok
        empty_heap_ok empty_heap_low)
  have c: "(case init_dbug demo_kernel ?d of Ret (rc, d1) \<Rightarrow> d_bps d1 \<noteq> None \<and> d_cmd d1 \<noteq> None \<and>
      (case rounds demo_kernel 1 d1 of Ret x \<Rightarrow> True | _ \<Rightarrow> False) | _ \<Rightarrow> False)" by code_simp
  then obtain x where "init_dbug demo_kernel ?d = Ret x" by (cases "init_dbug demo_kernel ?d") auto
  then obtain rc d1 where i: "init_dbug demo_kernel ?d = Ret (rc, d1)" by (cases x) simp
  have n: "d_bps d1 \<noteq> None" "d_cmd d1 \<noteq> None"
    and r1: "(case rounds demo_kernel 1 d1 of Ret x \<Rightarrow> True | _ \<Rightarrow> False)"
    using c unfolding i outcome.case split_conv by blast+
  obtain d' where r: "rounds demo_kernel 1 d1 = Ret d'"
    using r1 by (cases "rounds demo_kernel 1 d1") (simp_all del: rounds.simps One_nat_def)
  have "main_loop demo_kernel 1 ?d = Ret d'" unfolding main_loop_def i obind.simps split_conv r ..
  then show ?thesis using main_loop_keeps_memory [OF f i n r] by auto
qed

text \<open>
  \<open>c\<close> with no traced process ends the debugger: \<open>PTRACE_CONT\<close> fails, \<open>wait\<close> leaves the status 0,
  which reads as a normal exit.\<close>

theorem command_continue_no_process:
  assumes "d_proc d = None" "d_status d = 0" "d_bps d \<noteq> None"
  shows "command_continue K d arg = Exit 0 (d_out d @ [Perror ''ptrace cont err''])"
  using assms by (auto simp: command_continue_def continue_proc_def WIFEXITED_def)

lemma command_continue_no_process_witness:
  "command_continue demo_kernel (demo\<lparr>d_proc := None, d_status := 0\<rparr>) (demo_cmds [ascii ''c'']) =
     Exit 0 (d_out demo @ [Perror ''ptrace cont err''])"
  using command_continue_no_process [of "demo\<lparr>d_proc := None, d_status := 0\<rparr>"] demo_bps by auto

text \<open>
  \<open>dbug path args\<close> passes \<open>exec\<close> as many arguments as the command has words: the last one is
  what the slot after the words holds, a word of an earlier, longer command when there was one,
  and then the argument list has no terminating NULL.\<close>

theorem command_dbug_argv:
  assumes "d_pool d = Some p" "fst (ngx_pcalloc (k_calloc K) (d_heap d) p (8 * a_nelts arg)) \<noteq> 0"
    and n: "unat (a_nelts arg) = Suc n" "Suc n < length (a_slots arg)"
    and "s_data (a_slots arg ! 1) = Some path"
    and "k_fork K = In_child" "k_traceme K" "\<And>p a. k_exec K p a"
  shows "command_dbug K d arg =
    Exec (cstr path) (map s_data (take n (drop 1 (a_slots arg))) @ [s_data (a_slots arg ! Suc n)])"
proof -
  obtain m h p' where m: "ngx_pcalloc (k_calloc K) (d_heap d) p (8 * a_nelts arg) = (m, h, p')"
    by (metis prod_cases3)
  have "map (\<lambda>i. s_data (a_slots arg ! (i + 1))) [0..<n] = map s_data (take n (drop 1 (a_slots arg)))"
    using n(2) by (intro nth_equalityI) auto
  then show ?thesis
    using assms m by (simp add: command_dbug_def slot_def dbug_pro_def)
qed

lemma command_dbug_argv_witness:
  "command_dbug (demo_kernel\<lparr>k_fork := In_child\<rparr>) demo
     ((demo_cmds [ascii ''dbug'', ascii ''a.out'', ascii ''old''])\<lparr>a_nelts := 2\<rparr>) =
   Exec (ascii ''a.out'') [Some (ascii ''a.out'' @ [0]), Some (ascii ''old'' @ [0])]"
proof -
  let ?arg = "(demo_cmds [ascii ''dbug'', ascii ''a.out'', ascii ''old''])\<lparr>a_nelts := 2\<rparr>"
  let ?K = "demo_kernel\<lparr>k_fork := In_child\<rparr>"
  have "d_pool demo \<noteq> None" by code_simp
  then obtain p where p: "d_pool demo = Some p" by auto
  have "(case d_pool demo of Some p \<Rightarrow> fst (ngx_pcalloc (k_calloc ?K) (d_heap demo) p (8 * 2))
     | None \<Rightarrow> 0) \<noteq> 0" by code_simp
  then have "fst (ngx_pcalloc (k_calloc ?K) (d_heap demo) p (8 * a_nelts ?arg)) \<noteq> 0" by (simp add: p)
  note p2 = this
  have c: "cstr (ascii ''a.out'' @ [0]) = ascii ''a.out''" by (rule cstr_append_NUL) simp
  have n: "unat (a_nelts ?arg) = Suc 1" "Suc 1 < length (a_slots ?arg)" by (simp_all add: demo_cmds_def)
  have sl: "s_data (a_slots ?arg ! 1) = Some (ascii ''a.out'' @ [0])"
    "s_data (a_slots ?arg ! Suc 1) = Some (ascii ''old'' @ [0])"
    "map s_data (take 1 (drop 1 (a_slots ?arg))) = [Some (ascii ''a.out'' @ [0])]"
    by (simp_all add: demo_cmds_def str_of_def del: ascii_Cons)
  have k: "k_fork ?K = In_child" "k_traceme ?K" "k_exec ?K x y" for x y by (simp_all add: demo_kernel_def)
  show ?thesis using command_dbug_argv [OF p p2 n sl(1) k] unfolding sl c by simp
qed

end
