(* ===== verification/Bytebuf.thy ===== *)
theory Bytebuf imports Prelude "HOL-Library.Monad_Syntax" begin

text \<open>
  Byte buffers for the string functions of \<open>src/ngx/ngx_string.c\<close>.  A destination pointer is a
  buffer (the bytes of the object from the pointer the function was given to the end of the
  object) and an offset into it; \<open>*d++ = c\<close> is a checked store at the offset, and a store past the
  end of the object is \<open>None\<close>.  Source and destination are separate objects.  The loops that read one source byte, store some bytes and go on
  share two contracts, the locales \<open>byte_emitter\<close> and \<open>counted_emitter\<close>: the first says what the
  whole loop stores, the second that the counting pass of the function (the one with \<open>dst == NULL\<close>)
  announces exactly the room the storing pass needs.
\<close>

text \<open>\<open>ngx_str_t\<close> with its bytes: the length and the object the pointer points to.\<close>

record ngx_strb =
  str_len :: u64
  str_data :: cptr

subsection \<open>Stores\<close>

definition put :: "bytes \<Rightarrow> nat \<Rightarrow> u8 \<Rightarrow> bytes option" where
  "put b d c = (if d < length b then Some (b[d := c]) else None)"

text \<open>\<open>*d++ = c1; *d++ = c2; ...\<close>\<close>

fun puts :: "bytes \<Rightarrow> nat \<Rightarrow> bytes \<Rightarrow> bytes option" where
  "puts b d [] = Some b"
| "puts b d (c # cs) = do { b' \<leftarrow> put b d c; puts b' (Suc d) cs }"

text \<open>Reading \<open>p[i]\<close> of an object.\<close>

definition get :: "cptr \<Rightarrow> nat \<Rightarrow> u8 option" where
  "get p i = (if i < length p then Some (p ! i) else None)"

lemma get_Some [simp]: "i < length p \<Longrightarrow> get p i = Some (p ! i)"
  by (simp add: get_def)

lemma get_None [simp]: "length p \<le> i \<Longrightarrow> get p i = None"
  by (simp add: get_def)

lemma puts_eq:
  "d \<le> length b \<Longrightarrow> puts b d cs =
     (if d + length cs \<le> length b then Some (take d b @ cs @ drop (d + length cs) b) else None)"
proof (induction cs arbitrary: b d)
  case (Cons c cs)
  show ?case
  proof (cases "d < length b")
    case True
    have "take (Suc d) (b[d := c]) = take d b @ [c]" using True by (simp add: take_Suc_conv_app_nth)
    then show ?thesis using True Cons.IH [of "Suc d" "b[d := c]"] by (simp add: put_def)
  qed (use Cons.prems in \<open>simp add: put_def\<close>)
qed simp

lemma puts_ok:
  "d + length cs \<le> length b \<Longrightarrow> puts b d cs = Some (take d b @ cs @ drop (d + length cs) b)"
  by (simp add: puts_eq)

lemma puts_append: "puts b d (xs @ ys) = puts b d xs \<bind> (\<lambda>b'. puts b' (d + length xs) ys)"
  by (induction xs arbitrary: b d) (auto simp: Option.bind_eq_Some_conv split: bind_splits)

text \<open>Consecutive stores are one store.\<close>

lemma puts_bind:
  "e = d + length xs \<Longrightarrow>
    (puts b d xs \<bind> (\<lambda>b'. puts b' e ys \<bind> f)) = (puts b d (xs @ ys) \<bind> f)"
  by (auto simp: puts_append Option.bind_assoc)

lemma put_length: "put b d c = Some b' \<Longrightarrow> length b' = length b"
  by (auto simp: put_def split: if_splits)

lemma puts_length: "puts b d cs = Some b' \<Longrightarrow> length b' = length b"
  by (induction cs arbitrary: b d) (auto simp: bind_eq_Some_conv dest: put_length)

subsection \<open>Byte loops\<close>

lemma length_concat_map_le:
  "(\<And>c. length (f c) \<le> w) \<Longrightarrow> length (concat (map f xs)) \<le> w * length xs"
  by (induction xs) (auto simp: add_mono)

text \<open>
  A loop that stores \<open>emit c\<close> for every one of the first \<open>n\<close> source bytes: \<open>go b d src n\<close> is the
  buffer afterwards and the offset of the next store.
\<close>

locale byte_emitter =
  fixes emit :: "u8 \<Rightarrow> bytes"
    and go :: "bytes \<Rightarrow> nat \<Rightarrow> cptr \<Rightarrow> nat \<Rightarrow> (bytes \<times> nat) option"
  assumes go_0: "go b d src 0 = Some (b, d)"
    and go_Nil: "go b d [] (Suc n) = None"
    and go_Cons: "go b d (c # src) (Suc n) =
      do { b' \<leftarrow> puts b d (emit c); go b' (d + length (emit c)) src n }"
begin

definition out :: "cptr \<Rightarrow> nat \<Rightarrow> bytes" where
  "out src n = concat (map emit (take n src))"

lemma go_puts:
  "n \<le> length src \<Longrightarrow>
     go b d src n = do { b' \<leftarrow> puts b d (out src n); Some (b', d + length (out src n)) }"
proof (induction n arbitrary: b d src)
  case 0
  show ?case by (simp add: go_0 out_def)
next
  case (Suc n)
  then obtain c src' where src: "src = c # src'" by (cases src) auto
  with Suc show ?case by (simp add: go_Cons out_def puts_append add.assoc)
qed

lemma go_ok:
  assumes "n \<le> length src" and "d + length (out src n) \<le> length b"
  shows "go b d src n =
    Some (take d b @ out src n @ drop (d + length (out src n)) b, d + length (out src n))"
  using assms by (simp add: go_puts puts_eq)

lemma go_no_room:
  assumes "n \<le> length src" and "d \<le> length b" and "length b < d + length (out src n)"
  shows "go b d src n = None"
  using assms by (simp add: go_puts puts_eq)

lemma go_past_source: "length src < n \<Longrightarrow> go b d src n = None"
proof (induction n arbitrary: b d src)
  case (Suc n)
  then show ?case by (cases src) (auto simp: go_Nil go_Cons split: bind_splits)
qed simp

end

text \<open>
  With the counting pass: the encoding of a byte takes \<open>k * units c\<close> bytes more than the byte
  itself, and \<open>count a src n\<close> adds up the units.
\<close>

locale counted_emitter = byte_emitter +
  fixes k :: nat
    and units :: "u8 \<Rightarrow> nat"
    and count :: "u64 \<Rightarrow> cptr \<Rightarrow> nat \<Rightarrow> u64 option"
  assumes emit_length: "length (emit c) = Suc (k * units c)"
    and count_0: "count a src 0 = Some a"
    and count_Nil: "count a [] (Suc n) = None"
    and count_Cons: "count a (c # src) (Suc n) = count (a + of_nat (units c)) src n"
begin

definition total :: "cptr \<Rightarrow> nat \<Rightarrow> nat" where
  "total src n = sum_list (map units (take n src))"

lemma length_out: "n \<le> length src \<Longrightarrow> length (out src n) = n + k * total src n"
proof (induction n arbitrary: src)
  case (Suc n)
  then show ?case by (cases src) (auto simp: out_def total_def emit_length algebra_simps)
qed (simp add: out_def total_def)

lemma count_eq: "n \<le> length src \<Longrightarrow> count a src n = Some (a + of_nat (total src n))"
proof (induction n arbitrary: a src)
  case (Suc n)
  then show ?case by (cases src) (auto simp: total_def count_Cons add.assoc)
qed (simp add: count_0 total_def)

lemma count_past_source: "length src < n \<Longrightarrow> count a src n = None"
proof (induction n arbitrary: a src)
  case (Suc n)
  then show ?case by (cases src) (auto simp: count_Nil count_Cons)
qed simp

text \<open>The announced room is exactly what the storing pass uses.\<close>

lemma count_is_room:
  assumes n: "n \<le> length src" and k: "0 < k" and small: "length (out src n) < 2 ^ 64"
  obtains m where "count 0 src n = Some m" and "length (out src n) = n + k * unat m"
proof
  have "total src n \<le> k * total src n" using k by simp
  then have "total src n < 2 ^ 64" using small length_out [OF n] by linarith
  then show "length (out src n) = n + k * unat (of_nat (total src n) :: u64)"
    using length_out [OF n] by (simp add: unat_of_nat_u64)
  show "count 0 src n = Some (of_nat (total src n))" using n by (simp add: count_eq)
qed

text \<open>Both passes together: the buffer is overrun exactly when it is shorter than announced.\<close>

lemma passes_agree:
  assumes n: "n \<le> length src" and k: "0 < k" and small: "length (out src n) < 2 ^ 64"
  shows "\<exists>m. count 0 src n = Some m \<and> length (out src n) = n + k * unat m \<and>
    (\<forall>b. go b 0 src n =
       (if n + k * unat m \<le> length b
        then Some (out src n @ drop (n + k * unat m) b, n + k * unat m) else None))"
proof -
  obtain m where m: "count 0 src n = Some m" "length (out src n) = n + k * unat m"
    using count_is_room [OF assms] .
  have "go b 0 src n = (if n + k * unat m \<le> length b
      then Some (out src n @ drop (n + k * unat m) b, n + k * unat m) else None)" for b
    using go_ok [OF n, of 0 b] go_no_room [OF n, of 0 b] by (auto simp: m(2))
  then show ?thesis using m by blast
qed

end

subsection \<open>All bytes\<close>

lemma all_bytes: "(\<forall>c :: u8. P c) \<longleftrightarrow> list_all (\<lambda>n. P (of_nat n)) [0..<256]"
proof
  assume *: "list_all (\<lambda>n. P (of_nat n)) [0..<256]"
  have "P c" for c :: u8
    using * unat_less_256 [of c] by (auto simp: list_all_iff dest: bspec [of _ _ "unat c"])
  then show "\<forall>c. P c" ..
qed (simp add: list_all_iff)

text \<open>Equality of bytes bit by bit.\<close>

lemma bit_u8_beyond: "8 \<le> n \<Longrightarrow> \<not> bit (a :: u8) n"
  using bit_imp_le_length [of a n] by auto

lemma u8_eqI:
  assumes "bit (a :: u8) 0 = bit b 0" "bit a 1 = bit b 1" "bit a 2 = bit b 2" "bit a 3 = bit b 3"
    "bit a 4 = bit b 4" "bit a 5 = bit b 5" "bit a 6 = bit b 6" "bit a 7 = bit b 7"
  shows "a = b"
proof (rule bit_word_eqI)
  fix n assume "n < LENGTH(8)"
  then have "n < 8" by simp
  then consider "n = 0" | "n = 1" | "n = 2" | "n = 3" | "n = 4" | "n = 5" | "n = 6" | "n = 7"
    by linarith
  then show "bit a n = bit b n" using assms by cases simp_all
qed

lemma u8_eq_bits:
  "(a :: u8) = b \<longleftrightarrow> (bit a 0 = bit b 0) \<and> (bit a 1 = bit b 1) \<and> (bit a 2 = bit b 2) \<and>
     (bit a 3 = bit b 3) \<and> (bit a 4 = bit b 4) \<and> (bit a 5 = bit b 5) \<and> (bit a 6 = bit b 6) \<and>
     (bit a 7 = bit b 7)"
  by (rule iffI, simp, elim conjE, rule u8_eqI)

end
