(* ===== verification/Escape.thy ===== *)
theory Escape imports Bytebuf begin

text \<open>
  URI, HTML and JSON escaping and URI unescaping of \<open>src/ngx/ngx_string.c\<close> (\<open>ngx_escape_uri\<close>,
  \<open>ngx_unescape_uri\<close>, \<open>ngx_escape_html\<close>, \<open>ngx_escape_json\<close>).  The three escapers have a counting
  pass (\<open>dst == NULL\<close>) and a storing pass; each is an instance of the \<open>counted_emitter\<close> contract of
  \<open>Bytebuf\<close>.  The lemmas show that the counting pass announces exactly the room the storing pass
  uses, that nothing outside that room is written, and that unescaping inverts escaping.
\<close>

text \<open>The \<open>uintptr_t\<close> result: a count, or the destination object and the offset of the end.\<close>

datatype escaped = Count u64 | Written bytes nat

subsection \<open>The tables of \<open>ngx_escape_uri\<close>\<close>

definition escape_uri_map :: "u32 list" where
  "escape_uri_map = [0xffffffff, 0x80000029, 0x00000000, 0x80000000,
     0xffffffff, 0xffffffff, 0xffffffff, 0xffffffff]"

definition escape_args_map :: "u32 list" where
  "escape_args_map = [0xffffffff, 0x88000869, 0x00000000, 0x80000000,
     0xffffffff, 0xffffffff, 0xffffffff, 0xffffffff]"

definition escape_uri_component_map :: "u32 list" where
  "escape_uri_component_map = [0xffffffff, 0xfc009fff, 0x78000001, 0xb8000001,
     0xffffffff, 0xffffffff, 0xffffffff, 0xffffffff]"

definition escape_html_map :: "u32 list" where
  "escape_html_map = [0xffffffff, 0x000000ad, 0x00000000, 0x80000000,
     0xffffffff, 0xffffffff, 0xffffffff, 0xffffffff]"

definition escape_refresh_map :: "u32 list" where
  "escape_refresh_map = [0xffffffff, 0x00000085, 0x00000000, 0x80000000,
     0xffffffff, 0xffffffff, 0xffffffff, 0xffffffff]"

definition escape_memcached_map :: "u32 list" where
  "escape_memcached_map = [0xffffffff, 0x00000021, 0x00000000, 0x00000000,
     0x00000000, 0x00000000, 0x00000000, 0x00000000]"

definition escape_map :: "u32 list list" where
  "escape_map = [escape_uri_map, escape_args_map, escape_uri_component_map, escape_html_map,
     escape_refresh_map, escape_memcached_map, escape_memcached_map]"

definition HEX_digits :: bytes where
  "HEX_digits = ascii ''0123456789ABCDEF''"

text \<open>\<open>escape[*src >> 5] & (1U << (*src & 0x1f))\<close>\<close>

definition escape_bit :: "u32 list \<Rightarrow> u8 \<Rightarrow> bool" where
  "escape_bit tbl c \<longleftrightarrow>
     (tbl ! unat (drop_bit 5 c)) AND push_bit (unat (c AND 0x1f)) 1 \<noteq> 0"

subsection \<open>\<open>ngx_escape_uri\<close>\<close>

fun escape_uri_count :: "u32 list \<Rightarrow> u64 \<Rightarrow> cptr \<Rightarrow> nat \<Rightarrow> u64 option" where
  "escape_uri_count tbl n src 0 = Some n"
| "escape_uri_count tbl n [] (Suc k) = None"
| "escape_uri_count tbl n (c # src) (Suc k) =
     escape_uri_count tbl (if escape_bit tbl c then n + 1 else n) src k"

fun escape_uri_store :: "u32 list \<Rightarrow> bytes \<Rightarrow> nat \<Rightarrow> cptr \<Rightarrow> nat \<Rightarrow> (bytes \<times> nat) option" where
  "escape_uri_store tbl dst d src 0 = Some (dst, d)"
| "escape_uri_store tbl dst d [] (Suc k) = None"
| "escape_uri_store tbl dst d (c # src) (Suc k) =
     (if escape_bit tbl c then do {
        dst' \<leftarrow> puts dst d [0x25, HEX_digits ! unat (drop_bit 4 c), HEX_digits ! unat (c AND 0xf)];
        escape_uri_store tbl dst' (d + 3) src k }
      else do {
        dst' \<leftarrow> puts dst d [c];
        escape_uri_store tbl dst' (d + 1) src k })"

definition ngx_escape_uri :: "bytes option \<Rightarrow> cptr \<Rightarrow> nat \<Rightarrow> nat \<Rightarrow> escaped option" where
  "ngx_escape_uri dst src k type =
     (if type < length escape_map then
        let tbl = escape_map ! type in
        (case dst of
           None \<Rightarrow> map_option Count (escape_uri_count tbl 0 src k)
         | Some b \<Rightarrow> map_option (\<lambda>(b', d). Written b' d) (escape_uri_store tbl b 0 src k))
      else None)"

text \<open>What one byte becomes.\<close>

definition uri_emit :: "u32 list \<Rightarrow> u8 \<Rightarrow> bytes" where
  "uri_emit tbl c =
     (if escape_bit tbl c
      then [0x25, HEX_digits ! unat (drop_bit 4 c), HEX_digits ! unat (c AND 0xf)] else [c])"

interpretation uri: counted_emitter "uri_emit tbl" "escape_uri_store tbl" 2
    "\<lambda>c. if escape_bit tbl c then 1 else 0" "escape_uri_count tbl" for tbl
  by unfold_locales (auto simp: uri_emit_def numeral_3_eq_3)

subsection \<open>\<open>ngx_escape_html\<close>\<close>

fun escape_html_count :: "u64 \<Rightarrow> cptr \<Rightarrow> nat \<Rightarrow> u64 option" where
  "escape_html_count len src 0 = Some len"
| "escape_html_count len [] (Suc k) = None"
| "escape_html_count len (c # src) (Suc k) =
     escape_html_count
       (if c = 0x3c then len + 3        \<comment> \<open>sizeof of the entity less 2\<close>
        else if c = 0x3e then len + 3
        else if c = 0x26 then len + 4
        else if c = 0x22 then len + 5
        else len) src k"

text \<open>The bytes the storing pass writes for one byte of the source.\<close>

definition html_emit :: "u8 \<Rightarrow> bytes" where
  "html_emit c =
     (if c = 0x3c then ascii ''&lt;''
      else if c = 0x3e then ascii ''&gt;''
      else if c = 0x26 then ascii ''&amp;''
      else if c = 0x22 then ascii ''&quot;''
      else [c])"

fun escape_html_store :: "bytes \<Rightarrow> nat \<Rightarrow> cptr \<Rightarrow> nat \<Rightarrow> (bytes \<times> nat) option" where
  "escape_html_store dst d src 0 = Some (dst, d)"
| "escape_html_store dst d [] (Suc k) = None"
| "escape_html_store dst d (c # src) (Suc k) =
     do { dst' \<leftarrow> puts dst d (html_emit c);
          escape_html_store dst' (d + length (html_emit c)) src k }"

definition ngx_escape_html :: "bytes option \<Rightarrow> cptr \<Rightarrow> nat \<Rightarrow> escaped option" where
  "ngx_escape_html dst src k =
     (case dst of
        None \<Rightarrow> map_option Count (escape_html_count 0 src k)
      | Some b \<Rightarrow> map_option (\<lambda>(b', d). Written b' d) (escape_html_store b 0 src k))"

definition html_units :: "u8 \<Rightarrow> nat" where
  "html_units c = length (html_emit c) - 1"

interpretation html: counted_emitter html_emit escape_html_store 1 html_units escape_html_count
  by unfold_locales (auto simp: html_emit_def html_units_def)

subsection \<open>\<open>ngx_escape_json\<close>\<close>

fun escape_json_count :: "u64 \<Rightarrow> cptr \<Rightarrow> nat \<Rightarrow> u64 option" where
  "escape_json_count len src 0 = Some len"
| "escape_json_count len [] (Suc k) = None"
| "escape_json_count len (c # src) (Suc k) =
     escape_json_count
       (if c = 0x5c \<or> c = 0x22 then len + 1
        else if c \<le> 0x1f then
          (if c = 0x0a \<or> c = 0x0d \<or> c = 0x09 \<or> c = 0x08 \<or> c = 0x0c then len + 1
           else len + 5)
        else len) src k"

definition json_emit :: "u8 \<Rightarrow> bytes" where
  "json_emit c =
     (if 0x1f < c then (if c = 0x5c \<or> c = 0x22 then [0x5c, c] else [c])
      else 0x5c #
        (if c = 0x0a then ascii ''n''
         else if c = 0x0d then ascii ''r''
         else if c = 0x09 then ascii ''t''
         else if c = 0x08 then ascii ''b''
         else if c = 0x0c then ascii ''f''
         else ascii ''u00'' @ [0x30 + drop_bit 4 c,
           let c' = c AND 0xf in if c' < 10 then 0x30 + c' else 0x41 + c' - 10]))"

fun escape_json_store :: "bytes \<Rightarrow> nat \<Rightarrow> cptr \<Rightarrow> nat \<Rightarrow> (bytes \<times> nat) option" where
  "escape_json_store dst d src 0 = Some (dst, d)"
| "escape_json_store dst d [] (Suc k) = None"
| "escape_json_store dst d (c # src) (Suc k) =
     do { dst' \<leftarrow> puts dst d (json_emit c);
          escape_json_store dst' (d + length (json_emit c)) src k }"

definition ngx_escape_json :: "bytes option \<Rightarrow> cptr \<Rightarrow> nat \<Rightarrow> escaped option" where
  "ngx_escape_json dst src k =
     (case dst of
        None \<Rightarrow> map_option Count (escape_json_count 0 src k)
      | Some b \<Rightarrow> map_option (\<lambda>(b', d). Written b' d) (escape_json_store b 0 src k))"

definition json_units :: "u8 \<Rightarrow> nat" where
  "json_units c = length (json_emit c) - 1"

lemma json_units_counted:
  "(if c = 0x5c \<or> c = 0x22 then a + 1
    else if c \<le> 0x1f then
      (if c = 0x0a \<or> c = 0x0d \<or> c = 0x09 \<or> c = 0x08 \<or> c = 0x0c then a + 1 else a + 5)
    else a) = a + of_nat (json_units c)"
  by (auto simp: json_units_def json_emit_def not_less)

interpretation json: counted_emitter json_emit escape_json_store 1 json_units escape_json_count
proof unfold_locales
  show "length (json_emit c) = Suc (1 * json_units c)" for c
    by (simp add: json_units_def json_emit_def)
  show "escape_json_count a (c # src) (Suc n) =
      escape_json_count (a + of_nat (json_units c)) src n" for a c src n
    by (simp only: escape_json_count.simps json_units_counted)
qed simp_all


subsection \<open>\<open>ngx_unescape_uri\<close>\<close>

datatype sw_state = sw_usual | sw_quoted | sw_quoted_second

definition NGX_UNESCAPE_URI :: u64 where "NGX_UNESCAPE_URI = 1"
definition NGX_UNESCAPE_REDIRECT :: u64 where "NGX_UNESCAPE_REDIRECT = 2"

definition flag :: "u64 \<Rightarrow> u64 \<Rightarrow> bool" where
  "flag type f \<longleftrightarrow> type AND f \<noteq> 0"

definition is_digit :: "u8 \<Rightarrow> bool" where
  "is_digit c \<longleftrightarrow> 0x30 \<le> c \<and> c \<le> 0x39"

definition is_a_f :: "u8 \<Rightarrow> bool" where
  "is_a_f c \<longleftrightarrow> 0x61 \<le> c \<and> c \<le> 0x66"

text \<open>
  One iteration on the byte \<open>ch\<close> with \<open>s2 = *(s - 2)\<close>: the bytes stored, the new state, the new
  \<open>decoded\<close>, and whether the loop is left (\<open>goto done\<close>).
\<close>

fun unescape_step :: "u64 \<Rightarrow> sw_state \<Rightarrow> u8 \<Rightarrow> u8 \<Rightarrow> u8 \<Rightarrow> bytes \<times> sw_state \<times> u8 \<times> bool" where
  "unescape_step type sw_usual decoded s2 ch =
     (if ch = 0x3f \<and> flag type (NGX_UNESCAPE_URI OR NGX_UNESCAPE_REDIRECT)
      then ([ch], sw_usual, decoded, True)
      else if ch = 0x25 then ([], sw_quoted, decoded, False)
      else ([ch], sw_usual, decoded, False))"
| "unescape_step type sw_quoted decoded s2 ch =
     (if is_digit ch then ([], sw_quoted_second, ch - 0x30, False)
      else let c = ch OR 0x20 in
        if is_a_f c then ([], sw_quoted_second, c - 0x61 + 10, False)
        else ([ch], sw_usual, decoded, False))"
| "unescape_step type sw_quoted_second decoded s2 ch =
     (if is_digit ch then
        let ch' = push_bit 4 decoded + (ch - 0x30) in
        if flag type NGX_UNESCAPE_REDIRECT then
          (if 0x25 < ch' \<and> ch' < 0x7f then ([ch'], sw_usual, decoded, False)
           else ([0x25, s2, ch], sw_usual, decoded, False))
        else ([ch'], sw_usual, decoded, False)
      else let c = ch OR 0x20 in
        if is_a_f c then
          let ch' = push_bit 4 decoded + (c - 0x61) + 10 in
          if flag type NGX_UNESCAPE_URI then
            (if ch' = 0x3f then ([ch'], sw_usual, decoded, True)
             else ([ch'], sw_usual, decoded, False))
          else if flag type NGX_UNESCAPE_REDIRECT then
            (if ch' = 0x3f then ([ch'], sw_usual, decoded, True)
             else if 0x25 < ch' \<and> ch' < 0x7f then ([ch'], sw_usual, decoded, False)
             else ([0x25, s2, ch], sw_usual, decoded, False))
          else ([ch'], sw_usual, decoded, False)
        else ([], sw_usual, decoded, False))"

text \<open>
  The loop: \<open>s\<close> is the offset of the next source byte, the result the destination and both final
  offsets.  The store of \<open>*(s - 2)\<close> happens in the third state only, two bytes after a \<open>%\<close>, so
  the byte exists.
\<close>

fun unescape_loop ::
  "u64 \<Rightarrow> bytes \<Rightarrow> nat \<Rightarrow> cptr \<Rightarrow> nat \<Rightarrow> nat \<Rightarrow> sw_state \<Rightarrow> u8 \<Rightarrow> (bytes \<times> nat \<times> nat) option" where
  "unescape_loop type dst d src s 0 st decoded = Some (dst, d, s)"
| "unescape_loop type dst d src s (Suc k) st decoded =
     do { ch \<leftarrow> get src s;
          let (w, st', decoded', stop) = unescape_step type st decoded (src ! (s - 1)) ch;
          dst' \<leftarrow> puts dst d w;
          if stop then Some (dst', d + length w, Suc s)
          else unescape_loop type dst' (d + length w) src (Suc s) k st' decoded' }"

definition ngx_unescape_uri :: "bytes \<Rightarrow> cptr \<Rightarrow> nat \<Rightarrow> u64 \<Rightarrow> (bytes \<times> nat \<times> nat) option" where
  "ngx_unescape_uri dst src k type = unescape_loop type dst 0 src 0 k sw_usual 0"

text \<open>The loop as a transducer on the rest of the source, without buffers.\<close>

fun unescape_bytes :: "u64 \<Rightarrow> sw_state \<Rightarrow> u8 \<Rightarrow> u8 \<Rightarrow> bytes \<Rightarrow> bytes \<times> nat" where
  "unescape_bytes type st decoded s2 [] = ([], 0)"
| "unescape_bytes type st decoded s2 (ch # cs) =
     (let (w, st', decoded', stop) = unescape_step type st decoded s2 ch in
      if stop then (w, 1)
      else let (ws, m) = unescape_bytes type st' decoded' ch cs in (w @ ws, Suc m))"

lemma unescape_loop_bytes:
  "s + k \<le> length src \<Longrightarrow>
   unescape_bytes type st decoded (src ! (s - 1)) (take k (drop s src)) = (w, m) \<Longrightarrow>
   unescape_loop type dst d src s k st decoded =
     do { dst' \<leftarrow> puts dst d w; Some (dst', d + length w, s + m) }"
proof (induction k arbitrary: s st decoded dst d w m)
  case 0
  then show ?case by simp
next
  case (Suc k)
  obtain w1 st1 de1 stop where
    st: "unescape_step type st decoded (src ! (s - 1)) (src ! s) = (w1, st1, de1, stop)"
    by (cases "unescape_step type st decoded (src ! (s - 1)) (src ! s)") auto
  note st = st [simplified]
  have s: "s < length src" and src: "drop s src = src ! s # drop (Suc s) src"
    using Suc.prems(1) by (auto simp: Cons_nth_drop_Suc)
  obtain ws m1 where
    rest: "unescape_bytes type st1 de1 (src ! s) (take k (drop (Suc s) src)) = (ws, m1)"
    by fastforce
  note IH = Suc.IH [of "Suc s" st1 de1 ws m1]
  show ?case
  proof (cases stop)
    case True
    then have "w = w1" "m = 1" using Suc.prems(2) by (auto simp: src st)
    then show ?thesis using s True by (simp add: st)
  next
    case False
    then have wm: "w = w1 @ ws" "m = Suc m1" using Suc.prems(2) by (auto simp: src st rest)
    show ?thesis using s False IH Suc.prems(1) rest
      by (simp add: st wm puts_append add.assoc)
  qed
qed

lemma ngx_unescape_uri_bytes:
  assumes k: "k \<le> length src"
    and b: "unescape_bytes type sw_usual 0 (src ! 0) (take k src) = (w, m)"
    and room: "length w \<le> length dst"
  shows "ngx_unescape_uri dst src k type = Some (w @ drop (length w) dst, length w, m)"
  using unescape_loop_bytes [of 0 k src type sw_usual 0 w m dst 0] assms
  by (simp add: ngx_unescape_uri_def puts_eq)

text \<open>Unescaping never lengthens a string: it can be done in place.\<close>

lemma unescape_bytes_len:
  "unescape_bytes type st decoded s2 cs = (w, m) \<Longrightarrow>
     m \<le> length cs \<and> length w \<le> m + (case st of sw_usual \<Rightarrow> 0 | sw_quoted \<Rightarrow> 1 | sw_quoted_second \<Rightarrow> 2)"
proof (induction type st decoded s2 cs arbitrary: w m rule: unescape_bytes.induct)
  case (2 type st decoded s2 ch cs)
  obtain w1 st1 de1 stop where st: "unescape_step type st decoded s2 ch = (w1, st1, de1, stop)"
    by (cases "unescape_step type st decoded s2 ch") auto
  obtain ws m1 where rest: "unescape_bytes type st1 de1 ch cs = (ws, m1)" by fastforce
  have w1: "length w1 + (case st1 of sw_usual \<Rightarrow> 0 | sw_quoted \<Rightarrow> 1 | sw_quoted_second \<Rightarrow> 2)
      \<le> 1 + (case st of sw_usual \<Rightarrow> 0 | sw_quoted \<Rightarrow> 1 | sw_quoted_second \<Rightarrow> 2)"
    using st by (cases st) (auto simp: Let_def split: if_splits)
  show ?case
    using "2.IH" [OF st [symmetric] refl refl refl _ rest] "2.prems" w1 by (auto simp: st rest split: if_splits)
qed simp

subsection \<open>Unescaping inverts escaping\<close>

definition escape_safe :: "nat \<Rightarrow> u8 \<Rightarrow> bool" where
  "escape_safe type c \<longleftrightarrow> escape_bit (escape_map ! type) c \<or> c \<noteq> 0x25"

text \<open>A hexadecimal digit and the value \<open>ngx_unescape_uri\<close> reads from it.\<close>

lemma HEX_digits_value:
  assumes "x < 16"
  shows "let h = HEX_digits ! unat x in
    (is_digit h \<and> h - 0x30 = x) \<or>
    (\<not> is_digit h \<and> is_a_f (h OR 0x20) \<and> (h OR 0x20) - 0x61 + 10 = x)"
proof -
  have "\<forall>x :: u8. x < 16 \<longrightarrow> (let h = HEX_digits ! unat x in
      (is_digit h \<and> h - 0x30 = x) \<or>
      (\<not> is_digit h \<and> is_a_f (h OR 0x20) \<and> (h OR 0x20) - 0x61 + 10 = x))"
    unfolding all_bytes by code_simp
  then show ?thesis using assms by blast
qed

lemma nibbles:
  "drop_bit 4 c < (16 :: u8)" "(c :: u8) AND 0xf < 16"
  "push_bit 4 (drop_bit 4 c) + (c AND 0xf) = (c :: u8)"
proof -
  have "\<forall>c :: u8. drop_bit 4 c < 16 \<and> c AND 0xf < 16 \<and> push_bit 4 (drop_bit 4 c) + (c AND 0xf) = c"
    unfolding all_bytes by code_simp
  then show "drop_bit 4 c < (16 :: u8)" "(c :: u8) AND 0xf < 16"
    "push_bit 4 (drop_bit 4 c) + (c AND 0xf) = (c :: u8)" by blast+
qed

lemma flag_0 [simp]: "\<not> flag 0 f"
  by (simp add: flag_def)

lemma unescape_hex_first:
  assumes "x < 16"
  shows "unescape_step type sw_quoted de s2 (HEX_digits ! unat x) = ([], sw_quoted_second, x, False)"
  using HEX_digits_value [OF assms] by (auto simp: Let_def)

lemma unescape_hex_second:
  assumes "x < 16"
  shows "unescape_step 0 sw_quoted_second de s2 (HEX_digits ! unat x) =
    ([push_bit 4 de + x], sw_usual, de, False)"
  using HEX_digits_value [OF assms] by (auto simp: Let_def add.assoc)

lemma unescape_hex_pair:
  "unescape_bytes 0 sw_usual de s2
     (0x25 # HEX_digits ! unat (drop_bit 4 c) # HEX_digits ! unat (c AND 0xf) # cs) =
   (let (ws, m) = unescape_bytes 0 sw_usual (drop_bit 4 c) (HEX_digits ! unat (c AND 0xf)) cs
    in (c # ws, m + 3))"
  using unescape_hex_first [OF nibbles(1) [of c]] unescape_hex_second [OF nibbles(2) [of c]]
  by (simp add: nibbles(3) Let_def split: prod.split)

lemma unescape_emit:
  assumes "escape_bit tbl c \<or> c \<noteq> 0x25"
  shows "\<exists>de' s2'. unescape_bytes 0 sw_usual de s2 (uri_emit tbl c @ cs) =
    (let (ws, m) = unescape_bytes 0 sw_usual de' s2' cs in (c # ws, m + length (uri_emit tbl c)))"
proof (cases "escape_bit tbl c")
  case True
  then have e: "uri_emit tbl c @ cs =
      0x25 # HEX_digits ! unat (drop_bit 4 c) # HEX_digits ! unat (c AND 0xf) # cs"
    "length (uri_emit tbl c) = 3" by (simp_all add: uri_emit_def)
  show ?thesis unfolding e unescape_hex_pair by blast
next
  case False
  then show ?thesis using assms
    by (intro exI [of _ de] exI [of _ c]) (auto simp: uri_emit_def Let_def split: prod.split)
qed

lemma unescape_escape_bytes:
  "(\<And>c. c \<in> set cs \<Longrightarrow> escape_bit tbl c \<or> c \<noteq> 0x25) \<Longrightarrow>
   unescape_bytes 0 sw_usual de s2 (concat (map (uri_emit tbl) cs)) =
     (cs, length (concat (map (uri_emit tbl) cs)))"
proof (induction cs arbitrary: de s2)
  case (Cons c cs)
  obtain de' s2' where
    "unescape_bytes 0 sw_usual de s2 (uri_emit tbl c @ concat (map (uri_emit tbl) cs)) =
     (let (ws, m) = unescape_bytes 0 sw_usual de' s2' (concat (map (uri_emit tbl) cs))
      in (c # ws, m + length (uri_emit tbl c)))"
    using unescape_emit [of tbl c de s2 "concat (map (uri_emit tbl) cs)"] Cons.prems [of c] by auto
  then show ?case using Cons.IH [of de' s2'] Cons.prems by simp
qed simp

text \<open>Every table but the one for \<open>NGX_ESCAPE_REFRESH\<close> escapes \<open>%\<close>.\<close>

lemma percent_escaped: "type < 7 \<Longrightarrow> escape_bit (escape_map ! type) 0x25 \<longleftrightarrow> type \<noteq> 4"
proof -
  have "list_all (\<lambda>t. escape_bit (escape_map ! t) 0x25 \<longleftrightarrow> t \<noteq> 4) [0..<7]" by code_simp
  then show "type < 7 \<Longrightarrow> ?thesis" by (simp add: list_all_iff)
qed

lemma escape_map_length: "length escape_map = 7"
  by (simp add: escape_map_def)

lemma uri_out_le: "n \<le> length src \<Longrightarrow> length (uri.out tbl src n) \<le> 3 * n"
  using length_concat_map_le [of "uri_emit tbl" 3 "take n src"]
  by (simp add: uri.out_def uri_emit_def)

lemma html_out_le: "n \<le> length src \<Longrightarrow> length (html.out src n) \<le> 6 * n"
  using length_concat_map_le [of html_emit 6 "take n src"]
  by (simp add: html.out_def html_emit_def)

lemma json_out_le: "n \<le> length src \<Longrightarrow> length (json.out src n) \<le> 6 * n"
  using length_concat_map_le [of json_emit 6 "take n src"]
  by (simp add: json.out_def json_emit_def)

text \<open>What the escaped text can hold.\<close>

lemma html_emit_clean: "c' \<in> set (html_emit c) \<Longrightarrow> c' \<noteq> 0x3c \<and> c' \<noteq> 0x3e \<and> c' \<noteq> 0x22"
  by (auto simp: html_emit_def split: if_splits)

lemma json_emit_clean: "c' \<in> set (json_emit c) \<Longrightarrow> 0x20 \<le> c'"
proof -
  have "\<forall>c. list_all (\<lambda>c'. 0x20 \<le> c') (json_emit c)" unfolding all_bytes by code_simp
  then show "c' \<in> set (json_emit c) \<Longrightarrow> 0x20 \<le> c'" by (auto simp: list_all_iff)
qed

text \<open>
  C30: The counting pass of \<open>ngx_escape_uri\<close> announces the room its storing pass uses: a destination with
  that room receives the escaped text and nothing else is written, and \<open>ngx_unescape_uri\<close> without
  flags turns the escaped text back into the source, for every type of escaping that escapes \<open>%\<close>
  itself (all but \<open>NGX_ESCAPE_REFRESH\<close>, which is undone only where the source has no \<open>%\<close>).
\<close>

theorem ngx_escape_uri_roundtrip:
  assumes n: "n \<le> length src" "3 * n < 2 ^ 64"
    and type: "type < 7" "type = 4 \<Longrightarrow> 0x25 \<notin> set (take n src)"
    and room: "ngx_escape_uri None src n type = Some (Count k)" "n + 2 * unat k \<le> length dst"
    and out: "n \<le> length out"
  shows "\<exists>dst'. ngx_escape_uri (Some dst) src n type = Some (Written dst' (n + 2 * unat k)) \<and>
    drop (n + 2 * unat k) dst' = drop (n + 2 * unat k) dst \<and>
    ngx_unescape_uri out dst' (n + 2 * unat k) 0 =
      Some (take n src @ drop n out, n, n + 2 * unat k)"
proof -
  define tbl where "tbl = escape_map ! type"
  define esc where "esc = uri.out tbl src n"
  have small: "length esc < 2 ^ 64" using uri_out_le [OF n(1), of tbl] n(2) by (simp add: esc_def)
  obtain m where m: "escape_uri_count tbl 0 src n = Some m" "length esc = n + 2 * unat m"
      "escape_uri_store tbl b 0 src n = (if n + 2 * unat m \<le> length b
        then Some (esc @ drop (n + 2 * unat m) b, n + 2 * unat m) else None)" for b
    using uri.passes_agree [OF n(1), of tbl] small by (auto simp: esc_def)
  have k: "m = k" using room(1) type(1) m(1)
    by (simp add: ngx_escape_uri_def escape_map_length tbl_def Let_def)
  have "unescape_bytes 0 sw_usual 0 (esc ! 0) esc = (take n src, length esc)"
    unfolding esc_def uri.out_def
  proof (rule unescape_escape_bytes)
    fix c assume "c \<in> set (take n src)"
    then show "escape_bit tbl c \<or> c \<noteq> 0x25"
      using type percent_escaped [OF type(1)] by (auto simp: tbl_def)
  qed
  then have "ngx_unescape_uri out (esc @ drop (n + 2 * unat k) dst) (n + 2 * unat k) 0 =
      Some (take n src @ drop n out, n, n + 2 * unat k)"
    using ngx_unescape_uri_bytes [of "length esc" "esc @ drop (n + 2 * unat k) dst" 0
        "take n src" "length esc" out] n(1) out m(2)
    by (cases esc) (simp_all add: k)
  then show ?thesis using room(2) type(1) m
    by (simp add: ngx_escape_uri_def escape_map_length tbl_def [symmetric] Let_def k)
qed

lemma ngx_escape_uri_roundtrip_witness:
  "\<exists>dst'. ngx_escape_uri (Some (replicate 9 0)) (ascii ''a b?c'') 5 1 = Some (Written dst' 9) \<and>
    drop 9 dst' = [] \<and>
    ngx_unescape_uri (replicate 6 1) dst' 9 0 = Some (ascii ''a b?c'' @ [1], 5, 9)"
proof -
  have k: "ngx_escape_uri None (ascii ''a b?c'') 5 1 = Some (Count 2)" by code_simp
  show ?thesis
    using ngx_escape_uri_roundtrip [OF _ _ _ _ k, where dst = "replicate 9 0" and
        out = "replicate 6 1"]
    by simp
qed

subsection \<open>Readers of escaped text\<close>

text \<open>
  The escaped text is judged by the rules of the format, not by the escaper.  A reader of one unit
  gives the byte the unit stands for and the rest of the text, or \<open>None\<close> for a text the format does
  not allow.
\<close>

function read_units :: "(bytes \<Rightarrow> (u8 \<times> bytes) option) \<Rightarrow> bytes \<Rightarrow> bytes option" where
  "read_units rd [] = Some []"
| "read_units rd (c # s) =
     (case rd (c # s) of
        None \<Rightarrow> None
      | Some (b, r) \<Rightarrow>
          if length r \<le> length s then map_option (Cons b) (read_units rd r) else None)"
  by pat_completeness auto
termination by (relation "measure (length \<circ> snd)") auto

text \<open>
  HTML text: a bare \<open><\<close>, \<open>>\<close> or quote is an error, an ampersand has to start one of the four entities.
\<close>

definition html_entities :: "(bytes \<times> u8) list" where
  "html_entities =
     [(ascii ''lt;'', 0x3c), (ascii ''gt;'', 0x3e), (ascii ''amp;'', 0x26), (ascii ''quot;'', 0x22)]"

fun html_unit :: "bytes \<Rightarrow> (u8 \<times> bytes) option" where
  "html_unit [] = None"
| "html_unit (c # s) =
     (if c = 0x3c \<or> c = 0x3e \<or> c = 0x22 then None
      else if c = 0x26 then
        map_option (\<lambda>(name, b). (b, drop (length name) s)) (find (\<lambda>(name, b). take (length name) s = name) html_entities)
      else Some (c, s))"

text \<open>
  JSON strings (RFC 8259): a bare quote or control character is an error, a backslash is followed by
  one of eight letters or by \<open>u\<close> and the four hexadecimal digits of a code point, here one of one byte.
\<close>

definition hex_value :: "u8 \<Rightarrow> nat option" where
  "hex_value c =
     (if 0x30 \<le> c \<and> c \<le> 0x39 then Some (unat c - 0x30)
      else if 0x41 \<le> c \<and> c \<le> 0x46 then Some (unat c - 0x41 + 10)
      else if 0x61 \<le> c \<and> c \<le> 0x66 then Some (unat c - 0x61 + 10)
      else None)"

definition json_letters :: "(u8 \<times> u8) list" where
  "json_letters = [(0x22, 0x22), (0x5c, 0x5c), (0x2f, 0x2f), (0x62, 0x08), (0x66, 0x0c), (0x6e, 0x0a),
     (0x72, 0x0d), (0x74, 0x09)]"

fun json_code :: "bytes \<Rightarrow> (u8 \<times> bytes) option" where
  "json_code (h1 # h2 # h3 # h4 # s) =
     do { a \<leftarrow> hex_value h1; b \<leftarrow> hex_value h2; c \<leftarrow> hex_value h3; d \<leftarrow> hex_value h4;
          let v = ((a * 16 + b) * 16 + c) * 16 + d;
          if v < 0x80 then Some (of_nat v, s) else None }"
| "json_code s = None"

fun json_escape :: "bytes \<Rightarrow> (u8 \<times> bytes) option" where
  "json_escape [] = None"
| "json_escape (e # s) =
     (case map_of json_letters e of
        Some b \<Rightarrow> Some (b, s)
      | None \<Rightarrow> if e = 0x75 then json_code s else None)"

fun json_unit :: "bytes \<Rightarrow> (u8 \<times> bytes) option" where
  "json_unit [] = None"
| "json_unit (c # s) =
     (if c = 0x22 \<or> c < 0x20 then None
      else if c = 0x5c then json_escape s
      else Some (c, s))"

lemma read_units_emitted:
  assumes unit: "\<And>c xs. rd (emit c @ xs) = Some (c, xs)" and "\<And>c. emit c \<noteq> []"
  shows "read_units rd (concat (map emit cs)) = Some cs"
proof (induction cs)
  case (Cons c cs)
  obtain e es where "emit c = e # es" using assms(2) [of c] by (cases "emit c") auto
  then show ?case using unit [of c "concat (map emit cs)"] Cons.IH by simp
qed simp

lemma html_unit_emit: "html_unit (html_emit c @ xs) = Some (c, xs)"
  by (simp add: html_emit_def html_entities_def)

lemma json_code_append: "json_code s = Some (b, r) \<Longrightarrow> json_code (s @ xs) = Some (b, r @ xs)"
  by (cases s rule: json_code.cases) (auto simp: bind_eq_Some_conv Let_def split: if_splits)

lemma json_unit_append: "json_unit s = Some (b, r) \<Longrightarrow> json_unit (s @ xs) = Some (b, r @ xs)"
  by (cases s; cases "tl s") (auto split: if_splits option.splits intro: json_code_append)

lemma json_unit_emit: "json_unit (json_emit c @ xs) = Some (c, xs)"
proof -
  have "\<forall>c. json_unit (json_emit c) = Some (c, [])" unfolding all_bytes by code_simp
  then show ?thesis using json_unit_append [of "json_emit c" c "[]" xs] by simp
qed

lemma html_out_read: "read_units html_unit (html.out src n) = Some (take n src)"
  unfolding html.out_def by (intro read_units_emitted html_unit_emit) (simp add: html_emit_def)

lemma json_out_read: "read_units json_unit (json.out src n) = Some (take n src)"
  unfolding json.out_def by (intro read_units_emitted json_unit_emit) (simp add: json_emit_def)

text \<open>
  C34: For \<open>ngx_escape_html\<close> and \<open>ngx_escape_json\<close> the counting pass announces exactly the room
  the storing pass needs: into a destination that long the whole escaped text is stored and the
  rest of it kept, a shorter one is overrun.  Read by the rules of HTML and of JSON strings, under
  which a bare special character is an error, the escaped text gives the source again; the escaped
  HTML has no \<open><\<close>, \<open>>\<close> or quote at all, the escaped JSON no control character.
\<close>

theorem ngx_escape_exact_room:
  assumes n: "n \<le> length src" "n < 2 ^ 60"
  shows "(\<exists>k s. ngx_escape_html None src n = Some (Count k) \<and> length s = n + unat k \<and>
      read_units html_unit s = Some (take n src) \<and>
      (\<forall>c \<in> set s. c \<noteq> 0x3c \<and> c \<noteq> 0x3e \<and> c \<noteq> 0x22) \<and>
      (\<forall>dst. ngx_escape_html (Some dst) src n =
        (if length s \<le> length dst then Some (Written (s @ drop (length s) dst) (length s)) else None)))
    \<and> (\<exists>k s. ngx_escape_json None src n = Some (Count k) \<and> length s = n + unat k \<and>
      read_units json_unit s = Some (take n src) \<and>
      (\<forall>c \<in> set s. 0x20 \<le> c) \<and>
      (\<forall>dst. ngx_escape_json (Some dst) src n =
        (if length s \<le> length dst then Some (Written (s @ drop (length s) dst) (length s)) else None)))"
    (is "(\<exists>k s. ?html k s) \<and> (\<exists>k s. ?json k s)")
proof
  have "\<forall>c \<in> set (html.out src n). c \<noteq> 0x3c \<and> c \<noteq> 0x3e \<and> c \<noteq> 0x22"
    using html_emit_clean by (auto simp: html.out_def)
  moreover obtain m where
      "escape_html_count 0 src n = Some m" "length (html.out src n) = n + 1 * unat m"
      "escape_html_store b 0 src n = (if n + 1 * unat m \<le> length b
        then Some (html.out src n @ drop (n + 1 * unat m) b, n + 1 * unat m) else None)" for b
    using html.passes_agree [OF n(1)] html_out_le [OF n(1)] n(2) by auto
  ultimately have "?html m (html.out src n)"
    using html_out_read by (simp add: ngx_escape_html_def)
  then show "\<exists>k s. ?html k s" by blast
next
  have "\<forall>c \<in> set (json.out src n). 0x20 \<le> c"
    using json_emit_clean by (auto simp: json.out_def)
  moreover obtain m where
      "escape_json_count 0 src n = Some m" "length (json.out src n) = n + 1 * unat m"
      "escape_json_store b 0 src n = (if n + 1 * unat m \<le> length b
        then Some (json.out src n @ drop (n + 1 * unat m) b, n + 1 * unat m) else None)" for b
    using json.passes_agree [OF n(1)] json_out_le [OF n(1)] n(2) by auto
  ultimately have "?json m (json.out src n)"
    using json_out_read by (simp add: ngx_escape_json_def)
  then show "\<exists>k s. ?json k s" by blast
qed

text \<open>A quote and a newline in JSON: the escaped text, its room, and what it is read as.\<close>

lemma ngx_escape_exact_room_witness:
  "ngx_escape_json (Some [1, 2, 3, 4, 5]) [0x22, 0x0a] 2 =
      Some (Written [0x5c, 0x22, 0x5c, 0x6e, 5] 4) \<and>
    ngx_escape_json None [0x22, 0x0a] 2 = Some (Count 2) \<and>
    read_units json_unit [0x5c, 0x22, 0x5c, 0x6e] = Some [0x22, 0x0a]"
proof -
  have w: "ngx_escape_json (Some [1, 2, 3, 4, 5]) [0x22, 0x0a] 2 =
      Some (Written [0x5c, 0x22, 0x5c, 0x6e, 5] 4)" by code_simp
  obtain k s where k: "ngx_escape_json None [0x22, 0x0a] 2 = Some (Count k)" "length s = 2 + unat k"
      "read_units json_unit s = Some (take 2 [0x22, 0x0a])"
    and dst: "\<forall>dst. ngx_escape_json (Some dst) [0x22, 0x0a] 2 =
      (if length s \<le> length dst then Some (Written (s @ drop (length s) dst) (length s)) else None)"
    using conjunct2 [OF ngx_escape_exact_room [of 2 "[0x22, 0x0a]"]] by auto
  have s: "length s = 4" "s @ drop (length s) [1, 2, 3, 4, 5] = [0x5c, 0x22, 0x5c, 0x6e, 5]"
    using dst [rule_format, of "[1, 2, 3, 4, 5]"] unfolding w by (simp_all split: if_splits)
  have "s @ [5] = [0x5c, 0x22, 0x5c, 0x6e] @ [5]" using s(2) unfolding s(1) by simp
  then have "s = [0x5c, 0x22, 0x5c, 0x6e]" by (simp only: append_same_eq)
  moreover have "unat k = unat (2 :: u64)" using k(2) s(1) by simp
  then have "k = 2" by (rule unsigned_word_eqI)
  ultimately show ?thesis using w k by simp
qed

end
