(* ===== verification/Base64.thy ===== *)
theory Base64 imports Bytebuf begin

text \<open>
  Base64 of \<open>src/ngx/ngx_string.c\<close>: \<open>ngx_encode_base64\<close>, \<open>ngx_encode_base64url\<close> and their decoders.
  An alphabet is a pair of the encoder's 64 characters and the decoder's 256 entry table; the
  locale \<open>base64_alphabet\<close> says that they fit together, and the round trip is proved once for it.
\<close>

subsection \<open>The tables\<close>

definition basis64 :: bytes where
  "basis64 = ascii ''ABCDEFGHIJKLMNOPQRSTUVWXYZabcdefghijklmnopqrstuvwxyz0123456789+/''"

definition basis64url :: bytes where
  "basis64url = ascii ''ABCDEFGHIJKLMNOPQRSTUVWXYZabcdefghijklmnopqrstuvwxyz0123456789-_''"

definition dec_basis64 :: bytes where
  "dec_basis64 = [
    77, 77, 77, 77, 77, 77, 77, 77, 77, 77, 77, 77, 77, 77, 77, 77,
    77, 77, 77, 77, 77, 77, 77, 77, 77, 77, 77, 77, 77, 77, 77, 77,
    77, 77, 77, 77, 77, 77, 77, 77, 77, 77, 77, 62, 77, 77, 77, 63,
    52, 53, 54, 55, 56, 57, 58, 59, 60, 61, 77, 77, 77, 77, 77, 77,
    77,  0,  1,  2,  3,  4,  5,  6,  7,  8,  9, 10, 11, 12, 13, 14,
    15, 16, 17, 18, 19, 20, 21, 22, 23, 24, 25, 77, 77, 77, 77, 77,
    77, 26, 27, 28, 29, 30, 31, 32, 33, 34, 35, 36, 37, 38, 39, 40,
    41, 42, 43, 44, 45, 46, 47, 48, 49, 50, 51, 77, 77, 77, 77, 77] @ replicate 128 77"

definition dec_basis64url :: bytes where
  "dec_basis64url = [
    77, 77, 77, 77, 77, 77, 77, 77, 77, 77, 77, 77, 77, 77, 77, 77,
    77, 77, 77, 77, 77, 77, 77, 77, 77, 77, 77, 77, 77, 77, 77, 77,
    77, 77, 77, 77, 77, 77, 77, 77, 77, 77, 77, 77, 77, 62, 77, 77,
    52, 53, 54, 55, 56, 57, 58, 59, 60, 61, 77, 77, 77, 77, 77, 77,
    77,  0,  1,  2,  3,  4,  5,  6,  7,  8,  9, 10, 11, 12, 13, 14,
    15, 16, 17, 18, 19, 20, 21, 22, 23, 24, 25, 77, 77, 77, 77, 63,
    77, 26, 27, 28, 29, 30, 31, 32, 33, 34, 35, 36, 37, 38, 39, 40,
    41, 42, 43, 44, 45, 46, 47, 48, 49, 50, 51, 77, 77, 77, 77, 77] @ replicate 128 77"

subsection \<open>Encoding\<close>

definition enc0 :: "u8 \<Rightarrow> u8" where "enc0 s0 = drop_bit 2 s0 AND 0x3f"
definition enc1 :: "u8 \<Rightarrow> u8 \<Rightarrow> u8" where "enc1 s0 s1 = push_bit 4 (s0 AND 3) OR drop_bit 4 s1"
definition enc2 :: "u8 \<Rightarrow> u8 \<Rightarrow> u8" where "enc2 s1 s2 = push_bit 2 (s1 AND 0x0f) OR drop_bit 6 s2"
definition enc3 :: "u8 \<Rightarrow> u8" where "enc3 s2 = s2 AND 0x3f"

text \<open>The part after the loop, for the last zero, one or two bytes.\<close>

definition encode_base64_tail ::
  "bytes \<Rightarrow> bool \<Rightarrow> bytes \<Rightarrow> nat \<Rightarrow> cptr \<Rightarrow> nat \<Rightarrow> (bytes \<times> nat) option" where
  "encode_base64_tail basis padding dst d s len =
     (if len = 0 then Some (dst, d)
      else do {
        s0 \<leftarrow> get s 0;
        dst1 \<leftarrow> puts dst d [basis ! unat (enc0 s0)];
        (dst2, d2) \<leftarrow>
          (if len = 1 then do {
             b \<leftarrow> puts dst1 (d + 1) [basis ! unat (push_bit 4 (s0 AND 3))];
             if padding then do { b' \<leftarrow> puts b (d + 2) [0x3d]; Some (b', d + 3) } else Some (b, d + 2) }
           else do {
             s1 \<leftarrow> get s 1;
             b \<leftarrow> puts dst1 (d + 1) [basis ! unat (enc1 s0 s1), basis ! unat (push_bit 2 (s1 AND 0x0f))];
             Some (b, d + 3) });
        if padding then do { b \<leftarrow> puts dst2 d2 [0x3d]; Some (b, d2 + 1) } else Some (dst2, d2) })"

fun encode_base64_loop ::
  "bytes \<Rightarrow> bool \<Rightarrow> bytes \<Rightarrow> nat \<Rightarrow> cptr \<Rightarrow> nat \<Rightarrow> (bytes \<times> nat) option" where
  "encode_base64_loop basis padding dst d s len =
     (if 2 < len then do {
        s0 \<leftarrow> get s 0; s1 \<leftarrow> get s 1; s2 \<leftarrow> get s 2;
        dst' \<leftarrow> puts dst d [basis ! unat (enc0 s0), basis ! unat (enc1 s0 s1),
          basis ! unat (enc2 s1 s2), basis ! unat (enc3 s2)];
        encode_base64_loop basis padding dst' (d + 4) (drop 3 s) (len - 3) }
      else encode_base64_tail basis padding dst d s len)"

declare encode_base64_loop.simps [simp del]

definition ngx_encode_base64_internal :: "ngx_strb \<Rightarrow> ngx_strb \<Rightarrow> bytes \<Rightarrow> bool \<Rightarrow> ngx_strb option" where
  "ngx_encode_base64_internal dst src basis padding =
     do { (b, d) \<leftarrow> encode_base64_loop basis padding (str_data dst) 0 (str_data src)
            (unat (str_len src));
          Some (dst\<lparr>str_data := b, str_len := of_nat d\<rparr>) }"

definition ngx_encode_base64 :: "ngx_strb \<Rightarrow> ngx_strb \<Rightarrow> ngx_strb option" where
  "ngx_encode_base64 dst src = ngx_encode_base64_internal dst src basis64 True"

definition ngx_encode_base64url :: "ngx_strb \<Rightarrow> ngx_strb \<Rightarrow> ngx_strb option" where
  "ngx_encode_base64url dst src = ngx_encode_base64_internal dst src basis64url False"

definition ngx_base64_encoded_length :: "u64 \<Rightarrow> u64" where
  "ngx_base64_encoded_length len = ((len + 2) div 3) * 4"

definition ngx_base64_decoded_length :: "u64 \<Rightarrow> u64" where
  "ngx_base64_decoded_length len = ((len + 3) div 4) * 3"

subsection \<open>Decoding\<close>

text \<open>
  The length of the text before the first \<open>=\<close>; \<open>None\<close> inside is the \<open>NGX_ERROR\<close> of a character
  that is not in the alphabet.
\<close>

function base64_text_len :: "bytes \<Rightarrow> cptr \<Rightarrow> nat \<Rightarrow> nat \<Rightarrow> nat option option" where
  "base64_text_len basis p n len =
     (if len < n then do {
        c \<leftarrow> get p len;
        if c = 0x3d then Some (Some len)
        else if basis ! unat c = 77 then Some None
        else base64_text_len basis p n (Suc len) }
      else Some (Some len))"
  by pat_completeness auto
termination by (relation "measure (\<lambda>(basis, p, n, len). n - len)") auto

declare base64_text_len.simps [simp del]

definition dec0 :: "u8 \<Rightarrow> u8 \<Rightarrow> u8" where "dec0 a b = push_bit 2 a OR drop_bit 4 b"
definition dec1 :: "u8 \<Rightarrow> u8 \<Rightarrow> u8" where "dec1 b c = push_bit 4 b OR drop_bit 2 c"
definition dec2 :: "u8 \<Rightarrow> u8 \<Rightarrow> u8" where "dec2 c e = push_bit 6 c OR e"

fun decode_base64_loop :: "bytes \<Rightarrow> bytes \<Rightarrow> nat \<Rightarrow> cptr \<Rightarrow> nat \<Rightarrow> (bytes \<times> nat) option" where
  "decode_base64_loop basis dst d s len =
     (let v = \<lambda>c. basis ! unat c in
      if 3 < len then do {
        s0 \<leftarrow> get s 0; s1 \<leftarrow> get s 1; s2 \<leftarrow> get s 2; s3 \<leftarrow> get s 3;
        dst' \<leftarrow> puts dst d [dec0 (v s0) (v s1), dec1 (v s1) (v s2), dec2 (v s2) (v s3)];
        decode_base64_loop basis dst' (d + 3) (drop 4 s) (len - 4) }
      else do {
        (dst1, d1) \<leftarrow> (if 1 < len then do {
            s0 \<leftarrow> get s 0; s1 \<leftarrow> get s 1;
            b \<leftarrow> puts dst d [dec0 (v s0) (v s1)]; Some (b, d + 1) } else Some (dst, d));
        (if 2 < len then do {
            s1 \<leftarrow> get s 1; s2 \<leftarrow> get s 2;
            b \<leftarrow> puts dst1 d1 [dec1 (v s1) (v s2)]; Some (b, d1 + 1) } else Some (dst1, d1)) })"

declare decode_base64_loop.simps [simp del]

definition ngx_decode_base64_internal :: "ngx_strb \<Rightarrow> ngx_strb \<Rightarrow> bytes \<Rightarrow> (int \<times> ngx_strb) option" where
  "ngx_decode_base64_internal dst src basis =
     do { l \<leftarrow> base64_text_len basis (str_data src) (unat (str_len src)) 0;
          (case l of
             None \<Rightarrow> Some (NGX_ERROR, dst)
           | Some len \<Rightarrow>
               if len mod 4 = 1 then Some (NGX_ERROR, dst)
               else do {
                 (b, d) \<leftarrow> decode_base64_loop basis (str_data dst) 0 (str_data src) len;
                 Some (NGX_OK, dst\<lparr>str_data := b, str_len := of_nat d\<rparr>) }) }"

definition ngx_decode_base64 :: "ngx_strb \<Rightarrow> ngx_strb \<Rightarrow> (int \<times> ngx_strb) option" where
  "ngx_decode_base64 dst src = ngx_decode_base64_internal dst src dec_basis64"

definition ngx_decode_base64url :: "ngx_strb \<Rightarrow> ngx_strb \<Rightarrow> (int \<times> ngx_strb) option" where
  "ngx_decode_base64url dst src = ngx_decode_base64_internal dst src dec_basis64url"

subsection \<open>The bytes stored\<close>

fun b64_tail :: "bytes \<Rightarrow> bool \<Rightarrow> bytes \<Rightarrow> bytes" where
  "b64_tail basis pad [s0] = [basis ! unat (enc0 s0), basis ! unat (enc1 s0 0)] @
     (if pad then [0x3d, 0x3d] else [])"
| "b64_tail basis pad [s0, s1] = [basis ! unat (enc0 s0), basis ! unat (enc1 s0 s1),
     basis ! unat (enc2 s1 0)] @ (if pad then [0x3d] else [])"
| "b64_tail basis pad _ = []"

fun b64 :: "bytes \<Rightarrow> bool \<Rightarrow> bytes \<Rightarrow> bytes" where
  "b64 basis pad (s0 # s1 # s2 # s) =
     [basis ! unat (enc0 s0), basis ! unat (enc1 s0 s1), basis ! unat (enc2 s1 s2),
      basis ! unat (enc3 s2)] @ b64 basis pad s"
| "b64 basis pad s = b64_tail basis pad s"

lemma enc_0: "enc1 s0 0 = push_bit 4 (s0 AND 3)" "enc2 s1 0 = push_bit 2 (s1 AND 0x0f)"
  by (simp_all add: enc1_def enc2_def)

lemma encode_tail_b64:
  assumes "length s < 3"
  shows "encode_base64_tail basis pad dst d (s @ r) (length s) =
    do { b \<leftarrow> puts dst d (b64 basis pad s); Some (b, d + length (b64 basis pad s)) }"
proof (cases s)
  case (Cons s0 s')
  have "s' = [] \<or> (\<exists>s1. s' = [s1])" using assms Cons by (cases s') auto
  then show ?thesis
    by (cases pad)
      (auto simp: Cons encode_base64_tail_def enc_0 Option.bind_assoc eval_nat_numeral)
qed (simp add: encode_base64_tail_def)

lemma encode_loop_b64:
  "encode_base64_loop basis pad dst d (s @ r) (length s) =
    do { b \<leftarrow> puts dst d (b64 basis pad s); Some (b, d + length (b64 basis pad s)) }"
proof (induction basis pad s arbitrary: dst d rule: b64.induct)
  case (1 basis pad s0 s1 s2 s)
  have "encode_base64_loop basis pad dst d ((s0 # s1 # s2 # s) @ r) (length (s0 # s1 # s2 # s)) =
    do { dst' \<leftarrow> puts dst d [basis ! unat (enc0 s0), basis ! unat (enc1 s0 s1),
          basis ! unat (enc2 s1 s2), basis ! unat (enc3 s2)];
        encode_base64_loop basis pad dst' (d + 4) (s @ r) (length s) }"
    by (subst encode_base64_loop.simps) (simp add: numeral_3_eq_3 del: puts.simps)
  also have "\<dots> = puts dst d (b64 basis pad (s0 # s1 # s2 # s)) \<bind>
      (\<lambda>b. Some (b, d + length (b64 basis pad (s0 # s1 # s2 # s))))"
    by (simp add: "1.IH" puts_bind del: puts.simps) (simp add: eval_nat_numeral)
  finally show ?case .
qed (subst encode_base64_loop.simps, simp add: encode_tail_b64 [of "[]", simplified]
  encode_tail_b64 [of "[_]", simplified] encode_tail_b64 [of "[_, _]", simplified])+

lemma get_append [simp]: "i < length s \<Longrightarrow> get (s @ r) i = Some (s ! i)"
  by (simp add: get_def nth_append)

fun b64_dec :: "bytes \<Rightarrow> bytes \<Rightarrow> bytes" where
  "b64_dec D (a # b # c # e # s) =
     [dec0 (D ! unat a) (D ! unat b), dec1 (D ! unat b) (D ! unat c),
      dec2 (D ! unat c) (D ! unat e)] @ b64_dec D s"
| "b64_dec D [a, b, c] = [dec0 (D ! unat a) (D ! unat b), dec1 (D ! unat b) (D ! unat c)]"
| "b64_dec D [a, b] = [dec0 (D ! unat a) (D ! unat b)]"
| "b64_dec D _ = []"

lemma decode_loop_b64:
  "decode_base64_loop D dst d (t @ r) (length t) =
    do { b \<leftarrow> puts dst d (b64_dec D t); Some (b, d + length (b64_dec D t)) }"
proof (induction D t arbitrary: dst d rule: b64_dec.induct)
  case (1 D a b c e s)
  have "decode_base64_loop D dst d ((a # b # c # e # s) @ r) (length (a # b # c # e # s)) =
    do { dst' \<leftarrow> puts dst d [dec0 (D ! unat a) (D ! unat b), dec1 (D ! unat b) (D ! unat c),
        dec2 (D ! unat c) (D ! unat e)];
      decode_base64_loop D dst' (d + 3) (s @ r) (length s) }"
    by (subst decode_base64_loop.simps) (simp add: numeral_3_eq_3 numeral_2_eq_2 Let_def
        del: puts.simps)
  also have "\<dots> = puts dst d (b64_dec D (a # b # c # e # s)) \<bind>
      (\<lambda>x. Some (x, d + length (b64_dec D (a # b # c # e # s))))"
    by (simp add: "1.IH" puts_bind del: puts.simps) (simp add: eval_nat_numeral)
  finally show ?case .
qed (subst decode_base64_loop.simps, simp add: numeral_3_eq_3 numeral_2_eq_2 Let_def puts_bind
  Option.bind_assoc del: puts.simps; simp)+

lemma text_len:
  assumes chars: "\<And>c. c \<in> set t \<Longrightarrow> c \<noteq> 0x3d \<and> D ! unat c \<noteq> 77"
    and stop: "n = length t \<or> length t < n \<and> (\<exists>r'. r = 0x3d # r')"
  shows "k \<le> length t \<Longrightarrow> base64_text_len D (t @ r) n k = Some (Some (length t))"
proof (induction "length t - k" arbitrary: k)
  case 0
  then show ?case using stop by (subst base64_text_len.simps) (auto simp: get_def)
next
  case (Suc m)
  then have "k < length t" by simp
  moreover have "t ! k \<noteq> 0x3d \<and> D ! unat (t ! k) \<noteq> 77" using chars calculation by simp
  ultimately show ?case using Suc stop by (subst base64_text_len.simps) (auto simp: nth_append)
qed

subsection \<open>Alphabets that fit together\<close>

lemma enc_small: "enc0 s0 < 64" "enc1 s0 s1 < 64" "enc2 s1 s2 < 64" "enc3 s2 < 64"
proof -
  have m: "w < 64 \<longleftrightarrow> take_bit 6 w = w" for w :: u8
    by (auto simp: take_bit_eq_mod word_less_nat_alt word_unat_eq_iff unat_mod)
  show "enc0 s0 < 64" "enc1 s0 s1 < 64" "enc2 s1 s2 < 64" "enc3 s2 < 64"
    unfolding m enc0_def enc1_def enc2_def enc3_def u8_eq_bits
    by (simp_all add: bit_simps bit_u8_beyond)
qed

lemma dec_enc:
  "dec0 (enc0 s0) (enc1 s0 s1) = s0" "dec1 (enc1 s0 s1) (enc2 s1 s2) = s1"
  "dec2 (enc2 s1 s2) (enc3 s2) = s2"
  unfolding dec0_def dec1_def dec2_def enc0_def enc1_def enc2_def enc3_def u8_eq_bits
  by (simp_all add: bit_simps)

lemma triples_induct [case_names Nil One Two Three]:
  "P [] \<Longrightarrow> (\<And>a. P [a]) \<Longrightarrow> (\<And>a b. P [a, b]) \<Longrightarrow> (\<And>a b c s. P s \<Longrightarrow> P (a # b # c # s)) \<Longrightarrow> P s"
  by induction_schema (pat_completeness, lexicographic_order)

lemma length_b64_nopad:
  "length (b64 E False s) = length s div 3 * 4 + (if length s mod 3 = 0 then 0 else length s mod 3 + 1)"
proof (induction s rule: triples_induct)
  case (Three a b c s)
  have "length (a # b # c # s) div 3 = Suc (length s div 3)"
    "length (a # b # c # s) mod 3 = length s mod 3"
    using div_add_self1 [of 3 "length s"] mod_add_self1 [of 3 "length s"] by (simp_all add: add.commute)
  then show ?case using Three by simp
qed auto

lemma b64_pad:
  "b64 E True s = b64 E False s @ replicate ((3 - length s mod 3) mod 3) 0x3d"
  by (induction s rule: triples_induct) (auto simp: numeral_2_eq_2)

lemma length_b64_le: "length (b64 E pad s) \<le> (length s + 2) div 3 * 4"
proof (induction s rule: triples_induct)
  case (Three a b c s)
  have "(length (a # b # c # s) + 2) div 3 = Suc ((length s + 2) div 3)"
    using div_add_self1 [of 3 "length s + 2"] by (simp add: add.commute)
  then show ?case using Three by simp
qed auto

text \<open>
  The encoder writes characters \<open>E\<close> of six bits that the decoder's table \<open>D\<close> reads back; none of
  them is the padding.
\<close>

locale base64_alphabet =
  fixes E D :: bytes
  assumes D_E: "x < (64 :: u8) \<Longrightarrow> D ! unat (E ! unat x) = x"
    and E_pad: "x < (64 :: u8) \<Longrightarrow> E ! unat x \<noteq> 0x3d"
begin

lemma enc_char: "x < (64 :: u8) \<Longrightarrow> E ! unat x \<noteq> 0x3d \<and> D ! unat (E ! unat x) \<noteq> 77"
  using D_E [of x] E_pad [of x] by auto

lemma b64_chars: "c \<in> set (b64 E False s) \<Longrightarrow> c \<noteq> 0x3d \<and> D ! unat c \<noteq> 77"
  by (induction s rule: triples_induct) (use enc_char enc_small in \<open>fastforce+\<close>)

lemma b64_dec_enc: "b64_dec D (b64 E False s) = s"
  by (induction s rule: triples_induct) (simp_all add: D_E enc_small dec_enc)

theorem decode_encode:
  assumes n: "n \<le> length src" "length (b64 E pad (take n src)) < 2 ^ 64"
    and room: "length (b64 E pad (take n src)) \<le> length (str_data dst)" "n \<le> length (str_data out)"
    and len: "unat (str_len src') = n" "str_data src' = src"
  shows "\<exists>enc. ngx_encode_base64_internal dst src' E pad = Some enc \<and>
    unat (str_len enc) = length (b64 E pad (take n src)) \<and>
    drop (unat (str_len enc)) (str_data enc) = drop (unat (str_len enc)) (str_data dst) \<and>
    ngx_decode_base64_internal out enc D =
      Some (NGX_OK, out\<lparr>str_data := take n src @ drop n (str_data out), str_len := str_len src'\<rparr>)"
proof -
  define s where "s = take n src"
  define t where "t = b64 E False s"
  define z where "z = replicate (if pad then (3 - length s mod 3) mod 3 else 0) (0x3d :: u8)"
  define w where "w = b64 E pad s"
  define rest where "rest = drop (length w) (str_data dst)"
  have src: "src = s @ drop n src" and ns: "n = length s" using n(1) by (simp_all add: s_def)
  have w: "w = t @ z" using b64_pad [of E s] by (auto simp: w_def t_def z_def)
  have "encode_base64_loop E pad (str_data dst) 0 src n = Some (w @ rest, length w)"
    using encode_loop_b64 [of E pad "str_data dst" 0 s "drop n src"] room(1)
    by (simp add: src [symmetric] ns [symmetric] w_def [symmetric] s_def [symmetric] rest_def puts_eq)
  then have enc: "ngx_encode_base64_internal dst src' E pad =
      Some (dst\<lparr>str_data := w @ rest, str_len := of_nat (length w)\<rparr>)"
    by (simp add: ngx_encode_base64_internal_def len)
  have ulen: "unat (of_nat (length w) :: u64) = length w"
    using n(2) by (simp add: unat_of_nat_u64 w_def s_def)
  have stop: "length w = length t \<or> length t < length w \<and> (\<exists>r'. z @ rest = 0x3d # r')"
    by (cases z) (auto simp: w z_def split: if_splits dest!: sym [of "replicate _ _"] simp: Cons_replicate_eq)
  have tl: "base64_text_len D (w @ rest) (length w) 0 = Some (Some (length t))"
    using text_len [OF _ stop, of D 0] b64_chars [of _ s] by (simp add: t_def w)
  have mod: "length t mod 4 \<noteq> 1" unfolding t_def length_b64_nopad by simp
  have dec: "decode_base64_loop D (str_data out) 0 (w @ rest) (length t) =
      Some (s @ drop n (str_data out), n)"
    using decode_loop_b64 [of D "str_data out" 0 t "z @ rest"] room(2) ns
    by (simp add: t_def b64_dec_enc puts_eq w)
  have "ngx_decode_base64_internal out (dst\<lparr>str_data := w @ rest, str_len := of_nat (length w)\<rparr>) D =
      Some (NGX_OK, out\<lparr>str_data := s @ drop n (str_data out), str_len := of_nat n\<rparr>)"
    using tl mod dec by (simp add: ngx_decode_base64_internal_def ulen)
  moreover have "of_nat n = str_len src'" by (simp add: len(1) [symmetric])
  ultimately show ?thesis
    by (simp add: s_def [symmetric] w_def [symmetric] enc ulen) (simp add: rest_def)
qed

end

interpretation std: base64_alphabet basis64 dec_basis64
proof
  have "let D = dec_basis64 in
      list_all2 (\<lambda>c n. D ! unat c = of_nat n \<and> c \<noteq> 0x3d) basis64 [0..<64]"
    by code_simp
  then have *: "n < 64 \<Longrightarrow> dec_basis64 ! unat (basis64 ! n) = of_nat n \<and> basis64 ! n \<noteq> 0x3d" for n
    by (simp add: list_all2_conv_all_nth)
  show "dec_basis64 ! unat (basis64 ! unat x) = x" "basis64 ! unat x \<noteq> 0x3d" if "x < 64" for x :: u8
    using * [of "unat x"] that by (simp_all add: word_less_nat_alt)
qed

interpretation url: base64_alphabet basis64url dec_basis64url
proof
  have "let D = dec_basis64url in
      list_all2 (\<lambda>c n. D ! unat c = of_nat n \<and> c \<noteq> 0x3d) basis64url [0..<64]"
    by code_simp
  then have *: "n < 64 \<Longrightarrow> dec_basis64url ! unat (basis64url ! n) = of_nat n \<and> basis64url ! n \<noteq> 0x3d" for n
    by (simp add: list_all2_conv_all_nth)
  show "dec_basis64url ! unat (basis64url ! unat x) = x" "basis64url ! unat x \<noteq> 0x3d" if "x < 64" for x :: u8
    using * [of "unat x"] that by (simp_all add: word_less_nat_alt)
qed


subsection \<open>The round trip\<close>

lemma unat_encoded_length:
  "unat len < 2 ^ 62 \<Longrightarrow> unat (ngx_base64_encoded_length len) = (unat len + 2) div 3 * 4"
  unfolding ngx_base64_encoded_length_def
  by (subst unat_mult_u64; simp add: unat_div unat_add_u64)

lemma unat_decoded_length:
  "unat len < 2 ^ 62 \<Longrightarrow> unat (ngx_base64_decoded_length len) = (unat len + 3) div 4 * 3"
  unfolding ngx_base64_decoded_length_def
  by (subst unat_mult_u64; simp add: unat_div unat_add_u64)

lemma decoded_length_enough: "length s \<le> (length (b64 E pad s) + 3) div 4 * 3"
proof (induction s rule: triples_induct)
  case (Three a b c s)
  have "(length (b64 E pad (a # b # c # s)) + 3) div 4 = Suc ((length (b64 E pad s) + 3) div 4)"
    using div_add_self1 [of 4 "length (b64 E pad s) + 3"] by (simp add: add.commute)
  then show ?case using Three by simp
qed auto

lemma length_b64_padded: "length (b64 E True s) = (length s + 2) div 3 * 4"
proof (induction s rule: triples_induct)
  case (Three a b c s)
  have "(length (a # b # c # s) + 2) div 3 = Suc ((length s + 2) div 3)"
    using div_add_self1 [of 3 "length s + 2"] by (simp add: add.commute)
  then show ?case using Three by simp
qed auto

context base64_alphabet begin

text \<open>The same in terms of the two macros that size the buffers.\<close>

lemma sized_roundtrip:
  assumes src: "unat (str_len src) \<le> length (str_data src)" "unat (str_len src) < 2 ^ 60"
    and dst: "unat (ngx_base64_encoded_length (str_len src)) \<le> length (str_data dst)"
    and out: "unat (str_len src) \<le> length (str_data out)"
  shows "\<exists>enc. ngx_encode_base64_internal dst src E pad = Some enc \<and>
    str_len enc \<le> ngx_base64_encoded_length (str_len src) \<and>
    (pad \<longrightarrow> str_len enc = ngx_base64_encoded_length (str_len src)) \<and>
    str_len src \<le> ngx_base64_decoded_length (str_len enc) \<and>
    drop (unat (str_len enc)) (str_data enc) = drop (unat (str_len enc)) (str_data dst) \<and>
    ngx_decode_base64_internal out enc D = Some (NGX_OK,
      out\<lparr>str_data := take (unat (str_len src)) (str_data src) @
          drop (unat (str_len src)) (str_data out), str_len := str_len src\<rparr>)"
proof -
  define n where "n = unat (str_len src)"
  define s where "s = take n (str_data src)"
  have s: "length s = n" using src(1) by (simp add: s_def n_def)
  have el: "unat (ngx_base64_encoded_length (str_len src)) = (n + 2) div 3 * 4"
    using src(2) unat_encoded_length [of "str_len src"] by (simp add: n_def)
  have le: "length (b64 E pad s) \<le> (n + 2) div 3 * 4" using length_b64_le [of E pad s] s by simp
  have small: "length (b64 E pad s) < 2 ^ 62" using le src(2) by (simp add: n_def)
  obtain enc where enc: "ngx_encode_base64_internal dst src E pad = Some enc"
    "unat (str_len enc) = length (b64 E pad s)"
    "drop (unat (str_len enc)) (str_data enc) = drop (unat (str_len enc)) (str_data dst)"
    "ngx_decode_base64_internal out enc D = Some (NGX_OK,
      out\<lparr>str_data := s @ drop n (str_data out), str_len := str_len src\<rparr>)"
    using decode_encode [of n "str_data src" pad dst out src] src(1) le dst out small
    by (auto simp: s_def [symmetric] n_def [symmetric] el)
  have "str_len enc \<le> ngx_base64_encoded_length (str_len src)"
    using le by (simp add: word_le_nat_alt el enc(2))
  moreover have "pad \<longrightarrow> str_len enc = ngx_base64_encoded_length (str_len src)"
    using length_b64_padded [of E s] by (auto simp: word_unat_eq_iff el enc(2) s)
  moreover have "str_len src \<le> ngx_base64_decoded_length (str_len enc)"
    using decoded_length_enough [of s E pad] unat_decoded_length [of "str_len enc"] small s
    by (simp add: word_le_nat_alt enc(2) n_def)
  ultimately show ?thesis using enc by (auto simp: s_def n_def)
qed

end

text \<open>
  C31: Encoding and decoding are inverse, for the standard and for the URL alphabet: into a buffer
  of the size the macro \<open>ngx_base64_encoded_length\<close> computes, \<open>ngx_encode_base64\<close> (\<open>url\<close>) writes no
  further than its length says; \<open>ngx_decode_base64\<close> (\<open>url\<close>) accepts the encoded text and restores
  the source and its length, and a buffer of \<open>ngx_base64_decoded_length\<close> bytes is long enough for it.
\<close>

theorem base64_roundtrip:
  assumes src: "unat (str_len src) \<le> length (str_data src)" "unat (str_len src) < 2 ^ 60"
    and dst: "unat (ngx_base64_encoded_length (str_len src)) \<le> length (str_data dst)"
    and out: "unat (str_len src) \<le> length (str_data out)"
  shows "(\<exists>enc. ngx_encode_base64 dst src = Some enc \<and>
      str_len enc = ngx_base64_encoded_length (str_len src) \<and>
      str_len src \<le> ngx_base64_decoded_length (str_len enc) \<and>
      drop (unat (str_len enc)) (str_data enc) = drop (unat (str_len enc)) (str_data dst) \<and>
      ngx_decode_base64 out enc = Some (NGX_OK,
        out\<lparr>str_data := take (unat (str_len src)) (str_data src) @
          drop (unat (str_len src)) (str_data out), str_len := str_len src\<rparr>))
    \<and> (\<exists>enc. ngx_encode_base64url dst src = Some enc \<and>
      str_len enc \<le> ngx_base64_encoded_length (str_len src) \<and>
      str_len src \<le> ngx_base64_decoded_length (str_len enc) \<and>
      drop (unat (str_len enc)) (str_data enc) = drop (unat (str_len enc)) (str_data dst) \<and>
      ngx_decode_base64url out enc = Some (NGX_OK,
        out\<lparr>str_data := take (unat (str_len src)) (str_data src) @
          drop (unat (str_len src)) (str_data out), str_len := str_len src\<rparr>))"
  using std.sized_roundtrip [OF assms, of True] url.sized_roundtrip [OF assms, of False]
  unfolding ngx_encode_base64_def ngx_encode_base64url_def ngx_decode_base64_def
    ngx_decode_base64url_def by auto

lemma base64_roundtrip_witness:
  "\<exists>enc. ngx_encode_base64 \<lparr>str_len = 0, str_data = replicate 8 0\<rparr>
      \<lparr>str_len = 5, str_data = ascii ''hello''\<rparr> = Some enc \<and>
    str_len enc = 8 \<and>
    ngx_decode_base64 \<lparr>str_len = 0, str_data = replicate 6 0\<rparr> enc =
      Some (NGX_OK, \<lparr>str_len = 5, str_data = ascii ''hello'' @ [0]\<rparr>)"
  using conjunct1 [OF base64_roundtrip [of "\<lparr>str_len = 5, str_data = ascii ''hello''\<rparr>"
      "\<lparr>str_len = 0, str_data = replicate 8 0\<rparr>" "\<lparr>str_len = 0, str_data = replicate 6 0\<rparr>"]]
  by (auto simp: ngx_base64_encoded_length_def)

end
