(* ===== verification/Numparse.thy ===== *)
theory Numparse imports Bytebuf begin

text \<open>
  Number parsing of \<open>src/ngx/ngx_string.c\<close>: the decimal parsers \<open>ngx_atoi\<close>, \<open>ngx_atosz\<close>, \<open>ngx_atoof\<close>
  and \<open>ngx_atotm\<close>, the fixed-point parser \<open>ngx_atofp\<close>, \<open>ngx_hextoi\<close> and \<open>ngx_hex_dump\<close>.  The four decimal
  parsers share one loop and one contract, the locale \<open>decimal_parser\<close>.  Numbers are integers; the
  lemmas show that every intermediate value is between 0 and the maximum of the result type, so the
  signed C arithmetic does not overflow.  \<open>None\<close> is a read past the end of the line.
\<close>

text \<open>\<open>config.h\<close> sets \<open>NGX_PTR_SIZE\<close> to 4, so the maximum of the 64-bit \<open>ngx_int_t\<close> is that of 32 bits.\<close>

definition NGX_MAX_INT_T_VALUE :: int where "NGX_MAX_INT_T_VALUE = 2147483647"
definition NGX_MAX_SIZE_T_VALUE :: int where "NGX_MAX_SIZE_T_VALUE = 9223372036854775807"
definition NGX_MAX_OFF_T_VALUE :: int where "NGX_MAX_OFF_T_VALUE = 9223372036854775807"
definition NGX_MAX_TIME_T_VALUE :: int where "NGX_MAX_TIME_T_VALUE = 9223372036854775807"

definition isdig :: "u8 \<Rightarrow> bool" where
  "isdig c \<longleftrightarrow> \<not> (c < 0x30 \<or> 0x39 < c)"

definition digit :: "u8 \<Rightarrow> int" where
  "digit c = uint c - 0x30"

subsection \<open>Decimal numbers\<close>

fun atoi_loop :: "int \<Rightarrow> int \<Rightarrow> int \<Rightarrow> cptr \<Rightarrow> nat \<Rightarrow> int option" where
  "atoi_loop cutoff cutlim value line 0 = Some value"
| "atoi_loop cutoff cutlim value [] (Suc n) = None"
| "atoi_loop cutoff cutlim value (c # line) (Suc n) =
     (if \<not> isdig c then Some NGX_ERROR
      else if cutoff \<le> value \<and> (cutoff < value \<or> cutlim < digit c) then Some NGX_ERROR
      else atoi_loop cutoff cutlim (value * 10 + digit c) line n)"

definition ngx_atoi :: "cptr \<Rightarrow> nat \<Rightarrow> int option" where
  "ngx_atoi line n =
     (if n = 0 then Some NGX_ERROR
      else atoi_loop (NGX_MAX_INT_T_VALUE div 10) (NGX_MAX_INT_T_VALUE mod 10) 0 line n)"

definition ngx_atosz :: "cptr \<Rightarrow> nat \<Rightarrow> int option" where
  "ngx_atosz line n =
     (if n = 0 then Some NGX_ERROR
      else atoi_loop (NGX_MAX_SIZE_T_VALUE div 10) (NGX_MAX_SIZE_T_VALUE mod 10) 0 line n)"

definition ngx_atoof :: "cptr \<Rightarrow> nat \<Rightarrow> int option" where
  "ngx_atoof line n =
     (if n = 0 then Some NGX_ERROR
      else atoi_loop (NGX_MAX_OFF_T_VALUE div 10) (NGX_MAX_OFF_T_VALUE mod 10) 0 line n)"

definition ngx_atotm :: "cptr \<Rightarrow> nat \<Rightarrow> int option" where
  "ngx_atotm line n =
     (if n = 0 then Some NGX_ERROR
      else atoi_loop (NGX_MAX_TIME_T_VALUE div 10) (NGX_MAX_TIME_T_VALUE mod 10) 0 line n)"

text \<open>The number a string of digits denotes, from the left, after a prefix worth \<open>v\<close>.\<close>

definition num :: "int \<Rightarrow> (u8 \<Rightarrow> int) \<Rightarrow> int \<Rightarrow> bytes \<Rightarrow> int" where
  "num base dig v cs = foldl (\<lambda>v c. v * base + dig c) v cs"

abbreviation dec_num :: "bytes \<Rightarrow> int" where
  "dec_num \<equiv> num 10 digit 0"

lemma num_Nil [simp]: "num b f v [] = v"
  and num_Cons [simp]: "num b f v (c # cs) = num b f (v * b + f c) cs"
  and num_append: "num b f v (xs @ ys) = num b f (num b f v xs) ys"
  by (simp_all add: num_def)

lemma digit_bounds: "isdig c \<Longrightarrow> 0 \<le> digit c \<and> digit c \<le> 9"
  by (simp add: isdig_def digit_def word_less_def)

lemma num_ge:
  "1 \<le> b \<Longrightarrow> 0 \<le> v \<Longrightarrow> (\<And>c. c \<in> set cs \<Longrightarrow> 0 \<le> f c) \<Longrightarrow> v \<le> num b f v cs"
proof (induction cs arbitrary: v)
  case (Cons c cs)
  have "v \<le> v * b" using Cons.prems mult_left_mono [of 1 b v] by simp
  then have "v \<le> v * b + f c" using Cons.prems(3) [of c] by simp
  also have "\<dots> \<le> num b f (v * b + f c) cs" using Cons calculation by simp
  finally show ?case by simp
qed simp

lemma cut_iff:
  assumes "0 \<le> m" and "0 \<le> d" and "d \<le> (9 :: int)"
  shows "(m div 10 \<le> v \<and> (m div 10 < v \<or> m mod 10 < d)) \<longleftrightarrow> m < v * 10 + d"
proof -
  have "m = m div 10 * 10 + m mod 10" "m mod 10 < 10" "0 \<le> m mod 10" by simp_all
  then show ?thesis using assms(2,3) by linarith
qed

lemma atoi_loop_digit:
  assumes "0 \<le> mx" and "isdig c"
  shows "atoi_loop (mx div 10) (mx mod 10) v (c # line) (Suc n) =
    (if mx < v * 10 + digit c then Some NGX_ERROR
     else atoi_loop (mx div 10) (mx mod 10) (v * 10 + digit c) line n)"
  using cut_iff [OF assms(1), of "digit c" v] digit_bounds [OF assms(2)] assms(2)
  by (simp only: atoi_loop.simps simp_thms if_False)

lemma atoi_loop_spec:
  assumes "0 \<le> mx"
  shows "n \<le> length line \<Longrightarrow> 0 \<le> v \<Longrightarrow> v \<le> mx \<Longrightarrow>
    atoi_loop (mx div 10) (mx mod 10) v line n =
      Some (if list_all isdig (take n line) \<and> num 10 digit v (take n line) \<le> mx
            then num 10 digit v (take n line) else NGX_ERROR)"
proof (induction n arbitrary: v line)
  case (Suc n)
  obtain c cs where line: "line = c # cs" using Suc.prems by (cases line) auto
  show ?case
  proof (cases "isdig c")
    case dig: True
    show ?thesis
    proof (cases "mx < v * 10 + digit c")
      case True
      have "v * 10 + digit c \<le> num 10 digit (v * 10 + digit c) (take n cs)"
        if "list_all isdig (take n cs)"
        using num_ge [of 10 "v * 10 + digit c" "take n cs" digit] that Suc.prems(2) dig
          digit_bounds by (auto simp: list_all_iff)
      with True show ?thesis by (auto simp: line dig atoi_loop_digit [OF assms] simp del: atoi_loop.simps)
    next
      case False
      then show ?thesis using Suc.IH [of cs "v * 10 + digit c"] Suc.prems digit_bounds [OF dig]
        by (simp add: line dig atoi_loop_digit [OF assms] del: atoi_loop.simps)
    qed
  qed (simp add: line)
qed simp

text \<open>
  A parser of decimal numbers up to \<open>mx\<close>: what it returns, at any length within the line.
\<close>

locale decimal_parser =
  fixes mx :: int and parse :: "cptr \<Rightarrow> nat \<Rightarrow> int option"
  assumes max_nonneg: "0 \<le> mx"
    and parse: "parse line n =
      (if n = 0 then Some NGX_ERROR else atoi_loop (mx div 10) (mx mod 10) 0 line n)"
begin

lemma parse_eq:
  assumes "n \<le> length line"
  shows "parse line n =
    Some (if 0 < n \<and> list_all isdig (take n line) \<and> dec_num (take n line) \<le> mx
          then dec_num (take n line) else NGX_ERROR)"
  using assms atoi_loop_spec [OF max_nonneg, of n line 0] by (simp add: parse max_nonneg)

lemma parse_range:
  assumes "n \<le> length line" and "parse line n = Some v"
  shows "v = NGX_ERROR \<or> 0 \<le> v \<and> v \<le> mx"
  using assms num_ge [of 10 0 "take n line" digit] digit_bounds
  by (auto simp: parse_eq list_all_iff split: if_splits)

end

interpretation atoi: decimal_parser NGX_MAX_INT_T_VALUE ngx_atoi
  by unfold_locales (simp_all add: ngx_atoi_def NGX_MAX_INT_T_VALUE_def)

interpretation atosz: decimal_parser NGX_MAX_SIZE_T_VALUE ngx_atosz
  by unfold_locales (simp_all add: ngx_atosz_def NGX_MAX_SIZE_T_VALUE_def)

interpretation atoof: decimal_parser NGX_MAX_OFF_T_VALUE ngx_atoof
  by unfold_locales (simp_all add: ngx_atoof_def NGX_MAX_OFF_T_VALUE_def)

interpretation atotm: decimal_parser NGX_MAX_TIME_T_VALUE ngx_atotm
  by unfold_locales (simp_all add: ngx_atotm_def NGX_MAX_TIME_T_VALUE_def)

subsection \<open>Fixed-point numbers\<close>

text \<open>The loop of \<open>ngx_atofp\<close>: \<open>Some None\<close> is its \<open>NGX_ERROR\<close>, else the value and the places left.\<close>

fun atofp_loop ::
  "int \<Rightarrow> int \<Rightarrow> int \<Rightarrow> nat \<Rightarrow> bool \<Rightarrow> cptr \<Rightarrow> nat \<Rightarrow> (int \<times> nat) option option" where
  "atofp_loop cutoff cutlim value point dot line 0 = Some (Some (value, point))"
| "atofp_loop cutoff cutlim value point dot [] (Suc n) = (if point = 0 then Some None else None)"
| "atofp_loop cutoff cutlim value point dot (c # line) (Suc n) =
     (if point = 0 then Some None
      else if c = 0x2e then
        (if dot then Some None else atofp_loop cutoff cutlim value point True line n)
      else if \<not> isdig c then Some None
      else if cutoff \<le> value \<and> (cutoff < value \<or> cutlim < digit c) then Some None
      else atofp_loop cutoff cutlim (value * 10 + digit c) (if dot then point - 1 else point)
        dot line n)"

fun atofp_scale :: "int \<Rightarrow> int \<Rightarrow> nat \<Rightarrow> int" where
  "atofp_scale cutoff value 0 = value"
| "atofp_scale cutoff value (Suc point) =
     (if cutoff < value then NGX_ERROR else atofp_scale cutoff (value * 10) point)"

definition ngx_atofp :: "cptr \<Rightarrow> nat \<Rightarrow> nat \<Rightarrow> int option" where
  "ngx_atofp line n point =
     (if n = 0 then Some NGX_ERROR
      else let cutoff = NGX_MAX_INT_T_VALUE div 10; cutlim = NGX_MAX_INT_T_VALUE mod 10 in
        do { r \<leftarrow> atofp_loop cutoff cutlim 0 point False line n;
             (case r of
                None \<Rightarrow> Some NGX_ERROR
              | Some (value, point') \<Rightarrow> Some (atofp_scale cutoff value point')) })"

lemma atofp_scale_spec:
  "0 \<le> v \<Longrightarrow> v \<le> NGX_MAX_INT_T_VALUE \<Longrightarrow>
    atofp_scale (NGX_MAX_INT_T_VALUE div 10) v point =
      (if v * 10 ^ point \<le> NGX_MAX_INT_T_VALUE then v * 10 ^ point else NGX_ERROR)"
proof (induction point arbitrary: v)
  case (Suc p)
  have over: "NGX_MAX_INT_T_VALUE < v * 10 ^ Suc p" if "NGX_MAX_INT_T_VALUE < v * 10"
  proof -
    have "v * 10 * 1 \<le> v * 10 * 10 ^ p" using Suc.prems(1) by (intro mult_left_mono) auto
    then show ?thesis using that by simp
  qed
  have cut: "NGX_MAX_INT_T_VALUE div 10 < v \<longleftrightarrow> NGX_MAX_INT_T_VALUE < v * 10"
    unfolding NGX_MAX_INT_T_VALUE_def by (rule iffI; simp)
  show ?case
  proof (cases "NGX_MAX_INT_T_VALUE < v * 10")
    case True
    then have "\<not> v * 10 ^ Suc p \<le> NGX_MAX_INT_T_VALUE" using over by (simp only: not_le)
    with True show ?thesis by (simp only: atofp_scale.simps cut if_True if_False)
  next
    case False
    have "v * 10 ^ Suc p = v * 10 * 10 ^ p" by simp
    with False show ?thesis using Suc.IH [of "v * 10"] Suc.prems(1)
      by (simp only: atofp_scale.simps cut if_False not_less) simp
  qed
qed simp

abbreviation atofp_step :: "int \<Rightarrow> nat \<Rightarrow> bool \<Rightarrow> cptr \<Rightarrow> nat \<Rightarrow> (int \<times> nat) option option" where
  "atofp_step \<equiv> atofp_loop (NGX_MAX_INT_T_VALUE div 10) (NGX_MAX_INT_T_VALUE mod 10)"

lemma max_int_nonneg: "0 \<le> NGX_MAX_INT_T_VALUE"
  by (simp add: NGX_MAX_INT_T_VALUE_def)

lemma atofp_digit:
  assumes "isdig c" and "0 < point"
  shows "atofp_step v point dot (c # line) (Suc n) =
    (if NGX_MAX_INT_T_VALUE < v * 10 + digit c then Some None
     else atofp_step (v * 10 + digit c) (if dot then point - 1 else point) dot line n)"
proof -
  have "c \<noteq> 0x2e" "point \<noteq> 0" using assms by (auto simp: isdig_def)
  then show ?thesis
    using cut_iff [OF max_int_nonneg, of "digit c" v] digit_bounds [OF assms(1)] assms(1)
    by (simp only: atofp_loop.simps simp_thms if_False)
qed

lemma num_digits_ge: "list_all isdig cs \<Longrightarrow> 0 \<le> v \<Longrightarrow> v \<le> num 10 digit v cs"
  by (rule num_ge) (auto simp: list_all_iff dest: digit_bounds)

lemma atofp_int_part:
  "list_all isdig ds \<Longrightarrow> 0 < point \<Longrightarrow> 0 \<le> v \<Longrightarrow> v \<le> NGX_MAX_INT_T_VALUE \<Longrightarrow>
   atofp_step v point False (ds @ r) (length ds + k) =
     (if num 10 digit v ds \<le> NGX_MAX_INT_T_VALUE
      then atofp_step (num 10 digit v ds) point False r k else Some None)"
proof (induction ds arbitrary: v)
  case (Cons c ds)
  have c: "isdig c" "0 \<le> digit c" using Cons.prems(1) digit_bounds [of c] by auto
  show ?case
  proof (cases "NGX_MAX_INT_T_VALUE < v * 10 + digit c")
    case True
    then show ?thesis using num_digits_ge [of ds "v * 10 + digit c"] Cons.prems c
      by (simp add: atofp_digit del: atofp_loop.simps)
  next
    case False
    then show ?thesis using Cons c by (simp add: atofp_digit del: atofp_loop.simps)
  qed
qed simp

lemma atofp_frac_part:
  "list_all isdig fs \<Longrightarrow> 0 \<le> v \<Longrightarrow> v \<le> NGX_MAX_INT_T_VALUE \<Longrightarrow>
   atofp_step v point True (fs @ r) (length fs) =
     Some (if length fs \<le> point \<and> num 10 digit v fs \<le> NGX_MAX_INT_T_VALUE
           then Some (num 10 digit v fs, point - length fs) else None)"
proof (induction fs arbitrary: v point)
  case (Cons c fs)
  have c: "isdig c" "0 \<le> digit c" using Cons.prems(1) digit_bounds [of c] by auto
  show ?case
  proof (cases "point = 0")
    case False
    then show ?thesis
    proof (cases "NGX_MAX_INT_T_VALUE < v * 10 + digit c")
      case True
      then show ?thesis using num_digits_ge [of fs "v * 10 + digit c"] Cons.prems c False
        by (simp add: atofp_digit del: atofp_loop.simps)
    next
      case le: False
      have "Suc (length fs) \<le> point \<longleftrightarrow> length fs \<le> point - 1" using False by auto
      then show ?thesis using Cons c le False
        by (simp add: atofp_digit del: atofp_loop.simps)
    qed
  qed simp
qed simp

text \<open>The fixed-point reading of \<open>ip.fp\<close> with \<open>point\<close> decimal places.\<close>

lemma ngx_atofp_dotted:
  assumes ds: "list_all isdig ip" "list_all isdig fp" and point: "0 < point"
  shows "ngx_atofp (ip @ 0x2e # fp @ r) (length ip + 1 + length fp) point =
    Some (if length fp \<le> point \<and> dec_num (ip @ fp) * 10 ^ (point - length fp) \<le> NGX_MAX_INT_T_VALUE
          then dec_num (ip @ fp) * 10 ^ (point - length fp) else NGX_ERROR)"
proof -
  define v where "v = dec_num ip"
  have v: "0 \<le> v" using num_digits_ge [OF ds(1), of 0] by (simp add: v_def)
  have w: "v \<le> num 10 digit v fp" using num_digits_ge [OF ds(2) v] .
  have w': "num 10 digit v fp \<le> num 10 digit v fp * 10 ^ k" for k :: nat
    using mult_left_mono [of 1 "10 ^ k" "num 10 digit v fp"] v w by simp
  have i: "atofp_step 0 point False (ip @ 0x2e # fp @ r) (length ip + Suc (length fp)) =
      (if v \<le> NGX_MAX_INT_T_VALUE then atofp_step v point True (fp @ r) (length fp) else Some None)"
    using atofp_int_part [OF ds(1) point, of 0 "0x2e # fp @ r" "Suc (length fp)"] point
    by (simp add: v_def max_int_nonneg)
  show ?thesis
  proof (cases "v \<le> NGX_MAX_INT_T_VALUE")
    case True
    show ?thesis
    proof (cases "num 10 digit v fp \<le> NGX_MAX_INT_T_VALUE")
      case le: True
      then show ?thesis
        using i True atofp_frac_part [OF ds(2) v True, of point r] v w
          atofp_scale_spec [of "num 10 digit v fp" "point - length fp"]
        by (simp add: ngx_atofp_def Let_def num_append v_def [symmetric])
    next
      case False
      then have "\<not> num 10 digit v fp * 10 ^ k \<le> NGX_MAX_INT_T_VALUE" for k :: nat
        using w' [of k] by linarith
      then show ?thesis using i True False atofp_frac_part [OF ds(2) v True, of point r]
        by (simp add: ngx_atofp_def Let_def num_append v_def [symmetric])
    qed
  next
    case False
    then have "\<not> num 10 digit v fp * 10 ^ k \<le> NGX_MAX_INT_T_VALUE" for k :: nat
      using w w' [of k] by linarith
    then show ?thesis using i False
      by (simp add: ngx_atofp_def Let_def num_append v_def [symmetric])
  qed
qed

subsection \<open>Hexadecimal numbers\<close>

fun hextoi_loop :: "int \<Rightarrow> int \<Rightarrow> cptr \<Rightarrow> nat \<Rightarrow> int option" where
  "hextoi_loop cutoff value line 0 = Some value"
| "hextoi_loop cutoff value [] (Suc n) = (if cutoff < value then Some NGX_ERROR else None)"
| "hextoi_loop cutoff value (ch # line) (Suc n) =
     (if cutoff < value then Some NGX_ERROR
      else if 0x30 \<le> ch \<and> ch \<le> 0x39 then hextoi_loop cutoff (value * 16 + (uint ch - 0x30)) line n
      else let c = ch OR 0x20 in
        if 0x61 \<le> c \<and> c \<le> 0x66 then hextoi_loop cutoff (value * 16 + (uint c - 0x61 + 10)) line n
        else Some NGX_ERROR)"

definition ngx_hextoi :: "cptr \<Rightarrow> nat \<Rightarrow> int option" where
  "ngx_hextoi line n =
     (if n = 0 then Some NGX_ERROR else hextoi_loop (NGX_MAX_INT_T_VALUE div 16) 0 line n)"

definition hex_digits :: bytes where
  "hex_digits = ascii ''0123456789abcdef''"

fun ngx_hex_dump_loop :: "bytes \<Rightarrow> nat \<Rightarrow> cptr \<Rightarrow> nat \<Rightarrow> (bytes \<times> nat) option" where
  "ngx_hex_dump_loop dst d src 0 = Some (dst, d)"
| "ngx_hex_dump_loop dst d [] (Suc len) = None"
| "ngx_hex_dump_loop dst d (c # src) (Suc len) =
     do { dst' \<leftarrow> puts dst d [hex_digits ! unat (drop_bit 4 c), hex_digits ! unat (c AND 0xf)];
          ngx_hex_dump_loop dst' (d + 2) src len }"

definition ngx_hex_dump :: "bytes \<Rightarrow> cptr \<Rightarrow> nat \<Rightarrow> (bytes \<times> nat) option" where
  "ngx_hex_dump dst src len = ngx_hex_dump_loop dst 0 src len"

definition hex_emit :: "u8 \<Rightarrow> bytes" where
  "hex_emit c = [hex_digits ! unat (drop_bit 4 c), hex_digits ! unat (c AND 0xf)]"

interpretation hexdump: byte_emitter hex_emit ngx_hex_dump_loop
  by unfold_locales (simp_all add: hex_emit_def)

text \<open>The value of a hexadecimal digit of either case; \<open>None\<close> for any other byte.\<close>

definition hexval :: "u8 \<Rightarrow> int option" where
  "hexval ch =
     (if 0x30 \<le> ch \<and> ch \<le> 0x39 then Some (uint ch - 0x30)
      else let c = ch OR 0x20 in
        if 0x61 \<le> c \<and> c \<le> 0x66 then Some (uint c - 0x61 + 10) else None)"

lemma hexval_bounds: "hexval c = Some d \<Longrightarrow> 0 \<le> d \<and> d \<le> 15"
  by (auto simp: hexval_def Let_def word_le_def split: if_splits)

lemma hextoi_loop_Cons:
  "hextoi_loop cutoff v (ch # line) (Suc n) =
     (if cutoff < v then Some NGX_ERROR
      else case hexval ch of None \<Rightarrow> Some NGX_ERROR
        | Some d \<Rightarrow> hextoi_loop cutoff (v * 16 + d) line n)"
  by (simp add: hexval_def Let_def)

lemma hextoi_loop_spec:
  "n \<le> length line \<Longrightarrow> 0 \<le> v \<Longrightarrow> v \<le> NGX_MAX_INT_T_VALUE \<Longrightarrow>
   hextoi_loop (NGX_MAX_INT_T_VALUE div 16) v line n =
     Some (if None \<notin> hexval ` set (take n line) \<and>
              num 16 (\<lambda>c. the (hexval c)) v (take n line) \<le> NGX_MAX_INT_T_VALUE
           then num 16 (\<lambda>c. the (hexval c)) v (take n line) else NGX_ERROR)"
proof (induction n arbitrary: v line)
  case (Suc n)
  obtain c cs where line: "line = c # cs" using Suc.prems by (cases line) auto
  have cut: "NGX_MAX_INT_T_VALUE div 16 < v \<longleftrightarrow> \<not> v * 16 + 15 \<le> NGX_MAX_INT_T_VALUE"
    unfolding NGX_MAX_INT_T_VALUE_def by (rule iffI; simp)
  show ?case
  proof (cases "hexval c")
    case None
    then show ?thesis by (simp add: line hextoi_loop_Cons del: hextoi_loop.simps)
  next
    case (Some d)
    have d: "0 \<le> d" "d \<le> 15" using hexval_bounds [OF Some] by simp_all
    show ?thesis
    proof (cases "NGX_MAX_INT_T_VALUE div 16 < v")
      case True
      have "16 * v \<le> num 16 (\<lambda>c. the (hexval c)) (v * 16 + d) (take n cs)"
        if "None \<notin> hexval ` set (take n cs)"
      proof -
        have "0 \<le> the (hexval c')" if "c' \<in> set (take n cs)" for c'
          using that \<open>None \<notin> hexval ` set (take n cs)\<close> hexval_bounds [of c']
          by (cases "hexval c'") (auto, metis image_eqI)
        then have "v * 16 + d \<le> num 16 (\<lambda>c. the (hexval c)) (v * 16 + d) (take n cs)"
          using Suc.prems(2) d by (intro num_ge) auto
        then show ?thesis using d by simp
      qed
      moreover have "NGX_MAX_INT_T_VALUE < 16 * v"
        using True unfolding NGX_MAX_INT_T_VALUE_def by simp
      ultimately show ?thesis using True
        by (auto simp: line hextoi_loop_Cons Some simp del: hextoi_loop.simps)
    next
      case False
      then have "v * 16 + d \<le> NGX_MAX_INT_T_VALUE" using cut d by linarith
      then show ?thesis using False Suc.IH [of cs "v * 16 + d"] Suc.prems d Some
        by (simp add: line hextoi_loop_Cons del: hextoi_loop.simps)
    qed
  qed
qed simp

lemma hexval_hex_digits: "x < (16 :: u8) \<Longrightarrow> hexval (hex_digits ! unat x) = Some (uint x)"
proof -
  have "list_all (\<lambda>n. hexval (hex_digits ! n) = Some (int n)) [0..<16]" by code_simp
  then have *: "n < 16 \<Longrightarrow> hexval (hex_digits ! n) = Some (int n)" for n
    by (simp add: list_all_iff)
  show "x < 16 \<Longrightarrow> hexval (hex_digits ! unat x) = Some (uint x)"
    using * [of "unat x"] by (simp add: word_less_nat_alt)
qed

lemma byte_nibbles:
  "drop_bit 4 c < (16 :: u8)" "(c :: u8) AND 0xf < 16"
  "uint (drop_bit 4 c) * 16 + uint (c AND 0xf) = uint (c :: u8)"
proof -
  have "\<forall>c :: u8. drop_bit 4 c < 16 \<and> c AND 0xf < 16 \<and>
      uint (drop_bit 4 c) * 16 + uint (c AND 0xf) = uint c"
    unfolding all_bytes by code_simp
  then show "drop_bit 4 c < (16 :: u8)" "(c :: u8) AND 0xf < 16"
    "uint (drop_bit 4 c) * 16 + uint (c AND 0xf) = uint (c :: u8)" by blast+
qed

lemma hexval_emit: "map hexval (hex_emit c) = [Some (uint (drop_bit 4 c)), Some (uint (c AND 0xf))]"
  by (simp add: hex_emit_def hexval_hex_digits byte_nibbles)

text \<open>The number whose bytes, most significant first, are given.\<close>

abbreviation be_num :: "bytes \<Rightarrow> int" where
  "be_num \<equiv> num 256 uint 0"

lemma num_hex_dump:
  "None \<notin> hexval ` set (concat (map hex_emit cs)) \<and>
   num 16 (\<lambda>c. the (hexval c)) v (concat (map hex_emit cs)) = num 256 uint v cs"
proof (induction cs arbitrary: v)
  case (Cons c cs)
  show ?case using Cons [of "v * 256 + uint c"]
    by (simp add: hex_emit_def hexval_hex_digits byte_nibbles(1,2) algebra_simps
        flip: byte_nibbles(3) [of c])
qed simp

lemma length_hex_out: "n \<le> length src \<Longrightarrow> length (hexdump.out src n) = 2 * n"
proof (induction n arbitrary: src)
  case (Suc n)
  have "length (hex_emit c) = 2" for c by (simp add: hex_emit_def)
  then show ?case using Suc by (cases src) (auto simp: hexdump.out_def)
qed (simp add: hexdump.out_def)

subsection \<open>Properties\<close>

text \<open>
  C33: The four decimal parsers are one function up to their maximum, 2147483647 for
  \<open>ngx_atoi\<close> and 9223372036854775807 for \<open>ngx_atosz\<close>, \<open>ngx_atoof\<close> and \<open>ngx_atotm\<close>: on a non-empty text of
  decimal digits whose value does not exceed the maximum they return the value, on any other text
  \<open>NGX_ERROR\<close>, and they never read past the given length.
\<close>

theorem decimal_parsers_correct:
  assumes "n \<le> length line"
  shows "ngx_atoi line n =
      Some (if 0 < n \<and> list_all isdig (take n line) \<and> dec_num (take n line) \<le> 2147483647
            then dec_num (take n line) else NGX_ERROR) \<and>
    ngx_atosz line n =
      Some (if 0 < n \<and> list_all isdig (take n line) \<and> dec_num (take n line) \<le> 9223372036854775807
            then dec_num (take n line) else NGX_ERROR) \<and>
    ngx_atoof line n = ngx_atosz line n \<and> ngx_atotm line n = ngx_atosz line n"
  using atoi.parse_eq [OF assms] atosz.parse_eq [OF assms] atoof.parse_eq [OF assms]
    atotm.parse_eq [OF assms]
  by (simp add: NGX_MAX_INT_T_VALUE_def NGX_MAX_SIZE_T_VALUE_def NGX_MAX_OFF_T_VALUE_def
      NGX_MAX_TIME_T_VALUE_def)

lemma decimal_parsers_correct_witness:
  "ngx_atoi (ascii ''2147483648'') 10 = Some NGX_ERROR \<and>
   ngx_atosz (ascii ''2147483648'') 10 = Some 2147483648 \<and>
   ngx_atoi (ascii ''70 '') 2 = Some 70"
proof -
  have d: "list_all isdig (ascii ''2147483648'')" "dec_num (ascii ''2147483648'') = 2147483648"
    "list_all isdig (take 2 (ascii ''70 ''))" "dec_num (take 2 (ascii ''70 '')) = 70"
    by code_simp+
  show ?thesis
    using decimal_parsers_correct [of 10 "ascii ''2147483648''"]
      decimal_parsers_correct [of 2 "ascii ''70 ''"] d by simp
qed

text \<open>
  \<open>ngx_atofp\<close> reads \<open>ip.fp\<close> as a fixed-point number with \<open>point > 0\<close> decimal places: the value of
  all the digits scaled up by the places that are missing, \<open>NGX_ERROR\<close> when there are more digits
  after the dot than places or when the scaled value exceeds the maximum of \<open>ngx_int_t\<close>.
\<close>

theorem ngx_atofp_correct:
  assumes "list_all isdig ip" "list_all isdig fp" and "0 < point"
  shows "ngx_atofp (ip @ 0x2e # fp @ r) (length ip + 1 + length fp) point =
    Some (if length fp \<le> point \<and> dec_num (ip @ fp) * 10 ^ (point - length fp) \<le> NGX_MAX_INT_T_VALUE
          then dec_num (ip @ fp) * 10 ^ (point - length fp) else NGX_ERROR)"
  using assms by (rule ngx_atofp_dotted)

lemma ngx_atofp_correct_witness: "ngx_atofp (ascii ''10.5'') 4 2 = Some 1050"
proof -
  have "list_all isdig (ascii ''10'')" "list_all isdig (ascii ''5'')"
    "dec_num (ascii ''10'' @ ascii ''5'') = 105" by code_simp+
  then show ?thesis using ngx_atofp_correct [of "ascii ''10''" "ascii ''5''" 2 "[]"]
    by (simp add: NGX_MAX_INT_T_VALUE_def eval_nat_numeral)
qed

text \<open>
  \<open>ngx_hextoi\<close> inverts \<open>ngx_hex_dump\<close>: the dump of \<open>n > 0\<close> bytes fills exactly \<open>2 * n\<close> bytes of
  the destination, and reading it back gives the number whose big-endian bytes they were when that
  fits the maximum of \<open>ngx_int_t\<close>, \<open>NGX_ERROR\<close> otherwise.
\<close>

theorem hex_dump_hextoi:
  assumes n: "0 < n" "n \<le> length src" and room: "2 * n \<le> length dst"
  shows "\<exists>d. ngx_hex_dump dst src n = Some (d, 2 * n) \<and> drop (2 * n) d = drop (2 * n) dst \<and>
    length d = length dst \<and>
    ngx_hextoi d (2 * n) =
      Some (if be_num (take n src) \<le> NGX_MAX_INT_T_VALUE then be_num (take n src) else NGX_ERROR)"
proof -
  define h where "h = hexdump.out src n"
  have h: "length h = 2 * n" "h = concat (map hex_emit (take n src))"
    using length_hex_out [OF n(2)] by (simp_all add: h_def hexdump.out_def)
  have "ngx_hex_dump dst src n = Some (h @ drop (2 * n) dst, 2 * n)"
    using hexdump.go_ok [OF n(2), of 0 dst] room h(1) by (simp add: ngx_hex_dump_def h_def)
  moreover have "ngx_hextoi (h @ drop (2 * n) dst) (2 * n) =
      Some (if be_num (take n src) \<le> NGX_MAX_INT_T_VALUE then be_num (take n src) else NGX_ERROR)"
    using hextoi_loop_spec [of "2 * n" "h @ drop (2 * n) dst" 0] n h num_hex_dump [of "take n src" 0]
    by (simp add: ngx_hextoi_def max_int_nonneg)
  ultimately show ?thesis using h(1) room by simp
qed

lemma hex_dump_hextoi_witness:
  "\<exists>d. ngx_hex_dump [1, 1, 1, 1, 1] [0xbe, 0xef] 2 = Some (d, 4) \<and> drop 4 d = [1] \<and>
    ngx_hextoi d 4 = Some 48879"
proof -
  have "be_num (take 2 [0xbe, 0xef]) = 48879" by code_simp
  then show ?thesis using hex_dump_hextoi [of 2 "[0xbe, 0xef]" "[1, 1, 1, 1, 1]"]
    by (auto simp: NGX_MAX_INT_T_VALUE_def)
qed

end
