(* ===== verification/Utf8.thy ===== *)
theory Utf8 imports Bytebuf begin

text \<open>
  UTF-8 of \<open>src/ngx/ngx_string.c\<close>: \<open>ngx_utf8_decode\<close>, \<open>ngx_utf8_length\<close> and \<open>ngx_utf8_cpystrn\<close>.  A source
  pointer is an object and an offset.  The reference is the encoder \<open>utf8\<close> below, defined by
  arithmetic on code points; the lemmas show that decoding inverts it, that every loop ends, and
  what the counting and copying routines do on text made of encoded code points.
\<close>

subsection \<open>\<open>ngx_utf8_decode\<close>\<close>

text \<open>The loop over the continuation bytes: \<open>Inl\<close> is its early return.\<close>

fun utf8_cont :: "cptr \<Rightarrow> nat \<Rightarrow> nat \<Rightarrow> u32 \<Rightarrow> ((u32 + u32) \<times> nat) option" where
  "utf8_cont src p 0 u = Some (Inr u, p)"
| "utf8_cont src p (Suc len) u =
     do { i \<leftarrow> get src p;
          if i < 0x80 then Some (Inl 0xffffffff, Suc p)
          else utf8_cont src (Suc p) len (push_bit 6 u OR (ucast i AND 0x3f)) }"

text \<open>The lead byte: its payload, the largest overlong value, and the number of bytes that follow.\<close>

definition utf8_lead :: "u32 \<Rightarrow> (u32 \<times> u32 \<times> nat) option" where
  "utf8_lead u =
     (if 0xf0 \<le> u then Some (u AND 0x07, 0xffff, 3)
      else if 0xe0 \<le> u then Some (u AND 0x0f, 0x7ff, 2)
      else if 0xc2 \<le> u then Some (u AND 0x1f, 0x7f, 1)
      else None)"

definition utf8_seq :: "cptr \<Rightarrow> nat \<Rightarrow> u64 \<Rightarrow> u32 \<Rightarrow> u32 \<Rightarrow> nat \<Rightarrow> (u32 \<times> nat) option" where
  "utf8_seq src p n u valid len =
     (if n - 1 < of_nat len then Some (0xfffffffe, p)
      else do {
        (v, p') \<leftarrow> utf8_cont src (Suc p) len u;
        (case v of
           Inl e \<Rightarrow> Some (e, p')
         | Inr u' \<Rightarrow> Some (if valid < u' then u' else 0xffffffff, p')) })"

definition ngx_utf8_decode :: "cptr \<Rightarrow> nat \<Rightarrow> u64 \<Rightarrow> (u32 \<times> nat) option" where
  "ngx_utf8_decode src p n =
     do { c \<leftarrow> get src p;
          (case utf8_lead (ucast c) of
             None \<Rightarrow> Some (0xffffffff, Suc p)
           | Some (u, valid, len) \<Rightarrow> utf8_seq src p n u valid len) }"

lemma utf8_cont_advances: "utf8_cont src p len u = Some (v, p') \<Longrightarrow> p \<le> p'"
  by (induction len arbitrary: p u) (force simp: bind_eq_Some_conv split: if_splits)+

lemma utf8_seq_advances:
  "utf8_seq src p n u valid len = Some (w, p') \<Longrightarrow> \<not> 0x10ffff < w \<Longrightarrow> p < p'"
  by (cases "utf8_cont src (Suc p) len u")
    (auto simp: utf8_seq_def split: if_splits sum.split_asm
      dest!: utf8_cont_advances intro: Suc_le_lessD)

lemma ngx_utf8_decode_advances:
  "ngx_utf8_decode src p n = Some (u, p') \<Longrightarrow> \<not> 0x10ffff < u \<Longrightarrow> p < p'"
  by (auto simp: ngx_utf8_decode_def bind_eq_Some_conv split: option.splits
      dest: utf8_seq_advances)

subsection \<open>\<open>ngx_utf8_length\<close>\<close>

function utf8_length_loop :: "cptr \<Rightarrow> nat \<Rightarrow> nat \<Rightarrow> u64 \<Rightarrow> u64 \<Rightarrow> u64 option" where
  "utf8_length_loop src p lst n len =
     (if p < lst then
        (case get src p of
           None \<Rightarrow> None
         | Some c \<Rightarrow>
             if c < 0x80 then utf8_length_loop src (Suc p) lst n (len + 1)
             else (case ngx_utf8_decode src p (of_nat (lst - p)) of
                     None \<Rightarrow> None
                   | Some (u, p') \<Rightarrow>
                       if 0x10ffff < u then Some n
                       else utf8_length_loop src p' lst n (len + 1)))
      else Some len)"
  by pat_completeness auto
termination
  by (relation "measure (\<lambda>(src, p, lst, n, len). lst - p)")
    (auto dest!: ngx_utf8_decode_advances [rotated])

declare utf8_length_loop.simps [simp del]

definition ngx_utf8_length :: "cptr \<Rightarrow> nat \<Rightarrow> u64 option" where
  "ngx_utf8_length p n = utf8_length_loop p 0 n (of_nat n) 0"

subsection \<open>\<open>ngx_utf8_cpystrn\<close>\<close>

text \<open>
  The loop \<open>while (--n)\<close> with the \<open>*dst = 0\<close> after it; \<open>n\<close> is positive.  The result is the
  destination and the offset of the returned pointer.
\<close>

fun utf8_cpystrn_loop :: "bytes \<Rightarrow> nat \<Rightarrow> cptr \<Rightarrow> nat \<Rightarrow> nat \<Rightarrow> u64 \<Rightarrow> (bytes \<times> nat) option" where
  "utf8_cpystrn_loop dst d src s 0 len = None"
| "utf8_cpystrn_loop dst d src s (Suc n) len =
     (if n = 0 then do { dst' \<leftarrow> put dst d 0; Some (dst', d) }
      else do {
        c \<leftarrow> get src s;
        dst1 \<leftarrow> put dst d c;
        if c < 0x80 then
          (if c \<noteq> 0 then utf8_cpystrn_loop dst1 (Suc d) src (Suc s) n (len - 1)
           else Some (dst1, d))
        else do {
          (u, next) \<leftarrow> ngx_utf8_decode src s len;
          if 0x10ffff < u then do { dst' \<leftarrow> put dst1 d 0; Some (dst', d) }
          else do {
            dst2 \<leftarrow> puts dst1 d (take (next - s) (drop s src));
            utf8_cpystrn_loop dst2 (d + (next - s)) src next n (len - of_nat (next - s)) } } })"

declare utf8_cpystrn_loop.simps(2) [simp del]

definition ngx_utf8_cpystrn :: "bytes \<Rightarrow> cptr \<Rightarrow> nat \<Rightarrow> u64 \<Rightarrow> (bytes \<times> nat) option" where
  "ngx_utf8_cpystrn dst src n len =
     (if n = 0 then Some (dst, 0) else utf8_cpystrn_loop dst 0 src 0 n len)"

subsection \<open>The reference encoder\<close>

definition utf8 :: "nat \<Rightarrow> bytes" where
  "utf8 u =
     (if u < 0x80 then [of_nat u]
      else if u < 0x800 then [of_nat (0xc0 + u div 64), of_nat (0x80 + u mod 64)]
      else if u < 0x10000 then
        [of_nat (0xe0 + u div 4096), of_nat (0x80 + u div 64 mod 64), of_nat (0x80 + u mod 64)]
      else [of_nat (0xf0 + u div 262144), of_nat (0x80 + u div 4096 mod 64),
        of_nat (0x80 + u div 64 mod 64), of_nat (0x80 + u mod 64)])"

lemma and_mask_u32: "unat ((w :: u32) AND 0x3f) = unat w mod 64" "unat (w AND 0x1f) = unat w mod 32"
  "unat (w AND 0x0f) = unat w mod 16" "unat (w AND 0x07) = unat w mod 8"
proof -
  have m: "0x3f = (mask 6 :: u32)" "0x1f = (mask 5 :: u32)" "0x0f = (mask 4 :: u32)"
    "0x07 = (mask 3 :: u32)" by (simp_all add: mask_eq_exp_minus_1)
  show "unat ((w :: u32) AND 0x3f) = unat w mod 64" "unat (w AND 0x1f) = unat w mod 32"
    "unat (w AND 0x0f) = unat w mod 16" "unat (w AND 0x07) = unat w mod 8"
    unfolding m take_bit_eq_mask [symmetric]
    by (simp_all add: take_bit_eq_mod unat_mod)
qed

lemma utf8_shift:
  assumes "unat u < 2 ^ 26"
  shows "unat (push_bit 6 u OR (w AND 0x3f) :: u32) = unat u * 64 + unat w mod 64"
proof -
  have m: "0x3f = (mask 6 :: u32)" by (simp add: mask_eq_exp_minus_1)
  have "push_bit 6 u AND (w AND 0x3f) = 0" unfolding m
    by (rule bit_word_eqI) (auto simp: bit_simps)
  then have "push_bit 6 u OR (w AND 0x3f) = push_bit 6 u + (w AND 0x3f)"
    by (simp add: disjunctive_add_eq_or)
  moreover have "unat (push_bit 6 u) = unat u * 64"
    by (subst unsigned_push_bit_eq) (use assms in \<open>simp add: push_bit_eq_mult take_bit_eq_mod\<close>)
  moreover have "unat u * 64 + unat w mod 64 < 2 ^ 32" using assms
    by (simp add: mod_less_divisor [of 64, THEN less_imp_le, THEN order_trans])
  ultimately show ?thesis using unat_add_lem [of "push_bit 6 u" "w AND 0x3f"]
    by (simp add: and_mask_u32)
qed

lemma utf8_cont_byte:
  assumes "get src p = Some (of_nat (0x80 + k))" and "k < 64" and "v < 2 ^ 26"
  shows "utf8_cont src p (Suc len) (of_nat v) = utf8_cont src (Suc p) len (of_nat (v * 64 + k))"
proof -
  have c: "unat (of_nat (0x80 + k) :: u8) = 0x80 + k" using assms(2)
    by (simp add: unat_of_nat del: of_nat_add)
  then have ge: "\<not> (of_nat (0x80 + k) :: u8) < 0x80" by (simp add: word_less_nat_alt)
  have "unat (ucast (of_nat (0x80 + k) :: u8) :: u32) = 0x80 + k"
    using c assms(2) by (simp add: unsigned_ucast_eq take_bit_eq_mod)
  moreover have "(0x80 + k) mod 64 = k" using mod_mult_self4 [of 64 2 k] assms(2) by simp
  ultimately have "push_bit 6 (of_nat v) OR (ucast (of_nat (0x80 + k) :: u8) AND 0x3f) =
      (of_nat (v * 64 + k) :: u32)"
    using assms utf8_shift [of "of_nat v" "ucast (of_nat (0x80 + k) :: u8)"]
    by (simp add: word_unat_eq_iff unat_of_nat del: of_nat_add)
  then show ?thesis using assms(1) ge by (simp del: of_nat_add)
qed

lemma utf8_lead_bytes:
  "d < 8 \<Longrightarrow> utf8_lead (ucast (of_nat (0xf0 + d) :: u8)) = Some (of_nat d, 0xffff, 3)"
  "d < 16 \<Longrightarrow> utf8_lead (ucast (of_nat (0xe0 + d) :: u8)) = Some (of_nat d, 0x7ff, 2)"
  "2 \<le> d \<Longrightarrow> d < 32 \<Longrightarrow> utf8_lead (ucast (of_nat (0xc0 + d) :: u8)) = Some (of_nat d, 0x7f, 1)"
proof -
  have "list_all (\<lambda>d. utf8_lead (ucast (of_nat (0xf0 + d) :: u8)) = Some (of_nat d, 0xffff, 3)) [0..<8]"
    "list_all (\<lambda>d. utf8_lead (ucast (of_nat (0xe0 + d) :: u8)) = Some (of_nat d, 0x7ff, 2)) [0..<16]"
    "list_all (\<lambda>d. utf8_lead (ucast (of_nat (0xc0 + d) :: u8)) = Some (of_nat d, 0x7f, 1) \<or> d < 2) [0..<32]"
    by code_simp+
  then show
    "d < 8 \<Longrightarrow> utf8_lead (ucast (of_nat (0xf0 + d) :: u8)) = Some (of_nat d, 0xffff, 3)"
    "d < 16 \<Longrightarrow> utf8_lead (ucast (of_nat (0xe0 + d) :: u8)) = Some (of_nat d, 0x7ff, 2)"
    "2 \<le> d \<Longrightarrow> d < 32 \<Longrightarrow> utf8_lead (ucast (of_nat (0xc0 + d) :: u8)) = Some (of_nat d, 0x7f, 1)"
    by (auto simp add: list_all_iff simp del: of_nat_add upt_rec_numeral)
qed

lemma get_take_drop:
  "take (length w) (drop p src) = w \<Longrightarrow> i < length w \<Longrightarrow> get src (p + i) = Some (w ! i)"
  by (metis (no_types, lifting) get_Some less_imp_le_nat length_drop length_take less_diff_conv
      min.strict_boundedE nat_add_left_cancel_le nth_drop nth_take add.commute le_add1 le_trans
      min_less_iff_conj)

text \<open>Decoding inverts the reference encoder, for every code point of two or more bytes.\<close>

lemma decode_utf8:
  assumes u: "0x80 \<le> u" "u < 0x110000"
    and src: "take (length (utf8 u)) (drop p src) = utf8 u"
    and n: "length (utf8 u) \<le> unat n"
  shows "ngx_utf8_decode src p n = Some (of_nat u, p + length (utf8 u))"
proof -
  have get: "i < length (utf8 u) \<Longrightarrow> get src (p + i) = Some (utf8 u ! i)" for i
    using src by (rule get_take_drop)
  have enough: "\<not> n - 1 < of_nat k" if "Suc k \<le> unat n" "k < 4" for k
  proof -
    have "unat (n - 1) = unat n - 1" using that by (subst unat_sub) (auto simp: word_le_nat_alt)
    then show ?thesis using that by (simp add: word_less_nat_alt unat_of_nat)
  qed
  have val: "unat (of_nat u :: u32) = u" using u(2) by (simp add: unat_of_nat)
  consider "u < 0x800" | "0x800 \<le> u" "u < 0x10000" | "0x10000 \<le> u" by linarith
  then show ?thesis
  proof cases
    case 1
    have e: "utf8 u = [of_nat (0xc0 + u div 64), of_nat (0x80 + u mod 64)]"
      using 1 u by (simp add: utf8_def)
    have d: "2 \<le> u div 64" "u div 64 < 32" using 1 u by auto
    have "utf8_cont src (Suc p) 1 (of_nat (u div 64)) = Some (Inr (of_nat u), p + 2)"
      unfolding One_nat_def using get [of 1] 1
        utf8_cont_byte [of src "Suc p" "u mod 64" "u div 64" 0]
      by (simp add: e del: of_nat_add)
    then show ?thesis
      using get [of 0] enough [of 1] utf8_lead_bytes(3) [OF d] n u val
      by (simp add: ngx_utf8_decode_def utf8_seq_def e word_less_nat_alt del: of_nat_add)
  next
    case 2
    have e: "utf8 u = [of_nat (0xe0 + u div 4096), of_nat (0x80 + u div 64 mod 64),
        of_nat (0x80 + u mod 64)]"
      using 2 u by (simp add: utf8_def)
    have d: "u div 4096 < 16" using 2 by auto
    have s: "u div 4096 * 64 + u div 64 mod 64 = u div 64"
      using div_mult_mod_eq [of "u div 64" 64] by (simp add: div_mult2_eq [symmetric])
    have "utf8_cont src (Suc p) 2 (of_nat (u div 4096)) = Some (Inr (of_nat u), p + 3)"
      unfolding numeral_2_eq_2 using get [of 1] get [of 2] 2 s
        utf8_cont_byte [of src "Suc p" "u div 64 mod 64" "u div 4096" "Suc 0"]
        utf8_cont_byte [of src "Suc (Suc p)" "u mod 64" "u div 64" 0]
      by (simp add: e del: of_nat_add)
    then show ?thesis
      using get [of 0] enough [of 2] utf8_lead_bytes(2) [OF d] n 2 val
      by (simp add: ngx_utf8_decode_def utf8_seq_def e word_less_nat_alt del: of_nat_add)
  next
    case 3
    have e: "utf8 u = [of_nat (0xf0 + u div 262144), of_nat (0x80 + u div 4096 mod 64),
        of_nat (0x80 + u div 64 mod 64), of_nat (0x80 + u mod 64)]"
      using 3 u by (simp add: utf8_def)
    have d: "u div 262144 < 8" using u by auto
    have s: "u div 4096 * 64 + u div 64 mod 64 = u div 64"
      "u div 262144 * 64 + u div 4096 mod 64 = u div 4096"
      using div_mult_mod_eq [of "u div 64" 64] div_mult_mod_eq [of "u div 4096" 64]
      by (simp_all add: div_mult2_eq [symmetric])
    have "utf8_cont src (Suc p) 3 (of_nat (u div 262144)) = Some (Inr (of_nat u), p + 4)"
      unfolding numeral_3_eq_3 using get [of 1] get [of 2] get [of 3, unfolded numeral_3_eq_3] u s
        utf8_cont_byte [of src "Suc p" "u div 4096 mod 64" "u div 262144" "Suc (Suc 0)"]
        utf8_cont_byte [of src "Suc (Suc p)" "u div 64 mod 64" "u div 4096" "Suc 0"]
        utf8_cont_byte [of src "Suc (Suc (Suc p))" "u mod 64" "u div 64" 0]
      by (simp add: e del: of_nat_add)
    then show ?thesis
      using get [of 0] enough [of 3] utf8_lead_bytes(1) [OF d] n 3 val
      by (simp add: ngx_utf8_decode_def utf8_seq_def e word_less_nat_alt del: of_nat_add)
  qed
qed

lemma utf8_ascii: "u < 0x80 \<Longrightarrow> utf8 u = [of_nat u] \<and> (of_nat u :: u8) < 0x80"
  by (simp add: utf8_def word_less_nat_alt unat_of_nat)

lemma utf8_multi:
  assumes "0x80 \<le> u" and "u < 0x110000"
  obtains c cs where "utf8 u = c # cs" and "\<not> c < 0x80"
proof -
  have "\<not> (of_nat k :: u8) < 0x80" if "0x80 \<le> k" "k < 256" for k
    using that by (simp add: word_less_nat_alt unat_of_nat)
  note big = this
  consider "u < 0x800" | "0x800 \<le> u" "u < 0x10000" | "0x10000 \<le> u" by linarith
  then show thesis
  proof cases
    case 1
    then show ?thesis using assms big [of "0xc0 + u div 64"] that
      by (simp add: utf8_def del: of_nat_add)
  next
    case 2
    then show ?thesis using assms big [of "0xe0 + u div 4096"] that
      by (simp add: utf8_def del: of_nat_add)
  next
    case 3
    then show ?thesis using assms big [of "0xf0 + u div 262144"] that
      by (simp add: utf8_def del: of_nat_add)
  qed
qed

lemma utf8_nonempty: "utf8 u \<noteq> []"
  by (simp add: utf8_def)

abbreviation utf8s :: "nat list \<Rightarrow> bytes" where
  "utf8s us \<equiv> concat (map utf8 us)"

text \<open>Decoding inside a text.\<close>

lemma decode_at:
  assumes "0x80 \<le> u" "u < 0x110000" and "length (utf8 u) \<le> unat n"
  shows "ngx_utf8_decode (pre @ utf8 u @ post) (length pre) n =
    Some (of_nat u, length (pre @ utf8 u))"
  using decode_utf8 [OF assms(1,2) _ assms(3), of "length pre" "pre @ utf8 u @ post"] by simp

lemma code_point_valid: "u < 0x110000 \<Longrightarrow> \<not> 0x10ffff < (of_nat u :: u32)"
  by (simp add: word_less_nat_alt unat_of_nat)

lemma utf8_length_loop_text:
  "list_all (\<lambda>u. u < 0x110000) us \<Longrightarrow> length (pre @ utf8s us) < 2 ^ 64 \<Longrightarrow>
   utf8_length_loop (pre @ utf8s us @ post) (length pre) (length (pre @ utf8s us)) n len =
     Some (len + of_nat (length us))"
proof (induction us arbitrary: pre len)
  case Nil
  then show ?case by (simp add: utf8_length_loop.simps)
next
  case (Cons u us)
  note IH = Cons.IH [of "pre @ utf8 u" "len + 1"]
  have len: "length pre < length (pre @ utf8s (u # us))" using utf8_nonempty [of u] by simp
  show ?case
  proof (cases "u < 0x80")
    case True
    then show ?thesis using IH Cons.prems utf8_ascii [OF True]
      by (subst utf8_length_loop.simps) (simp add: get_def nth_append add.assoc)
  next
    case False
    have u: "u < 0x110000" using Cons.prems by simp
    obtain c cs where c: "utf8 u = c # cs" "\<not> c < 0x80" using utf8_multi False u by (metis not_less)
    have "unat (of_nat (length (utf8s (u # us))) :: u64) = length (utf8s (u # us))"
      using Cons.prems(2) by (intro unat_of_nat_u64) simp
    then have "ngx_utf8_decode (pre @ utf8 u @ utf8s us @ post) (length pre)
        (of_nat (length (utf8s (u # us)))) = Some (of_nat u, length (pre @ utf8 u))"
      using False u by (intro decode_at) auto
    moreover have "get (pre @ utf8 u @ utf8s us @ post) (length pre) = Some c"
      by (simp add: c(1) get_def nth_append)
    ultimately show ?thesis using len IH Cons.prems c(2) code_point_valid [OF u]
      by (subst utf8_length_loop.simps) (simp add: add.assoc)
  qed
qed

lemma put_puts_same: "put b d c \<bind> (\<lambda>b'. puts b' d (c # cs) \<bind> f) = (puts b d (c # cs) \<bind> f)"
  by (auto simp: put_def)

text \<open>One round copies one character.\<close>

lemma utf8_cpystrn_step:
  assumes u: "u < 0x110000" "0 < u" and len: "length (utf8 u) \<le> unat len"
  shows "utf8_cpystrn_loop dst d (pre @ utf8 u @ post) (length pre) (Suc (Suc m)) len =
    do { b \<leftarrow> puts dst d (utf8 u);
         utf8_cpystrn_loop b (d + length (utf8 u)) (pre @ utf8 u @ post)
           (length pre + length (utf8 u)) (Suc m) (len - of_nat (length (utf8 u))) }"
proof (cases "u < 0x80")
  case True
  have nz: "(of_nat u :: u8) \<noteq> 0" using True u(2) by (auto simp: word_unat_eq_iff unat_of_nat)
  show ?thesis using utf8_ascii [OF True] nz
    by (subst utf8_cpystrn_loop.simps) (simp add: get_def nth_append Option.bind_assoc)
next
  case False
  obtain c cs where c: "utf8 u = c # cs" "\<not> c < 0x80" using utf8_multi False u by (metis not_less)
  have "ngx_utf8_decode (pre @ utf8 u @ post) (length pre) len = Some (of_nat u, length (pre @ utf8 u))"
    using False u len by (intro decode_at) auto
  moreover have "get (pre @ utf8 u @ post) (length pre) = Some c"
    by (simp add: c(1) get_def nth_append)
  moreover have "put dst d c \<bind> (\<lambda>b. puts b d (utf8 u) \<bind> f) = (puts dst d (utf8 u) \<bind> f)"
    for f :: "bytes \<Rightarrow> (bytes \<times> nat) option"
    unfolding c(1) by (rule put_puts_same)
  ultimately show ?thesis using code_point_valid [OF u(1)] c(2)
    by (subst utf8_cpystrn_loop.simps) simp
qed

lemma utf8_cpystrn_loop_text:
  "list_all (\<lambda>u. 0 < u \<and> u < 0x110000) us \<Longrightarrow> length (utf8s us) \<le> unat len \<Longrightarrow>
   utf8_cpystrn_loop dst d (pre @ utf8s us @ 0 # post) (length pre) (Suc n) len =
     do { dst' \<leftarrow> puts dst d (utf8s (take n us) @ [0]); Some (dst', d + length (utf8s (take n us))) }"
proof (induction us arbitrary: pre len dst d n)
  case Nil
  then show ?case
    by (cases n) (simp_all add: utf8_cpystrn_loop.simps get_def nth_append)
next
  case (Cons u us)
  show ?case
  proof (cases n)
    case 0
    then show ?thesis by (simp add: utf8_cpystrn_loop.simps Option.bind_assoc)
  next
    case (Suc m)
    have u: "u < 0x110000" "0 < u" using Cons.prems by simp_all
    have len: "length (utf8 u) \<le> unat len" "length (utf8s us) \<le> unat len - length (utf8 u)"
      using Cons.prems by simp_all
    have sub: "unat (len - of_nat (length (utf8 u))) = unat len - length (utf8 u)"
    proof -
      have "unat (of_nat (length (utf8 u)) :: u64) = length (utf8 u)"
        using len(1) unat_lt_u64 [of len] by (intro unat_of_nat_u64) linarith
      then show ?thesis using len(1) by (subst unat_sub) (simp_all add: word_le_nat_alt)
    qed
    have IH: "utf8_cpystrn_loop b e (pre @ utf8 u @ utf8s us @ 0 # post) (length pre + length (utf8 u))
        n (len - of_nat (length (utf8 u))) =
      do { dst' \<leftarrow> puts b e (utf8s (take m us) @ [0]); Some (dst', e + length (utf8s (take m us))) }"
      for b e
      using Cons.IH [of "len - of_nat (length (utf8 u))" b e "pre @ utf8 u" m] Cons.prems len sub Suc
      by simp
    show ?thesis
      using utf8_cpystrn_step [OF u len(1), of dst d pre "utf8s us @ 0 # post" m]
      by (simp add: IH [unfolded Suc] Suc puts_bind add.assoc del: puts.simps)
  qed
qed

subsection \<open>Properties\<close>

text \<open>
  C32: \<open>ngx_utf8_decode\<close> inverts UTF-8 encoding: on the bytes of a code point between U+0080 and
  U+10FFFF, anywhere in an object and with at least that many bytes allowed, it returns the code
  point and moves the pointer past exactly its bytes.
\<close>

theorem ngx_utf8_decode_correct:
  assumes "0x80 \<le> u" and "u < 0x110000" and "length (utf8 u) \<le> unat n"
  shows "ngx_utf8_decode (pre @ utf8 u @ post) (length pre) n =
    Some (of_nat u, length pre + length (utf8 u))"
  using decode_at [OF assms] by simp

lemma ngx_utf8_decode_correct_witness:
  "ngx_utf8_decode [0x20, 0xe2, 0x82, 0xac, 0x20] 1 4 = Some (0x20ac, 4)"
proof -
  have "utf8 8364 = [0xe2, 0x82, 0xac]" by (simp add: utf8_def)
  then show ?thesis using ngx_utf8_decode_correct [of 8364 4 "[0x20]" "[0x20]"] by simp
qed

text \<open>
  C39: On text made of encoded code points \<open>ngx_utf8_length\<close> returns their number and
  \<open>ngx_utf8_cpystrn\<close> with a size of \<open>k + 1\<close> copies the first \<open>k\<close> characters whole (however many
  bytes they take), ends them with a NUL and returns a pointer to it; the rest of the destination
  is unchanged.
\<close>

theorem ngx_utf8_text:
  assumes us: "list_all (\<lambda>u. 0 < u \<and> u < 0x110000) us" and len: "length (utf8s us) < 2 ^ 64"
    and src: "src = utf8s us @ 0 # post"
    and room: "length (utf8s (take k us)) < length dst" and max: "length (utf8s us) \<le> unat len"
  shows "ngx_utf8_length src (length (utf8s us)) = Some (of_nat (length us)) \<and>
    ngx_utf8_cpystrn dst src (Suc k) len =
      Some (utf8s (take k us) @ 0 # drop (Suc (length (utf8s (take k us)))) dst,
        length (utf8s (take k us)))"
proof
  show "ngx_utf8_length src (length (utf8s us)) = Some (of_nat (length us))"
    using utf8_length_loop_text [of us "[]" "0 # post" "of_nat (length (utf8s us))" 0] us len
    by (auto simp: ngx_utf8_length_def src list_all_iff)
  show "ngx_utf8_cpystrn dst src (Suc k) len =
      Some (utf8s (take k us) @ 0 # drop (Suc (length (utf8s (take k us)))) dst,
        length (utf8s (take k us)))"
    using utf8_cpystrn_loop_text [OF us max, of dst 0 "[]" post k] room
    by (simp add: ngx_utf8_cpystrn_def src puts_eq)
qed

lemma ngx_utf8_text_witness:
  "ngx_utf8_length [0xe2, 0x82, 0xac, 0x31, 0xc3, 0xa9, 0] 6 = Some 3 \<and>
   ngx_utf8_cpystrn [9, 9, 9, 9, 9, 9] [0xe2, 0x82, 0xac, 0x31, 0xc3, 0xa9, 0] 3 7 =
     Some ([0xe2, 0x82, 0xac, 0x31, 0, 9], 4)"
proof -
  have e: "utf8s [8364, 0x31, 0xe9] = [0xe2, 0x82, 0xac, 0x31, 0xc3, 0xa9]"
    "utf8s (take 2 [8364, 0x31, 0xe9]) = [0xe2, 0x82, 0xac, 0x31]" by (simp_all add: utf8_def)
  have l: "length [0xe2, 0x82, 0xac, 0x31, 0xc3, 0xa9 :: u8] = 6"
    "length [0xe2, 0x82, 0xac, 0x31 :: u8] = 4" "Suc 2 = 3" "Suc 4 = 5" by simp_all
  show ?thesis
    using ngx_utf8_text [of "[8364, 0x31, 0xe9]" "[0xe2, 0x82, 0xac, 0x31, 0xc3, 0xa9, 0]" "[]" 2
      "[9, 9, 9, 9, 9, 9]" 7]
    unfolding e l by simp
qed

text \<open>
  What the decoder accepts beyond UTF-8: a lead byte of \<open>0xf8\<close> and above counts as the start of four
  bytes, and a byte of \<open>0xc0\<close> and above as a continuation.
\<close>

lemma decode_accepts_malformed:
  "ngx_utf8_decode [0xf8, 0x90, 0x80, 0x80] 0 4 = Some (0x10000, 4)"
  "ngx_utf8_decode [0xc3, 0xff] 0 2 = Some (0xff, 2)"
  by (simp_all add: ngx_utf8_decode_def utf8_lead_def utf8_seq_def get_def numeral_3_eq_3)

end
