(* ===== verification/Strings.thy ===== *)
theory Strings imports Bytebuf Palloc begin

text \<open>
  Copying, comparing and searching strings: the functions of \<open>src/ngx/ngx_string.c\<close> from \<open>ngx_strlow\<close>
  to \<open>ngx_pstrdup\<close> and from \<open>ngx_strcasecmp\<close> to \<open>ngx_filename_cmp\<close>, with \<open>ngx_strlchr\<close> of the header.  A
  source pointer is the list of the bytes from the pointer to the end of the object; \<open>None\<close> is a
  read past it (a string without its NUL) or a store past the destination.  A returned pointer is
  an offset into the argument, \<open>Some None\<close> the null pointer.  The comparisons are instances of the
  locale \<open>folded_compare\<close>, the searches of the locale \<open>string_search\<close>.
\<close>

subsection \<open>Copying\<close>

definition ngx_tolower :: "u8 \<Rightarrow> u8" where
  "ngx_tolower c = (if 0x41 \<le> c \<and> c \<le> 0x5a then c OR 0x20 else c)"

definition ngx_toupper :: "u8 \<Rightarrow> u8" where
  "ngx_toupper c = (if 0x61 \<le> c \<and> c \<le> 0x7a then c AND NOT 0x20 else c)"

fun strlow_loop :: "bytes \<Rightarrow> nat \<Rightarrow> cptr \<Rightarrow> nat \<Rightarrow> (bytes \<times> nat) option" where
  "strlow_loop dst d src 0 = Some (dst, d)"
| "strlow_loop dst d [] (Suc n) = None"
| "strlow_loop dst d (c # src) (Suc n) =
     do { dst' \<leftarrow> puts dst d [ngx_tolower c]; strlow_loop dst' (d + 1) src n }"

definition ngx_strlow :: "bytes \<Rightarrow> cptr \<Rightarrow> nat \<Rightarrow> bytes option" where
  "ngx_strlow dst src n = map_option fst (strlow_loop dst 0 src n)"

interpretation strlow: byte_emitter "\<lambda>c. [ngx_tolower c]" strlow_loop
  by unfold_locales simp_all

lemma ngx_strlow_ok:
  assumes "n \<le> length src" and "n \<le> length dst"
  shows "ngx_strlow dst src n = Some (map ngx_tolower (take n src) @ drop n dst)"
proof -
  have "strlow.out src n = map ngx_tolower (take n src)"
    by (simp add: strlow.out_def concat_map_singleton)
  then show ?thesis using strlow.go_ok [of n src 0 dst] assms by (simp add: ngx_strlow_def)
qed

fun strnlen_loop :: "nat \<Rightarrow> cptr \<Rightarrow> nat \<Rightarrow> nat option" where
  "strnlen_loop i p 0 = Some i"
| "strnlen_loop i [] (Suc n) = None"
| "strnlen_loop i (c # p) (Suc n) = (if c = 0 then Some i else strnlen_loop (Suc i) p n)"

definition ngx_strnlen :: "cptr \<Rightarrow> nat \<Rightarrow> nat option" where
  "ngx_strnlen p n = strnlen_loop 0 p n"

lemma strnlen_loop_eq:
  "n \<le> length p \<or> 0 \<in> set p \<Longrightarrow> strnlen_loop i p n = Some (i + min n (length (cstr p)))"
  by (induction i p n rule: strnlen_loop.induct) (auto simp: cstr_def)

text \<open>\<open>while (--n)\<close> of \<open>ngx_cpystrn\<close> with the final \<open>*dst = 0\<close>; \<open>n\<close> is positive.\<close>

fun cpystrn_loop :: "bytes \<Rightarrow> nat \<Rightarrow> cptr \<Rightarrow> nat \<Rightarrow> (bytes \<times> nat) option" where
  "cpystrn_loop dst d src 0 = None"
| "cpystrn_loop dst d src (Suc 0) = do { dst' \<leftarrow> put dst d 0; Some (dst', d) }"
| "cpystrn_loop dst d [] (Suc (Suc n)) = None"
| "cpystrn_loop dst d (c # src) (Suc (Suc n)) =
     do { dst' \<leftarrow> put dst d c;
          if c = 0 then Some (dst', d) else cpystrn_loop dst' (Suc d) src (Suc n) }"

definition ngx_cpystrn :: "bytes \<Rightarrow> cptr \<Rightarrow> nat \<Rightarrow> (bytes \<times> nat) option" where
  "ngx_cpystrn dst src n = (if n = 0 then Some (dst, 0) else cpystrn_loop dst 0 src n)"

lemma cpystrn_loop_eq:
  "0 \<in> set src \<Longrightarrow> cpystrn_loop dst d src (Suc n) =
     do { dst' \<leftarrow> puts dst d (take n (cstr src) @ [0]); Some (dst', d + min n (length (cstr src))) }"
proof (induction n arbitrary: dst d src)
  case 0
  then show ?case by (simp add: Option.bind_assoc)
next
  case (Suc n)
  then obtain c src' where "src = c # src'" by (cases src) auto
  then show ?case using Suc by (auto simp: cstr_def Option.bind_assoc)
qed

text \<open>
  \<open>ngx_pstrdup\<close>: the string is copied into memory of the pool.
\<close>

definition mem_copy :: "(u64 \<Rightarrow> u8) \<Rightarrow> u64 \<Rightarrow> bytes \<Rightarrow> (u64 \<Rightarrow> u8)" where
  "mem_copy m a s = (\<lambda>x. if unat (x - a) < length s then s ! unat (x - a) else m x)"

definition ngx_pstrdup ::
  "calloc_fn \<Rightarrow> sysheap \<Rightarrow> ngx_pool \<Rightarrow> ngx_strb \<Rightarrow> (u64 \<times> sysheap \<times> ngx_pool) option" where
  "ngx_pstrdup f h pool src =
     (let (dst, h', pool') = ngx_pnalloc f h pool (str_len src) in
      if dst = 0 then Some (0, h', pool')
      else if unat (str_len src) \<le> length (str_data src)
      then Some (dst, h'\<lparr>hmem := mem_copy (hmem h') dst (take (unat (str_len src)) (str_data src))\<rparr>, pool')
      else None)"

subsection \<open>Comparing\<close>

fun ngx_strcasecmp :: "cptr \<Rightarrow> cptr \<Rightarrow> int option" where
  "ngx_strcasecmp (a # s1) (b # s2) =
     (let c1 = ngx_tolower a; c2 = ngx_tolower b in
      if c1 = c2 then (if c1 \<noteq> 0 then ngx_strcasecmp s1 s2 else Some 0)
      else Some (uint c1 - uint c2))"
| "ngx_strcasecmp _ _ = None"

fun ngx_strncasecmp :: "cptr \<Rightarrow> cptr \<Rightarrow> nat \<Rightarrow> int option" where
  "ngx_strncasecmp s1 s2 0 = Some 0"
| "ngx_strncasecmp (a # s1) (b # s2) (Suc n) =
     (let c1 = ngx_tolower a; c2 = ngx_tolower b in
      if c1 = c2 then (if c1 \<noteq> 0 then ngx_strncasecmp s1 s2 n else Some 0)
      else Some (uint c1 - uint c2))"
| "ngx_strncasecmp _ _ (Suc n) = None"

fun rstrncmp_loop :: "cptr \<Rightarrow> cptr \<Rightarrow> nat \<Rightarrow> int option" where
  "rstrncmp_loop s1 s2 n =
     do { c1 \<leftarrow> get s1 n; c2 \<leftarrow> get s2 n;
          if c1 \<noteq> c2 then Some (uint c1 - uint c2)
          else if n = 0 then Some 0 else rstrncmp_loop s1 s2 (n - 1) }"

declare rstrncmp_loop.simps [simp del]

definition ngx_rstrncmp :: "cptr \<Rightarrow> cptr \<Rightarrow> nat \<Rightarrow> int option" where
  "ngx_rstrncmp s1 s2 n = (if n = 0 then Some 0 else rstrncmp_loop s1 s2 (n - 1))"

text \<open>The folding of \<open>ngx_rstrncasecmp\<close>: \<open>c -= 'a' - 'A'\<close> on a byte.\<close>

definition upper :: "u8 \<Rightarrow> u8" where
  "upper c = (if 0x61 \<le> c \<and> c \<le> 0x7a then c - (0x61 - 0x41) else c)"

fun rstrncasecmp_loop :: "cptr \<Rightarrow> cptr \<Rightarrow> nat \<Rightarrow> int option" where
  "rstrncasecmp_loop s1 s2 n =
     do { a \<leftarrow> get s1 n; b \<leftarrow> get s2 n;
          let c1 = upper a; let c2 = upper b;
          if c1 \<noteq> c2 then Some (uint c1 - uint c2)
          else if n = 0 then Some 0 else rstrncasecmp_loop s1 s2 (n - 1) }"

declare rstrncasecmp_loop.simps [simp del]

definition ngx_rstrncasecmp :: "cptr \<Rightarrow> cptr \<Rightarrow> nat \<Rightarrow> int option" where
  "ngx_rstrncasecmp s1 s2 n = (if n = 0 then Some 0 else rstrncasecmp_loop s1 s2 (n - 1))"

definition ngx_memn2cmp :: "cptr \<Rightarrow> cptr \<Rightarrow> nat \<Rightarrow> nat \<Rightarrow> int option" where
  "ngx_memn2cmp s1 s2 n1 n2 =
     (let (n, z) = (if n1 \<le> n2 then (n1, - 1) else (n2, 1)) in
      do { m \<leftarrow> memcmp s1 s2 n;
           if m \<noteq> 0 \<or> n1 = n2 then Some m else Some z })"

text \<open>In \<open>ngx_dns_strcmp\<close> a dot counts as a space, the lowest printable character.\<close>

definition dns_rank :: "u8 \<Rightarrow> u8" where
  "dns_rank c = (if c = 0x2e then 0x20 else c)"

fun ngx_dns_strcmp :: "cptr \<Rightarrow> cptr \<Rightarrow> int option" where
  "ngx_dns_strcmp (a # s1) (b # s2) =
     (let c1 = ngx_tolower a; c2 = ngx_tolower b in
      if c1 = c2 then (if c1 \<noteq> 0 then ngx_dns_strcmp s1 s2 else Some 0)
      else Some (uint (dns_rank c1) - uint (dns_rank c2)))"
| "ngx_dns_strcmp _ _ = None"

definition file_rank :: "u8 \<Rightarrow> u8" where
  "file_rank c = (if c = 0x2f then 0 else c)"

text \<open>\<open>NGX_HAVE_CASELESS_FILESYSTEM\<close> is not defined.\<close>

fun ngx_filename_cmp :: "cptr \<Rightarrow> cptr \<Rightarrow> nat \<Rightarrow> int option" where
  "ngx_filename_cmp s1 s2 0 = Some 0"
| "ngx_filename_cmp (c1 # s1) (c2 # s2) (Suc n) =
     (if c1 = c2 then (if c1 \<noteq> 0 then ngx_filename_cmp s1 s2 n else Some 0)
      else if c1 = 0 \<or> c2 = 0 then Some (uint c1 - uint c2)
      else Some (uint (file_rank c1) - uint (file_rank c2)))"
| "ngx_filename_cmp _ _ (Suc n) = None"

subsection \<open>Searching\<close>

text \<open>\<open>strlchr\<close> of the header, on the bytes from \<open>p\<close>, with the number of bytes before \<open>last\<close>.\<close>

fun strlchr_loop :: "nat \<Rightarrow> cptr \<Rightarrow> nat \<Rightarrow> u8 \<Rightarrow> nat option option" where
  "strlchr_loop i p 0 c = Some None"
| "strlchr_loop i [] (Suc n) c = None"
| "strlchr_loop i (x # p) (Suc n) c = (if x = c then Some (Some i) else strlchr_loop (Suc i) p n c)"

definition ngx_strlchr :: "cptr \<Rightarrow> nat \<Rightarrow> u8 \<Rightarrow> nat option option" where
  "ngx_strlchr p n c = strlchr_loop 0 p n c"

text \<open>\<open>strncmp\<close> of the C library.\<close>

fun strncmp :: "cptr \<Rightarrow> cptr \<Rightarrow> nat \<Rightarrow> int option" where
  "strncmp s1 s2 0 = Some 0"
| "strncmp (a # s1) (b # s2) (Suc n) =
     (if a \<noteq> b then Some (uint a - uint b) else if a = 0 then Some 0 else strncmp s1 s2 n)"
| "strncmp _ _ (Suc n) = None"

text \<open>\<open>ngx_strlen\<close> is \<open>strlen\<close>.\<close>

fun strlen :: "cptr \<Rightarrow> nat option" where
  "strlen [] = None"
| "strlen (c # s) = (if c = 0 then Some 0 else map_option Suc (strlen s))"

text \<open>
  The two nested loops of each search: \<open>i\<close> is the offset of \<open>s1\<close>, \<open>c2\<close> the first byte of the
  pattern and \<open>t\<close> its rest.
\<close>

fun strnstr_loop :: "u8 \<Rightarrow> cptr \<Rightarrow> nat \<Rightarrow> cptr \<Rightarrow> nat \<Rightarrow> nat \<Rightarrow> nat option option" where
  "strnstr_loop c2 t n s1 0 i = Some None"
| "strnstr_loop c2 t n [] (Suc len) i = None"
| "strnstr_loop c2 t n (c1 # s1) (Suc len) i =
     (if c1 = 0 then Some None
      else if c1 \<noteq> c2 then strnstr_loop c2 t n s1 len (Suc i)
      else if len < n then Some None
      else do { r \<leftarrow> strncmp s1 t n;
                if r \<noteq> 0 then strnstr_loop c2 t n s1 len (Suc i) else Some (Some i) })"

definition ngx_strnstr :: "cptr \<Rightarrow> cptr \<Rightarrow> nat \<Rightarrow> nat option option" where
  "ngx_strnstr s1 s2 len =
     do { c2 \<leftarrow> get s2 0; n \<leftarrow> strlen (drop 1 s2); strnstr_loop c2 (drop 1 s2) n s1 len 0 }"

fun strstrn_loop :: "u8 \<Rightarrow> cptr \<Rightarrow> nat \<Rightarrow> cptr \<Rightarrow> nat \<Rightarrow> nat option option" where
  "strstrn_loop c2 t n [] i = None"
| "strstrn_loop c2 t n (c1 # s1) i =
     (if c1 = 0 then Some None
      else if c1 \<noteq> c2 then strstrn_loop c2 t n s1 (Suc i)
      else do { r \<leftarrow> strncmp s1 t n;
                if r \<noteq> 0 then strstrn_loop c2 t n s1 (Suc i) else Some (Some i) })"

definition ngx_strstrn :: "cptr \<Rightarrow> cptr \<Rightarrow> nat \<Rightarrow> nat option option" where
  "ngx_strstrn s1 s2 n = do { c2 \<leftarrow> get s2 0; strstrn_loop c2 (drop 1 s2) n s1 0 }"

text \<open>
  \<open>ngx_strcasestrn\<close> reads the first byte of its pattern through a \<open>char *\<close>, which is signed: from 0x80 on
  it is extended to a 64-bit number no byte of the text is equal to.
\<close>

definition lower_uint :: "u64 \<Rightarrow> u64" where
  "lower_uint c = (if 0x41 \<le> c \<and> c \<le> 0x5a then c OR 0x20 else c)"

fun strcasestrn_loop :: "u64 \<Rightarrow> cptr \<Rightarrow> nat \<Rightarrow> cptr \<Rightarrow> nat \<Rightarrow> nat option option" where
  "strcasestrn_loop c2 t n [] i = None"
| "strcasestrn_loop c2 t n (a # s1) i =
     (if a = 0 then Some None
      else if lower_uint (ucast a) \<noteq> c2 then strcasestrn_loop c2 t n s1 (Suc i)
      else do { r \<leftarrow> ngx_strncasecmp s1 t n;
                if r \<noteq> 0 then strcasestrn_loop c2 t n s1 (Suc i) else Some (Some i) })"

definition ngx_strcasestrn :: "cptr \<Rightarrow> cptr \<Rightarrow> nat \<Rightarrow> nat option option" where
  "ngx_strcasestrn s1 s2 n =
     do { c2 \<leftarrow> get s2 0; strcasestrn_loop (lower_uint (scast c2)) (drop 1 s2) n s1 0 }"

text \<open>\<open>last\<close> is the offset \<open>last - s1\<close>; \<open>last -= n\<close> may leave the object, so offsets are integers.\<close>

fun strlcasestrn_loop :: "u8 \<Rightarrow> cptr \<Rightarrow> nat \<Rightarrow> int \<Rightarrow> cptr \<Rightarrow> nat \<Rightarrow> nat option option" where
  "strlcasestrn_loop c2 t n e [] i = (if e \<le> int i then Some None else None)"
| "strlcasestrn_loop c2 t n e (a # s1) i =
     (if e \<le> int i then Some None
      else if ngx_tolower a \<noteq> c2 then strlcasestrn_loop c2 t n e s1 (Suc i)
      else do { r \<leftarrow> ngx_strncasecmp s1 t n;
                if r \<noteq> 0 then strlcasestrn_loop c2 t n e s1 (Suc i) else Some (Some i) })"

definition ngx_strlcasestrn :: "cptr \<Rightarrow> nat \<Rightarrow> cptr \<Rightarrow> nat \<Rightarrow> nat option option" where
  "ngx_strlcasestrn s1 lst s2 n =
     do { c2 \<leftarrow> get s2 0;
          strlcasestrn_loop (ngx_tolower c2) (drop 1 s2) n (int lst - int n) s1 0 }"

subsection \<open>Contract of the comparisons\<close>

lemma uint_eq_iff [simp]: "uint (a :: 'a :: len word) = uint b \<longleftrightarrow> a = b"
  and uint_eq_0 [simp]: "uint (a :: 'a :: len word) = 0 \<longleftrightarrow> a = 0"
  by (simp_all add: word_uint_eq_iff)

text \<open>
  A comparison of two NUL-terminated strings byte by byte after \<open>fold\<close>: the first difference
  decides, by the \<open>rank\<close> of the folded bytes.
\<close>

locale folded_compare =
  fixes fold :: "u8 \<Rightarrow> u8" and rank :: "u8 \<Rightarrow> u8" and cmp :: "cptr \<Rightarrow> cptr \<Rightarrow> int option"
  assumes fold_0: "fold c = 0 \<longleftrightarrow> c = 0"
    and cmp_Cons: "cmp (a # s1) (b # s2) =
      (if fold a = fold b then (if fold a \<noteq> 0 then cmp s1 s2 else Some 0)
       else Some (uint (rank (fold a)) - uint (rank (fold b))))"
    and cmp_Nil: "cmp [] s = None" "cmp s [] = None"
begin

lemma fold_simps: "fold 0 = 0" "fold c = 0 \<longleftrightarrow> c = 0" "0 = fold c \<longleftrightarrow> c = 0"
  using fold_0 [of 0] fold_0 [of c] by auto

lemma cmp_defined: "0 \<in> set s1 \<Longrightarrow> 0 \<in> set s2 \<Longrightarrow> \<exists>v. cmp s1 s2 = Some v"
proof (induction s1 arbitrary: s2)
  case (Cons a s1)
  then show ?case by (cases s2) (auto simp: cmp_Cons fold_simps)
qed simp

lemma cmp_swap: "cmp s2 s1 = map_option uminus (cmp s1 s2)"
proof (induction s1 arbitrary: s2)
  case Nil
  then show ?case by (simp add: cmp_Nil)
next
  case (Cons a s1)
  then show ?case by (cases s2) (auto simp: cmp_Cons fold_simps cmp_Nil)
qed

lemma cmp_same:
  "0 \<in> set s1 \<Longrightarrow> 0 \<in> set s2 \<Longrightarrow> map fold (cstr s1) = map fold (cstr s2) \<Longrightarrow> cmp s1 s2 = Some 0"
proof (induction s1 arbitrary: s2)
  case (Cons a s1)
  then show ?case by (cases s2) (auto simp: cmp_Cons fold_simps cstr_def split: if_splits)
qed simp

end

text \<open>Where the rank keeps different bytes apart the comparison is an order.\<close>

locale faithful_compare = folded_compare +
  assumes rank_inj: "rank (fold a) = rank (fold b) \<longleftrightarrow> fold a = fold b"
begin

lemma cmp_0_iff:
  "0 \<in> set s1 \<Longrightarrow> 0 \<in> set s2 \<Longrightarrow>
     cmp s1 s2 = Some 0 \<longleftrightarrow> map fold (cstr s1) = map fold (cstr s2)"
proof (induction s1 arbitrary: s2)
  case (Cons a s1)
  then obtain b s2' where s2: "s2 = b # s2'" by (cases s2) auto
  have "fold a \<noteq> fold b \<Longrightarrow> rank (fold a) \<noteq> rank (fold b)" using rank_inj by blast
  then show ?case using Cons
    by (cases "a = 0"; cases "b = 0") (auto simp: s2 cmp_Cons fold_simps cstr_def)
qed simp

lemma cmp_trans:
  "cmp s1 s2 = Some u \<Longrightarrow> cmp s2 s3 = Some v \<Longrightarrow> u \<le> 0 \<Longrightarrow> v \<le> 0 \<Longrightarrow>
     \<exists>w. cmp s1 s3 = Some w \<and> w \<le> 0"
proof (induction s1 arbitrary: s2 s3)
  case Nil
  then show ?case by (simp add: cmp_Nil)
next
  case (Cons a s1)
  obtain b s2' c s3' where s: "s2 = b # s2'" "s3 = c # s3'"
    using Cons.prems(1,2) cmp_Nil by (cases s2; cases s3) auto
  show ?case
  proof (cases "fold a = fold b")
    case ab: True
    show ?thesis
    proof (cases "fold b = fold c")
      case True
      then show ?thesis using Cons.IH [of s2' s3'] Cons.prems ab
        by (auto simp: s cmp_Cons split: if_splits)
    next
      case False
      then show ?thesis using Cons.prems ab by (auto simp: s cmp_Cons)
    qed
  next
    case ab: False
    have "rank (fold a) \<noteq> rank (fold b)" using ab rank_inj by blast
    then have lt: "uint (rank (fold a)) < uint (rank (fold b))" using Cons.prems(1,3) ab
      by (simp add: s cmp_Cons order_less_le)
    show ?thesis
    proof (cases "fold b = fold c")
      case True
      then show ?thesis using lt ab by (auto simp: s cmp_Cons)
    next
      case False
      then have "uint (rank (fold b)) \<le> uint (rank (fold c))" using Cons.prems(2,4)
        by (simp add: s cmp_Cons)
      then show ?thesis using lt by (auto simp: s cmp_Cons)
    qed
  qed
qed

end

lemma ngx_tolower_0 [simp]: "ngx_tolower c = 0 \<longleftrightarrow> c = 0"
proof -
  have "\<forall>c. ngx_tolower c = 0 \<longleftrightarrow> c = 0" unfolding all_bytes by code_simp
  then show ?thesis by blast
qed

interpretation strcase: faithful_compare ngx_tolower "\<lambda>c. c" ngx_strcasecmp
proof
  show "ngx_strcasecmp [] s = None" "ngx_strcasecmp s [] = None" for s by (cases s; simp)+
qed (auto simp: Let_def)

interpretation dns: folded_compare ngx_tolower dns_rank ngx_dns_strcmp
proof
  show "ngx_dns_strcmp [] s = None" "ngx_dns_strcmp s [] = None" for s by (cases s; simp)+
qed (auto simp: Let_def)

text \<open>
  \<open>dns_rank\<close> is not injective: a dot and a space have the same rank, so two names that first differ
  there compare equal whatever follows.
\<close>

lemma dns_space_dot: "ngx_dns_strcmp (p @ 0x2e # s1) (p @ 0x20 # s2) = Some 0" if "0 \<notin> set p"
  using that by (induction p) (auto simp: Let_def dns_rank_def ngx_tolower_def)

text \<open>The comparisons of at most \<open>n\<close> bytes.\<close>

locale bounded_compare =
  fixes fold :: "u8 \<Rightarrow> u8" and cmpn :: "cptr \<Rightarrow> cptr \<Rightarrow> nat \<Rightarrow> int option"
  assumes fold_0: "fold c = 0 \<longleftrightarrow> c = 0"
    and cmpn_0: "cmpn s1 s2 0 = Some 0"
    and cmpn_Cons: "cmpn (a # s1) (b # s2) (Suc n) =
      (if fold a = fold b then (if fold a \<noteq> 0 then cmpn s1 s2 n else Some 0)
       else Some (uint (fold a) - uint (fold b)))"
begin

lemma fold_simps: "fold 0 = 0" "fold c = 0 \<longleftrightarrow> c = 0" "0 = fold c \<longleftrightarrow> c = 0"
  using fold_0 [of 0] fold_0 [of c] by auto

text \<open>Against a pattern without NUL: either string ends the comparison before it ends itself.\<close>

lemma cmpn_pattern:
  "n \<le> length t \<Longrightarrow> 0 \<notin> set (take n t) \<Longrightarrow> n \<le> length s \<or> 0 \<in> set s \<Longrightarrow>
   \<exists>v. cmpn s t n = Some v \<and> (v = 0 \<longleftrightarrow> map fold (take n s) = map fold (take n t))"
proof (induction n arbitrary: s t)
  case 0
  then show ?case by (simp add: cmpn_0)
next
  case (Suc n)
  obtain b t' where t: "t = b # t'" using Suc.prems(1) by (cases t) auto
  obtain a s' where s: "s = a # s'" using Suc.prems(3) by (cases s) auto
  show ?case using Suc by (cases "a = 0") (auto simp: s t cmpn_Cons fold_simps)
qed

end

interpretation strncmp: bounded_compare "\<lambda>c. c" strncmp
  by unfold_locales auto

interpretation strncase: bounded_compare ngx_tolower ngx_strncasecmp
  by unfold_locales (auto simp: Let_def)

lemma rstrncmp_loop_0:
  "n < length s1 \<Longrightarrow> n < length s2 \<Longrightarrow>
     rstrncmp_loop s1 s2 n = Some 0 \<longleftrightarrow> take (Suc n) s1 = take (Suc n) s2"
proof (induction n)
  case 0
  then show ?case by (subst rstrncmp_loop.simps)
    (auto simp: take_Suc_conv_app_nth)
next
  case (Suc n)
  then show ?case by (subst rstrncmp_loop.simps)
    (auto simp: take_Suc_conv_app_nth [of "Suc n"])
qed

lemma ngx_rstrncmp_0_iff:
  "n \<le> length s1 \<Longrightarrow> n \<le> length s2 \<Longrightarrow> ngx_rstrncmp s1 s2 n = Some 0 \<longleftrightarrow> take n s1 = take n s2"
  using rstrncmp_loop_0 [of "n - 1" s1 s2] by (cases n) (auto simp: ngx_rstrncmp_def)

lemma ngx_memn2cmp_0_iff:
  assumes "n1 \<le> length s1" and "n2 \<le> length s2"
  shows "ngx_memn2cmp s1 s2 n1 n2 = Some 0 \<longleftrightarrow> take n1 s1 = take n2 s2"
proof -
  define n where "n = min n1 n2"
  obtain m where m: "memcmp s1 s2 n = Some m" using assms by (auto simp: memcmp_def n_def min_le_iff_disj)
  have "m = 0 \<longleftrightarrow> take n s1 = take n s2"
    using memcmp_eq_0_iff [of s1 s2 n] m assms by (auto simp: n_def)
  moreover have "take n1 s1 = take n2 s2 \<longleftrightarrow> n1 = n2 \<and> take n s1 = take n s2"
  proof (cases "n1 = n2")
    case False
    then have "length (take n1 s1) \<noteq> length (take n2 s2)" using assms by simp
    then show ?thesis using False by metis
  qed (simp add: n_def)
  ultimately show ?thesis using m by (auto simp: ngx_memn2cmp_def n_def min_def split: if_splits)
qed

subsection \<open>Contract of the searches\<close>

text \<open>
  A scan from left to right that stops at the end of the text, or where the pattern matches; \<open>ok\<close>
  says that the text is readable up to its end.
\<close>

locale string_search =
  fixes ok stop :: "cptr \<Rightarrow> nat \<Rightarrow> bool" and hit :: "cptr \<Rightarrow> bool"
    and loop :: "cptr \<Rightarrow> nat \<Rightarrow> nat option option"
  assumes step: "ok s i \<Longrightarrow> loop s i =
      (if stop s i then Some None else if hit s then Some (Some i) else loop (tl s) (Suc i))"
    and ok_tl: "ok s i \<Longrightarrow> \<not> stop s i \<Longrightarrow> s \<noteq> [] \<and> ok (tl s) (Suc i)"
begin

text \<open>The search ends, and returns the first match before the end of the text, or NULL.\<close>

lemma search:
  "ok s i \<Longrightarrow> \<exists>e. (\<forall>j < e. \<not> stop (drop j s) (i + j) \<and> \<not> hit (drop j s)) \<and>
     (stop (drop e s) (i + e) \<and> loop s i = Some None \<or>
      \<not> stop (drop e s) (i + e) \<and> hit (drop e s) \<and> loop s i = Some (Some (i + e)))"
proof (induction "length s" arbitrary: s i)
  case 0
  then show ?case using step [of s i] ok_tl [of s i] by (intro exI [of _ 0]) auto
next
  case (Suc n)
  show ?case
  proof (cases "stop s i \<or> hit s")
    case True
    then show ?thesis using step [OF Suc.prems] by (intro exI [of _ 0]) auto
  next
    case False
    obtain c s' where s: "s = c # s'" using Suc.hyps(2) by (cases s) auto
    have ok: "ok s' (Suc i)" using ok_tl [OF Suc.prems] False by (simp add: s)
    obtain e where e: "\<forall>j < e. \<not> stop (drop j s') (Suc i + j) \<and> \<not> hit (drop j s')"
      "stop (drop e s') (Suc i + e) \<and> loop s' (Suc i) = Some None \<or>
       \<not> stop (drop e s') (Suc i + e) \<and> hit (drop e s') \<and> loop s' (Suc i) = Some (Some (Suc i + e))"
      using Suc.hyps(1) [OF _ ok] Suc.hyps(2) s by auto
    have "loop s i = loop s' (Suc i)" using step [OF Suc.prems] False by (simp add: s)
    moreover have "\<forall>j < Suc e. \<not> stop (drop j s) (i + j) \<and> \<not> hit (drop j s)"
      using e(1) False by (auto simp: s less_Suc_eq_0_disj)
    ultimately show ?thesis using e(2) by (intro exI [of _ "Suc e"]) (simp add: s)
  qed
qed

end

text \<open>The search for one byte.\<close>

interpretation strlchr: string_search "\<lambda>s i. i \<le> m \<and> m - i \<le> length s" "\<lambda>s i. m \<le> i"
    "\<lambda>s. hd s = c" "\<lambda>s i. strlchr_loop i s (m - i) c" for m c
proof
  fix s :: cptr and i assume ok: "i \<le> m \<and> m - i \<le> length s"
  show "strlchr_loop i s (m - i) c = (if m \<le> i then Some None else if hd s = c then Some (Some i)
      else strlchr_loop (Suc i) (tl s) (m - Suc i) c)"
  proof (cases "m \<le> i")
    case False
    then obtain k where k: "m - i = Suc k" "m - Suc i = k" by (cases "m - i") auto
    then obtain a s' where "s = a # s'" using ok by (cases s) auto
    then show ?thesis using False by (simp add: k)
  qed simp
  show "\<not> m \<le> i \<Longrightarrow> s \<noteq> [] \<and> Suc i \<le> m \<and> m - Suc i \<le> length (tl s)" using ok by auto
qed

text \<open>Where a pattern of \<open>Suc n\<close> bytes occurs, up to a folding of its bytes.\<close>

definition occurs :: "(u8 \<Rightarrow> u8) \<Rightarrow> bytes \<Rightarrow> nat \<Rightarrow> cptr \<Rightarrow> bool" where
  "occurs f p n s \<longleftrightarrow> map f (take (Suc n) s) = map f (take (Suc n) p)"

definition terminated :: "cptr \<Rightarrow> nat \<Rightarrow> bool" where
  "terminated s i \<longleftrightarrow> 0 \<in> set s"

definition at_nul :: "cptr \<Rightarrow> nat \<Rightarrow> bool" where
  "at_nul s i \<longleftrightarrow> hd s = 0"

lemma occurs_Cons:
  "occurs f (b # t) n (a # s) \<longleftrightarrow> f a = f b \<and> map f (take n s) = map f (take n t)"
  by (simp add: occurs_def)

text \<open>A pattern of \<open>Suc n\<close> bytes without NUL.\<close>

definition pattern_ok :: "u8 \<Rightarrow> cptr \<Rightarrow> nat \<Rightarrow> bool" where
  "pattern_ok c t n \<longleftrightarrow> n \<le> length t \<and> 0 \<notin> set (take n t) \<and> c \<noteq> 0"

interpretation strstrn: string_search "\<lambda>s i. terminated s i \<and> pattern_ok c t n" at_nul
    "occurs (\<lambda>c. c) (c # t) n" "strstrn_loop c t n" for c t n
proof
  fix s i assume "terminated s i \<and> pattern_ok c t n"
  then have ok: "terminated s i" and pat: "n \<le> length t" "0 \<notin> set (take n t)" "c \<noteq> 0"
    "pattern_ok c t n" by (auto simp: pattern_ok_def)
  then obtain a s' where s: "s = a # s'" by (cases s) (auto simp: terminated_def)
  show "strstrn_loop c t n s i = (if at_nul s i then Some None
      else if occurs (\<lambda>c. c) (c # t) n s then Some (Some i) else strstrn_loop c t n (tl s) (Suc i))"
  proof (cases "a = 0")
    case False
    then have "0 \<in> set s'" using ok by (simp add: terminated_def s)
    then show ?thesis using strncmp.cmpn_pattern [OF pat(1,2), of s']
      by (auto simp: s at_nul_def occurs_Cons)
  qed (simp add: s at_nul_def)
  show "\<not> at_nul s i \<Longrightarrow> s \<noteq> [] \<and> terminated (tl s) (Suc i) \<and> pattern_ok c t n"
    using ok pat(4) by (auto simp: s terminated_def at_nul_def)
qed

lemma unat_ucast_byte: "unat (ucast (b :: u8) :: u64) = unat b"
proof -
  have "unat b < 2 ^ LENGTH(8)" by (rule unsigned_less)
  then show ?thesis by (simp add: unsigned_ucast_eq take_bit_nat_eq_self)
qed

lemma lower_uint_ucast: "lower_uint (ucast c) = ucast (ngx_tolower c)"
  by (simp add: lower_uint_def ngx_tolower_def word_le_nat_alt unat_ucast_byte unsigned_or_eq)

lemma sign_bit: "bit (c :: u8) 7 \<longleftrightarrow> 0x80 \<le> c"
proof -
  have "\<forall>c :: u8. bit c 7 \<longleftrightarrow> 0x80 \<le> c" unfolding all_bytes by code_simp
  then show ?thesis by blast
qed

lemma lower_uint_scast: "c < 0x80 \<Longrightarrow> lower_uint (scast c) = ucast (ngx_tolower c)"
proof -
  assume "c < (0x80 :: u8)"
  then have 7: "\<not> bit c 7" by (simp add: sign_bit not_le)
  have "\<not> bit c n" if "7 \<le> n" for n
    using 7 that bit_imp_le_length [of c n] by (cases "n = 7") auto
  then have "(scast c :: u64) = ucast c"
    by (intro bit_word_eqI) (auto simp: bit_simps min_def not_le)
  then show ?thesis by (simp add: lower_uint_ucast)
qed

lemma lower_uint_negative: "0x80 \<le> c \<Longrightarrow> lower_uint (scast (c :: u8)) \<noteq> ucast (b :: u8)"
proof
  assume "0x80 \<le> c" and eq: "lower_uint (scast c) = ucast b"
  then have "bit (scast c :: u64) 8" by (simp add: bit_simps sign_bit)
  then have "bit (lower_uint (scast c)) 8" by (simp add: lower_uint_def bit_simps)
  then show False unfolding eq using bit_imp_le_length [of b 8] by (auto simp: bit_simps)
qed

lemma lower_uint_eq [simp]: "lower_uint (ucast a) = ucast (ngx_tolower c) \<longleftrightarrow> ngx_tolower a = ngx_tolower c"
  unfolding lower_uint_ucast by (metis unat_ucast_byte word_unat_eq_iff)

lemma strcasestrn_never:
  assumes "\<And>b :: u8. c2 \<noteq> ucast b"
  shows "0 \<in> set s \<Longrightarrow> strcasestrn_loop c2 t n s i = Some None"
  using assms by (induction s arbitrary: i) (auto simp: lower_uint_ucast dest: sym)

interpretation strcasestrn: string_search "\<lambda>s i. terminated s i \<and> pattern_ok c t n" at_nul
    "occurs ngx_tolower (c # t) n" "strcasestrn_loop (ucast (ngx_tolower c)) t n" for c t n
proof
  fix s i assume "terminated s i \<and> pattern_ok c t n"
  then have ok: "terminated s i" and pat: "n \<le> length t" "0 \<notin> set (take n t)" "c \<noteq> 0"
    "pattern_ok c t n" by (auto simp: pattern_ok_def)
  then obtain a s' where s: "s = a # s'" by (cases s) (auto simp: terminated_def)
  show "strcasestrn_loop (ucast (ngx_tolower c)) t n s i = (if at_nul s i then Some None
      else if occurs ngx_tolower (c # t) n s then Some (Some i)
      else strcasestrn_loop (ucast (ngx_tolower c)) t n (tl s) (Suc i))"
  proof (cases "a = 0")
    case False
    then have "0 \<in> set s'" using ok by (simp add: terminated_def s)
    then show ?thesis using strncase.cmpn_pattern [OF pat(1,2), of s']
      by (auto simp: s at_nul_def occurs_Cons)
  qed (simp add: s at_nul_def)
  show "\<not> at_nul s i \<Longrightarrow> s \<noteq> [] \<and> terminated (tl s) (Suc i) \<and> pattern_ok c t n"
    using ok pat(4) by (auto simp: s terminated_def at_nul_def)
qed

text \<open>
  \<open>ngx_strnstr\<close> in a text of at most \<open>m\<close> bytes: it stops at the end, at a NUL, and at a byte that
  starts the pattern where the rest no longer fits.
\<close>

interpretation strnstr: string_search
    "\<lambda>s i. (m - i \<le> length s \<or> 0 \<in> set s) \<and> i \<le> m \<and> pattern_ok c t n"
    "\<lambda>s i. m \<le> i \<or> hd s = 0 \<or> hd s = c \<and> m - Suc i < n"
    "occurs (\<lambda>c. c) (c # t) n" "\<lambda>s i. strnstr_loop c t n s (m - i) i" for m c t n
proof
  fix s :: cptr and i assume ok: "(m - i \<le> length s \<or> 0 \<in> set s) \<and> i \<le> m \<and> pattern_ok c t n"
  then have pat: "n \<le> length t" "0 \<notin> set (take n t)" "c \<noteq> 0" by (auto simp: pattern_ok_def)
  let ?stop = "m \<le> i \<or> hd s = 0 \<or> hd s = c \<and> m - Suc i < n"
  show "strnstr_loop c t n s (m - i) i = (if ?stop then Some None
      else if occurs (\<lambda>c. c) (c # t) n s then Some (Some i)
      else strnstr_loop c t n (tl s) (m - Suc i) (Suc i))"
  proof (cases "m \<le> i")
    case False
    then obtain k where k: "m - i = Suc k" "m - Suc i = k" by (cases "m - i") auto
    then obtain a s' where s: "s = a # s'" using ok by (cases s) auto
    show ?thesis
    proof (cases "a = 0 \<or> a = c \<and> k < n")
      case False
      then have "a = c \<Longrightarrow> n \<le> length s' \<or> 0 \<in> set s'" using ok by (auto simp: s k)
      then show ?thesis using strncmp.cmpn_pattern [OF pat(1,2), of s'] False \<open>\<not> m \<le> i\<close>
        by (auto simp: s k occurs_Cons)
    qed (use \<open>\<not> m \<le> i\<close> pat(3) in \<open>auto simp: s k\<close>)
  qed simp
  show "\<not> ?stop \<Longrightarrow>
      s \<noteq> [] \<and> (m - Suc i \<le> length (tl s) \<or> 0 \<in> set (tl s)) \<and> Suc i \<le> m \<and> pattern_ok c t n"
    using ok by (cases s) auto
qed

text \<open>
  \<open>ngx_strlcasestrn\<close> in a text that ends at offset \<open>e + n\<close>.
\<close>

interpretation strlcasestrn: string_search
    "\<lambda>s i. e + int n - int i \<le> int (length s) \<and> pattern_ok c t n" "\<lambda>s i. e \<le> int i"
    "occurs ngx_tolower (c # t) n" "strlcasestrn_loop (ngx_tolower c) t n e" for e c t n
proof
  fix s :: cptr and i assume ok: "e + int n - int i \<le> int (length s) \<and> pattern_ok c t n"
  then have pat: "n \<le> length t" "0 \<notin> set (take n t)" by (auto simp: pattern_ok_def)
  show "strlcasestrn_loop (ngx_tolower c) t n e s i = (if e \<le> int i then Some None
      else if occurs ngx_tolower (c # t) n s then Some (Some i)
      else strlcasestrn_loop (ngx_tolower c) t n e (tl s) (Suc i))"
  proof (cases "e \<le> int i")
    case True
    then show ?thesis by (cases s) auto
  next
    case False
    then obtain a s' where s: "s = a # s'" using ok by (cases s) auto
    have "n \<le> length s'" using ok False by (simp add: s)
    then show ?thesis using strncase.cmpn_pattern [OF pat, of s'] False
      by (auto simp: s occurs_Cons)
  qed
  show "\<not> e \<le> int i \<Longrightarrow>
      s \<noteq> [] \<and> e + int n - int (Suc i) \<le> int (length (tl s)) \<and> pattern_ok c t n"
    using ok by (cases s) auto
qed

text \<open>The search of a NUL-terminated text is the search of its characters.\<close>

lemma occurs_in_text:
  assumes f: "\<And>c. f c = 0 \<longleftrightarrow> c = 0" and p: "length p = Suc n" "0 \<notin> set p"
    and j: "j < length cs" and cs: "0 \<notin> set cs"
  shows "occurs f p n (drop j (cs @ 0 # r)) \<longleftrightarrow> map f (take (Suc n) (drop j cs)) = map f p"
proof (cases "Suc n \<le> length cs - j")
  case True
  then show ?thesis using j p(1) by (simp add: occurs_def del: take_Suc_Cons)
next
  case False
  have "0 \<in> set (take (Suc n) (drop j (cs @ 0 # r)))"
    using False j by (cases "Suc n - (length cs - j)") auto
  then have "0 \<in> set (map f (take (Suc n) (drop j (cs @ 0 # r))))"
    using f [of 0] by (metis image_eqI set_map)
  moreover have "0 \<notin> set (map f p)" using f p(2) by (auto simp: image_iff dest: sym)
  ultimately have "\<not> occurs f p n (drop j (cs @ 0 # r))" using p(1) unfolding occurs_def
    by (metis order_refl take_all)
  moreover have "length (map f (take (Suc n) (drop j cs))) \<noteq> length (map f p)"
    using False p(1) by simp
  then have "map f (take (Suc n) (drop j cs)) \<noteq> map f p" by metis
  ultimately show ?thesis by simp
qed

lemma search_is_find:
  assumes S: "string_search (\<lambda>s i. terminated s i \<and> Q) at_nul (occurs f p n) loop" and Q: "Q"
    and f: "\<And>c. f c = 0 \<longleftrightarrow> c = 0" and p: "length p = Suc n" "0 \<notin> set p" and cs: "0 \<notin> set cs"
  shows "loop (cs @ 0 # r) 0 =
    Some (find (\<lambda>j. map f (take (Suc n) (drop j cs)) = map f p) [0..<length cs])"
proof -
  let ?s = "cs @ 0 # r"
  let ?P = "\<lambda>j. map f (take (Suc n) (drop j cs)) = map f p"
  have occ: "j < length cs \<Longrightarrow> occurs f p n (drop j ?s) \<longleftrightarrow> ?P j" for j
    using occurs_in_text [OF f p _ cs] .
  have nul: "j < length cs \<Longrightarrow> \<not> at_nul (drop j ?s) j" for j
    using cs by (metis (no_types, lifting) at_nul_def hd_drop_conv_nth length_append nth_append
        nth_mem trans_less_add1)
  have nul': "at_nul (drop (length cs) ?s) (length cs)" by (simp add: at_nul_def)
  obtain e where e: "\<forall>j < e. \<not> at_nul (drop j ?s) j \<and> \<not> occurs f p n (drop j ?s)"
    "at_nul (drop e ?s) e \<and> loop ?s 0 = Some None \<or>
     \<not> at_nul (drop e ?s) e \<and> occurs f p n (drop e ?s) \<and> loop ?s 0 = Some (Some e)"
    using string_search.search [OF S, of ?s 0] Q by (auto simp: terminated_def)
  have le: "e \<le> length cs" using e(1) nul' by (meson not_less)
  from e(2) show ?thesis
  proof (elim disjE conjE)
    assume "at_nul (drop e ?s) e" and none: "loop ?s 0 = Some None"
    then have "e = length cs" using nul [of e] le by (cases "e < length cs") auto
    then have "find ?P [0..<length cs] = None" using e(1) occ by (auto simp: find_None_iff)
    then show ?thesis using none by simp
  next
    assume "\<not> at_nul (drop e ?s) e" "occurs f p n (drop e ?s)" and some: "loop ?s 0 = Some (Some e)"
    moreover have "e < length cs" using calculation(1) nul' le by (cases "e = length cs") auto
    ultimately have "find ?P [0..<length cs] = Some e" using e(1) occ
      by (auto simp: find_Some_iff intro!: exI [of _ e])
    then show ?thesis using some by simp
  qed
qed

subsection \<open>Properties\<close>

text \<open>
  C37: \<open>ngx_strstrn\<close> and \<open>ngx_strcasestrn\<close> return the first occurrence of the pattern in a
  NUL-terminated text, the null pointer when there is none: they agree with a search of the text
  position by position, exactly and ignoring the case of ASCII letters, and never read past the
  terminating NUL of the text (\<open>n\<close> is the length of the pattern less one, as the source requires).
  A pattern whose first byte is 0x80 or more \<open>ngx_strcasestrn\<close> does not find anywhere.
\<close>

theorem ngx_strstrn_first:
  assumes p: "length p = Suc n" "0 \<notin> set p" and cs: "0 \<notin> set cs"
  shows "ngx_strstrn (cs @ 0 # r) (p @ q) n =
      Some (find (\<lambda>j. take (Suc n) (drop j cs) = p) [0..<length cs]) \<and>
    ngx_strcasestrn (cs @ 0 # r) (p @ q) n =
      Some (if 0x80 \<le> hd p then None
        else find (\<lambda>j. map ngx_tolower (take (Suc n) (drop j cs)) = map ngx_tolower p) [0..<length cs])"
proof -
  obtain c t where ct: "p = c # t" using p(1) by (cases p) auto
  have high: "strcasestrn_loop (lower_uint (scast c)) (t @ q) n (cs @ 0 # r) 0 = Some None" if "0x80 \<le> c"
    using lower_uint_negative [OF that] by (intro strcasestrn_never) auto
  have t: "pattern_ok c (t @ q) n" using p by (auto simp: ct pattern_ok_def)
  have occ: "occurs f (c # t @ q) n = occurs f p n" for f
    using p(1) by (auto simp: occurs_def ct fun_eq_iff)
  show ?thesis
    using search_is_find [OF strstrn.string_search_axioms [of c "t @ q" n, unfolded occ] t _ p cs]
      search_is_find [OF strcasestrn.string_search_axioms [of c "t @ q" n, unfolded occ] t _ p cs]
      high
    by (simp add: ngx_strstrn_def ngx_strcasestrn_def ct lower_uint_scast flip: not_less)
qed

lemma ngx_strstrn_first_witness:
  "ngx_strstrn (ascii ''a Host: Ho'' @ [0]) (ascii ''host'') 3 = Some None \<and>
   ngx_strcasestrn (ascii ''a Host: Ho'' @ [0]) (ascii ''host'') 3 = Some (Some 2)"
proof -
  have 1: "find (\<lambda>j. take (Suc 3) (drop j (ascii ''a Host: Ho'')) = ascii ''host'')
      [0..<length (ascii ''a Host: Ho'')] = None"
    "find (\<lambda>j. map ngx_tolower (take (Suc 3) (drop j (ascii ''a Host: Ho''))) =
      map ngx_tolower (ascii ''host'')) [0..<length (ascii ''a Host: Ho'')] = Some 2"
    by code_simp+
  have 2: "length (ascii ''host'') = Suc 3" "0 \<notin> set (ascii ''host'')"
    "0 \<notin> set (ascii ''a Host: Ho'')" by simp_all
  show ?thesis using ngx_strstrn_first [OF 2, of "[]" "[]"] unfolding 1 by simp
qed

text \<open>
  \<open>ngx_strcasecmp\<close> is an order on NUL-terminated strings that ignores the case of ASCII letters:
  it always returns, exchanging the arguments negates the result, the result is 0 exactly for
  strings that are equal up to case, and \<open>\<le>\<close> is transitive.
\<close>

theorem ngx_strcasecmp_order:
  assumes "0 \<in> set s1" and "0 \<in> set s2" and "0 \<in> set s3"
  shows "\<exists>u v w. ngx_strcasecmp s1 s2 = Some u \<and> ngx_strcasecmp s2 s1 = Some (- u) \<and>
    (u = 0 \<longleftrightarrow> map ngx_tolower (cstr s1) = map ngx_tolower (cstr s2)) \<and>
    ngx_strcasecmp s2 s3 = Some v \<and> ngx_strcasecmp s1 s3 = Some w \<and>
    (u \<le> 0 \<and> v \<le> 0 \<longrightarrow> w \<le> 0)"
proof -
  obtain u v w where uvw: "ngx_strcasecmp s1 s2 = Some u" "ngx_strcasecmp s2 s3 = Some v"
    "ngx_strcasecmp s1 s3 = Some w" using strcase.cmp_defined assms by metis
  have "u \<le> 0 \<and> v \<le> 0 \<longrightarrow> w \<le> 0" using strcase.cmp_trans [OF uvw(1,2)] uvw(3) by auto
  then show ?thesis using uvw strcase.cmp_swap [of s2 s1] strcase.cmp_0_iff [OF assms(1,2)]
    by (intro exI [of _ u] exI [of _ v] exI [of _ w]) simp
qed

lemma ngx_strcasecmp_order_witness:
  "\<exists>u. ngx_strcasecmp (ascii ''Break'' @ [0]) (ascii ''bREAK'' @ [0]) = Some u \<and> u = 0"
proof -
  have "map ngx_tolower (cstr (ascii ''Break'' @ [0])) = map ngx_tolower (cstr (ascii ''bREAK'' @ [0]))"
    by code_simp
  then show ?thesis
    using ngx_strcasecmp_order [of "ascii ''Break'' @ [0]" "ascii ''bREAK'' @ [0]" "[0]"] by auto
qed

end
