(* ===== verification/Digits.thy ===== *)
theory Digits imports Numparse begin

text \<open>
  The digit loops of \<open>ngx_sprintf_num\<close> in \<open>src/ngx/ngx_string.c\<close>: two for decimal numbers, of 32 and
  of 64 bits, and two for hexadecimal ones.  All of them are one loop over a base and a table of
  digits (the locale \<open>digit_loop\<close>), whose reference is the positional representation \<open>radix\<close>; reading
  that back is \<open>num\<close> of \<open>Numparse\<close>.
\<close>

subsection \<open>The loops\<close>

text \<open>The three digit loops, each filling \<open>temp\<close> from its end: \<open>p\<close> is what is filled so far.\<close>

function dec_loop32 :: "u32 \<Rightarrow> bytes \<Rightarrow> bytes" where
  "dec_loop32 n p =
     (let p' = ucast (n mod 10 + 0x30) # p in
      if n div 10 = 0 then p' else dec_loop32 (n div 10) p')"
  by pat_completeness auto
termination
  by (relation "measure (\<lambda>(n, p). unat n)") (auto simp: unat_div unat_eq_zero [symmetric])

function dec_loop64 :: "u64 \<Rightarrow> bytes \<Rightarrow> bytes" where
  "dec_loop64 n p =
     (let p' = ucast (n mod 10 + 0x30) # p in
      if n div 10 = 0 then p' else dec_loop64 (n div 10) p')"
  by pat_completeness auto
termination
  by (relation "measure (\<lambda>(n, p). unat n)") (auto simp: unat_div unat_eq_zero [symmetric])

function hex_loop :: "bytes \<Rightarrow> u64 \<Rightarrow> bytes \<Rightarrow> bytes" where
  "hex_loop digits n p =
     (let p' = digits ! unat (n AND 0xf) # p in
      if drop_bit 4 n = 0 then p' else hex_loop digits (drop_bit 4 n) p')"
  by pat_completeness auto
termination
  by (relation "measure (\<lambda>(d, n, p). unat n)")
    (auto simp: unsigned_drop_bit_eq drop_bit_eq_div unat_div unat_eq_zero [symmetric])

declare dec_loop32.simps [simp del] dec_loop64.simps [simp del] hex_loop.simps [simp del]

definition HEX :: bytes where "HEX = ascii ''0123456789ABCDEF''"

definition num_digits :: "u64 \<Rightarrow> nat \<Rightarrow> bytes" where
  "num_digits ui64 hexadecimal =
     (if hexadecimal = 0 then
        (if ui64 \<le> 0xffffffff then dec_loop32 (ucast ui64) [] else dec_loop64 ui64 [])
      else if hexadecimal = 1 then hex_loop hex_digits ui64 []
      else hex_loop HEX ui64 [])"


subsection \<open>Positional representation\<close>

text \<open>The digits of \<open>n\<close> in base \<open>b\<close>, most significant first, without leading zeros.\<close>

function radix :: "nat \<Rightarrow> (nat \<Rightarrow> u8) \<Rightarrow> nat \<Rightarrow> bytes" where
  "radix b dig n =
     (if n < b \<or> b < 2 then [dig n] else radix b dig (n div b) @ [dig (n mod b)])"
  by pat_completeness auto
termination
  by (relation "measure (\<lambda>(b, dig, n). n)") (auto intro: div_less_dividend)

declare radix.simps [simp del]

lemma radix_less: "n < b \<Longrightarrow> radix b dig n = [dig n]"
  and radix_step: "b \<le> n \<Longrightarrow> 2 \<le> b \<Longrightarrow> radix b dig n = radix b dig (n div b) @ [dig (n mod b)]"
  by (subst radix.simps, simp)+

lemma radix_not_Nil [simp]: "radix b dig n \<noteq> []"
  by (subst radix.simps) simp

lemma radix_induct [consumes 1, case_names less step]:
  fixes P :: "nat \<Rightarrow> bool"
  assumes "2 \<le> b" and "\<And>n. n < b \<Longrightarrow> P n" and "\<And>n. b \<le> n \<Longrightarrow> P (n div b) \<Longrightarrow> P n"
  shows "P n"
proof (induction n rule: less_induct)
  case (less n)
  show ?case
  proof (cases "n < b")
    case False
    then have "n div b < n" using assms(1) by (intro div_less_dividend) auto
    then show ?thesis using less assms(3) False by simp
  qed (rule assms(2))
qed

lemma radix_length:
  assumes b: "2 \<le> b"
  shows "n < b ^ k \<Longrightarrow> 0 < k \<Longrightarrow> length (radix b dig n) \<le> k"
  using b
proof (induction n arbitrary: k rule: radix_induct)
  case (less n)
  then show ?case by (simp add: radix_less)
next
  case (step n)
  then obtain j where j: "k = Suc j" by (cases k) auto
  with step have "n div b < b ^ j" by (simp add: less_mult_imp_div_less mult.commute)
  moreover have "0 < j" using step j by (cases j) auto
  ultimately show ?case using b step j by (simp add: radix_step)
qed

lemma radix_num:
  assumes "2 \<le> b" and "\<And>d. d < b \<Longrightarrow> f (dig d) = int d"
  shows "num (int b) f 0 (radix b dig n) = int n"
  using assms(1)
proof (induction n rule: radix_induct)
  case (less n)
  then show ?case using assms by (simp add: radix_less)
next
  case (step n)
  have "n mod b < b" using assms(1) by simp
  then have "num (int b) f 0 (radix b dig n) = int (n div b) * int b + int (n mod b)"
    using step assms by (simp add: radix_step num_append del: of_nat_mod)
  also have "\<dots> = int n" by (simp flip: of_nat_mult of_nat_add)
  finally show ?case .
qed

lemma radix_digits:
  assumes b: "2 \<le> b"
  shows "set (radix b dig n) \<subseteq> dig ` {..<b}"
  using b
proof (induction n rule: radix_induct)
  case (step n)
  then show ?case using b by (auto simp: radix_step)
qed (simp add: radix_less)

subsection \<open>The loops compute it\<close>

text \<open>A digit loop puts the digits of its number in front of what is there.\<close>

locale digit_loop =
  fixes val :: "'w \<Rightarrow> nat" and b :: nat and dig :: "nat \<Rightarrow> u8"
    and quot :: "'w \<Rightarrow> 'w" and loop :: "'w \<Rightarrow> bytes \<Rightarrow> bytes"
  assumes base: "2 \<le> b"
    and quot: "val (quot n) = val n div b"
    and step: "loop n p =
      (if val (quot n) = 0 then dig (val n mod b) # p else loop (quot n) (dig (val n mod b) # p))"
begin

lemma loop_radix: "loop n p = radix b dig (val n) @ p"
proof (induction "val n" arbitrary: n p rule: less_induct)
  case less
  show ?case
  proof (cases "val n < b")
    case True
    then show ?thesis by (subst step) (simp add: quot radix_less)
  next
    case False
    then have "val n div b < val n" "val n div b \<noteq> 0"
      using base by (auto simp: div_eq_0_iff intro: div_less_dividend)
    then show ?thesis using False base less [of "quot n"]
      by (subst step) (simp add: quot radix_step)
  qed
qed

end

definition dec_digit :: "nat \<Rightarrow> u8" where "dec_digit d = of_nat (d + 48)"

lemma dec_digit32: "ucast (n mod 10 + 0x30 :: u32) = dec_digit (unat n mod 10)"
proof -
  have "unat (n mod 10 + 0x30) = unat n mod 10 + 48"
    by (simp add: unat_word_ariths unat_mod_distrib)
  then show ?thesis unfolding dec_digit_def by (metis of_nat_unat)
qed

lemma nibble_word: "unat (n AND 0xf :: u64) = unat n mod 16"
proof -
  have "n AND 0xf = take_bit 4 n" by (simp add: take_bit_eq_mask mask_eq_exp_minus_1)
  then show ?thesis by (simp add: take_bit_eq_mod unat_mod)
qed


lemma dec_digit64: "ucast (n mod 10 + 0x30 :: u64) = dec_digit (unat n mod 10)"
proof -
  have "unat (n mod 10 + 0x30) = unat n mod 10 + 48"
    by (simp add: unat_word_ariths unat_mod_distrib)
  then show ?thesis unfolding dec_digit_def by (metis of_nat_unat)
qed

lemma nibble_shift: "unat (drop_bit 4 (n :: u64)) = unat n div 16"
  by (simp add: drop_bit_eq_div unat_div)

interpretation dec32: digit_loop unat 10 dec_digit "\<lambda>n. n div 10" dec_loop32
proof
  fix n p
  show "dec_loop32 n p =
    (if unat (n div 10) = 0 then dec_digit (unat n mod 10) # p
     else dec_loop32 (n div 10) (dec_digit (unat n mod 10) # p))"
    by (subst dec_loop32.simps) (simp only: dec_digit32 Let_def unat_eq_zero)
qed (simp_all add: unat_div)

interpretation dec64: digit_loop unat 10 dec_digit "\<lambda>n. n div 10" dec_loop64
proof
  fix n p
  show "dec_loop64 n p =
    (if unat (n div 10) = 0 then dec_digit (unat n mod 10) # p
     else dec_loop64 (n div 10) (dec_digit (unat n mod 10) # p))"
    by (subst dec_loop64.simps) (simp only: dec_digit64 Let_def unat_eq_zero)
qed (simp_all add: unat_div)

interpretation hexlow: digit_loop unat 16 "\<lambda>d. hex_digits ! d" "drop_bit 4" "hex_loop hex_digits"
proof
  fix n p
  show "hex_loop hex_digits n p =
    (if unat (drop_bit 4 n) = 0 then hex_digits ! (unat n mod 16) # p
     else hex_loop hex_digits (drop_bit 4 n) (hex_digits ! (unat n mod 16) # p))"
    by (subst hex_loop.simps) (simp only: nibble_word Let_def unat_eq_zero)
qed (simp_all add: nibble_shift)

interpretation hexup: digit_loop unat 16 "\<lambda>d. HEX ! d" "drop_bit 4" "hex_loop HEX"
proof
  fix n p
  show "hex_loop HEX n p =
    (if unat (drop_bit 4 n) = 0 then HEX ! (unat n mod 16) # p
     else hex_loop HEX (drop_bit 4 n) (HEX ! (unat n mod 16) # p))"
    by (subst hex_loop.simps) (simp only: nibble_word Let_def unat_eq_zero)
qed (simp_all add: nibble_shift)

lemma num_digits_radix:
  "num_digits v hex =
    (if hex = 0 then radix 10 dec_digit (unat v)
     else radix 16 (\<lambda>d. (if hex = 1 then hex_digits else HEX) ! d) (unat v))"
proof -
  have "unat (ucast v :: u32) = unat v" if "v \<le> 0xffffffff"
  proof -
    have "unat v < 2 ^ 32" using that by (simp add: word_le_nat_alt)
    then show ?thesis by (simp add: unsigned_ucast_eq take_bit_nat_eq_self)
  qed
  then show ?thesis
    by (simp add: num_digits_def dec32.loop_radix dec64.loop_radix hexlow.loop_radix hexup.loop_radix)
qed

lemma num_digits_length: "length (num_digits v hex) \<le> 20"
proof -
  have "unat v < 2 ^ LENGTH(64)" by (rule unsigned_less)
  then have "unat v < 10 ^ 20" "unat v < 16 ^ 20" by simp_all
  then show ?thesis by (simp add: num_digits_radix radix_length)
qed

lemma dec_digit_facts: "d < 10 \<Longrightarrow> isdig (dec_digit d) \<and> digit (dec_digit d) = int d"
proof -
  have "list_all (\<lambda>d. isdig (dec_digit d) \<and> digit (dec_digit d) = int d) [0..<10]" by code_simp
  then show "d < 10 \<Longrightarrow> isdig (dec_digit d) \<and> digit (dec_digit d) = int d"
    by (simp add: list_all_iff)
qed

lemma hex_digit_facts:
  "d < 16 \<Longrightarrow> hexval ((if low then hex_digits else HEX) ! d) = Some (int d)"
proof -
  have "list_all (\<lambda>d. hexval (hex_digits ! d) = Some (int d) \<and> hexval (HEX ! d) = Some (int d)) [0..<16]"
    by code_simp
  then show "d < 16 \<Longrightarrow> hexval ((if low then hex_digits else HEX) ! d) = Some (int d)"
    by (simp add: list_all_iff)
qed

lemma dec_digits_num:
  "list_all isdig (num_digits v 0) \<and> dec_num (replicate k 0x30 @ num_digits v 0) = uint v"
proof -
  have "list_all isdig (num_digits v 0)"
    using radix_digits [of 10 dec_digit "unat v"] dec_digit_facts
    by (auto simp: num_digits_radix list_all_iff)
  moreover have "dec_num (replicate k 0x30) = 0"
    by (induction k) (simp_all add: digit_def)
  ultimately show ?thesis
    using radix_num [of 10 digit dec_digit "unat v"] dec_digit_facts
    by (simp add: num_append num_digits_radix)
qed

lemma hex_digits_num:
  assumes "hex \<noteq> 0"
  shows "None \<notin> hexval ` set (num_digits v hex) \<and>
    num 16 (\<lambda>c. the (hexval c)) 0 (replicate k 0x30 @ num_digits v hex) = uint v"
proof -
  have "None \<notin> hexval ` set (num_digits v hex)"
    using radix_digits [of 16 "\<lambda>d. (if hex = 1 then hex_digits else HEX) ! d" "unat v"]
      hex_digit_facts [of _ "hex = 1"] assms
    by (force simp: num_digits_radix)
  moreover have "num 16 (\<lambda>c. the (hexval c)) 0 (replicate k 0x30) = 0"
    by (induction k) (simp_all add: hexval_def)
  ultimately show ?thesis
    using radix_num [of 16 "\<lambda>c. the (hexval c)" "\<lambda>d. (if hex = 1 then hex_digits else HEX) ! d" "unat v"]
      hex_digit_facts [of _ "hex = 1"] assms
    by (simp add: num_append num_digits_radix)
qed

subsection \<open>Properties\<close>

text \<open>
  The digits \<open>ngx_sprintf_num\<close> prints are the positional representation of the number in base
  10, or 16 with either set of digits: no leading zero, the faster 32-bit loop taken for small
  numbers giving the same digits as the 64-bit one.  They never fill more than the
  20 bytes of \<open>temp\<close>.
\<close>

theorem num_digits_correct:
  "num_digits v hex =
      radix (if hex = 0 then 10 else 16)
        (\<lambda>d. if hex = 0 then of_nat (d + 48) else if hex = 1 then hex_digits ! d else HEX ! d) (unat v) \<and>
    num_digits v 0 = dec_loop64 v [] \<and> length (num_digits v hex) \<le> 20"
proof -
  have "(\<lambda>d. of_nat (d + 48)) = dec_digit" by (simp add: dec_digit_def fun_eq_iff)
  then show ?thesis using num_digits_length [of v hex]
    by (simp add: num_digits_radix dec64.loop_radix)
qed

end
