(* ===== verification/Sprintf.thy ===== *)
theory Sprintf imports Digits begin

text \<open>
  Formatted output of \<open>src/ngx/ngx_string.c\<close>: \<open>ngx_vslprintf\<close> with its three front ends and
  \<open>ngx_sprintf_num\<close>.  One turn of the loop of \<open>ngx_vslprintf\<close> is split where the code splits it: the
  flags and width after a \<open>%\<close> (\<open>fmt_flags\<close>), the conversion character and its arguments
  (\<open>fmt_conv\<close>), which give an \<open>item\<close>, and the stores of that item (\<open>emit_item\<close>).  The reference is
  \<open>render\<close>, the unbounded text of an item: the loop writes the longest prefix of the rendered
  items that fits below \<open>last\<close>.

  Positions are offsets into the destination object; \<open>last\<close> is one too, and may lie past the end of
  the object (\<open>ngx_sprintf\<close> passes the address \<open>-1\<close>).  \<open>None\<close> is undefined behaviour: a store past the
  object, a read past a format or argument string, a missing argument or one of another type.
  Arithmetic on \<open>double\<close> is the processor's, so the few operations \<open>%f\<close> uses are the parameter \<open>fpu\<close>
  over a type \<open>'d\<close> of floating-point values.
\<close>

subsection \<open>Arguments\<close>

text \<open>\<open>ngx_variable_value_t\<close>\<close>

record ngx_variable_value =
  vv_len :: "28 word"
  vv_valid :: bool
  vv_no_cacheable :: bool
  vv_not_found :: bool
  vv_escape :: bool
  vv_data :: cptr

text \<open>
  An argument by its class in the x86-64 ABI: 32-bit and 64-bit integers, pointers that are only
  printed, strings, and doubles.
\<close>

datatype 'd varg =
    A_int u32
  | A_long u64
  | A_ptr u64
  | A_str cptr
  | A_ngx_str ngx_strb
  | A_var ngx_variable_value
  | A_double 'd

record 'd fpu =
  fp_negative :: "'d \<Rightarrow> bool"               \<comment> \<open>\<open>f < 0\<close>\<close>
  fp_negate :: "'d \<Rightarrow> 'd"                   \<comment> \<open>\<open>-f\<close>\<close>
  fp_int :: "'d \<Rightarrow> u64"                     \<comment> \<open>\<open>(int64_t) f\<close>\<close>
  fp_frac :: "'d \<Rightarrow> u64 \<Rightarrow> u64 \<Rightarrow> u64"        \<comment> \<open>\<open>(uint64_t) ((f - (double) i) * scale + 0.5)\<close>\<close>

fun arg_int :: "'d varg list \<Rightarrow> (u32 \<times> 'd varg list) option" where
  "arg_int (A_int v # args) = Some (v, args)"
| "arg_int _ = None"

fun arg_long :: "'d varg list \<Rightarrow> (u64 \<times> 'd varg list) option" where
  "arg_long (A_long v # args) = Some (v, args)"
| "arg_long _ = None"

subsection \<open>Numbers\<close>

definition NGX_INT64_LEN :: nat where "NGX_INT64_LEN = length ''-9223372036854775808''"
definition NGX_INT32_LEN :: nat where "NGX_INT32_LEN = length ''-2147483648''"
definition NGX_INT_T_LEN :: nat where "NGX_INT_T_LEN = NGX_INT32_LEN"
definition NGX_ATOMIC_T_LEN :: nat where "NGX_ATOMIC_T_LEN = length ''-2147483648''"

text \<open>\<open>while (len++ < width && buf < last) *buf++ = zero\<close>\<close>

function pad_loop :: "bytes \<Rightarrow> nat \<Rightarrow> nat \<Rightarrow> u8 \<Rightarrow> nat \<Rightarrow> nat \<Rightarrow> (bytes \<times> nat) option" where
  "pad_loop dst d lst zero len width =
     (if len < width \<and> d < lst then
        do { dst' \<leftarrow> put dst d zero; pad_loop dst' (Suc d) lst zero (Suc len) width }
      else Some (dst, d))"
  by pat_completeness auto
termination
  by (relation "measure (\<lambda>(dst, d, lst, zero, len, width). lst - d)") auto

declare pad_loop.simps [simp del]

definition ngx_sprintf_num ::
  "bytes \<Rightarrow> nat \<Rightarrow> nat \<Rightarrow> u64 \<Rightarrow> u8 \<Rightarrow> nat \<Rightarrow> u64 \<Rightarrow> (bytes \<times> nat) option" where
  "ngx_sprintf_num dst d lst ui64 zero hexadecimal width =
     (let p = num_digits ui64 hexadecimal in
      do { (dst1, d1) \<leftarrow> pad_loop dst d lst zero (length p) (unat width);
           let len = (if d1 + length p > lst then lst - d1 else length p);
           dst2 \<leftarrow> puts dst1 d1 (take len p);
           Some (dst2, d1 + len) })"

subsection \<open>Parsing a conversion\<close>

record fmt_spec =
  sp_zero :: u8
  sp_width :: u64
  sp_sign :: bool
  sp_hex :: nat
  sp_max_width :: bool
  sp_frac_width :: u64
  sp_slen :: u64

fun fmt_number :: "u64 \<Rightarrow> cptr \<Rightarrow> (u64 \<times> cptr) option" where
  "fmt_number w [] = None"
| "fmt_number w (c # fmt) =
     (if 0x30 \<le> c \<and> c \<le> 0x39 then fmt_number (w * 10 + (ucast c - 0x30)) fmt
      else Some (w, c # fmt))"

text \<open>\<open>for ( ;; ) switch\<close> over the flags; a \<open>.\<close> with its digits ends it.\<close>

fun fmt_flags :: "fmt_spec \<Rightarrow> cptr \<Rightarrow> 'd varg list \<Rightarrow> (fmt_spec \<times> cptr \<times> 'd varg list) option" where
  "fmt_flags sp [] args = None"
| "fmt_flags sp (c # fmt) args =
     (if c = 0x75 then fmt_flags (sp\<lparr>sp_sign := False\<rparr>) fmt args
      else if c = 0x6d then fmt_flags (sp\<lparr>sp_max_width := True\<rparr>) fmt args
      else if c = 0x58 then fmt_flags (sp\<lparr>sp_hex := 2, sp_sign := False\<rparr>) fmt args
      else if c = 0x78 then fmt_flags (sp\<lparr>sp_hex := 1, sp_sign := False\<rparr>) fmt args
      else if c = 0x2e then
        do { (w, fmt') \<leftarrow> fmt_number 0 fmt; Some (sp\<lparr>sp_frac_width := w\<rparr>, fmt', args) }
      else if c = 0x2a then
        do { (n, args') \<leftarrow> arg_long args; fmt_flags (sp\<lparr>sp_slen := n\<rparr>) fmt args' }
      else Some (sp, c # fmt, args))"

text \<open>What a turn of the loop stores.\<close>

datatype 'd item =
    I_byte u8                         \<comment> \<open>one byte, without a check\<close>
  | I_text cptr nat                   \<comment> \<open>a given number of bytes\<close>
  | I_cstr cptr                       \<comment> \<open>bytes up to a NUL\<close>
  | I_number bool u64 u64 u8 nat u64  \<comment> \<open>\<open>sign\<close>, \<open>i64\<close>, \<open>ui64\<close>, \<open>zero\<close>, \<open>hex\<close>, \<open>width\<close>\<close>
  | I_float 'd u8 u64 u64             \<comment> \<open>\<open>f\<close>, \<open>zero\<close>, \<open>width\<close>, \<open>frac_width\<close>\<close>

definition int_item :: "fmt_spec \<Rightarrow> u64 \<Rightarrow> u64 \<Rightarrow> 'd item" where
  "int_item sp i64 ui64 = I_number (sp_sign sp) i64 ui64 (sp_zero sp) (sp_hex sp) (sp_width sp)"

text \<open>\<open>i64 = (int64_t) va_arg(...)\<close> where \<open>sign\<close> is set, else \<open>ui64 = (uint64_t) va_arg(...)\<close>.\<close>

definition long_item :: "fmt_spec \<Rightarrow> 'd varg list \<Rightarrow> ('d item \<times> 'd varg list) option" where
  "long_item sp args =
     do { (v, args') \<leftarrow> arg_long args;
          Some (if sp_sign sp then int_item sp v 0 else int_item sp 0 v, args') }"

definition word_item :: "fmt_spec \<Rightarrow> 'd varg list \<Rightarrow> ('d item \<times> 'd varg list) option" where
  "word_item sp args =
     do { (v, args') \<leftarrow> arg_int args;
          Some (if sp_sign sp then int_item sp (scast v) 0 else int_item sp 0 (ucast v), args') }"

text \<open>The second \<open>switch\<close>, on the conversion character \<open>c\<close>.\<close>

definition fmt_conv :: "fmt_spec \<Rightarrow> u8 \<Rightarrow> 'd varg list \<Rightarrow> ('d item \<times> 'd varg list) option" where
  "fmt_conv sp c args =
     (if c = 0x56 then      \<comment> \<open>\<open>V\<close>\<close>
        (case args of A_ngx_str v # args' \<Rightarrow> Some (I_text (str_data v) (unat (str_len v)), args')
         | _ \<Rightarrow> None)
      else if c = 0x76 then \<comment> \<open>\<open>v\<close>\<close>
        (case args of A_var vv # args' \<Rightarrow> Some (I_text (vv_data vv) (unat (vv_len vv)), args')
         | _ \<Rightarrow> None)
      else if c = 0x73 then \<comment> \<open>\<open>s\<close>\<close>
        (case args of
           A_str p # args' \<Rightarrow>
             Some (if sp_slen sp = - 1 then I_cstr p else I_text p (unat (sp_slen sp)), args')
         | _ \<Rightarrow> None)
      else if c = 0x4f then long_item (sp\<lparr>sp_sign := True\<rparr>) args   \<comment> \<open>\<open>O\<close>\<close>
      else if c = 0x50 then word_item (sp\<lparr>sp_sign := True\<rparr>) args   \<comment> \<open>\<open>P\<close>\<close>
      else if c = 0x54 then long_item (sp\<lparr>sp_sign := True\<rparr>) args   \<comment> \<open>\<open>T\<close>\<close>
      else if c = 0x4d then \<comment> \<open>\<open>M\<close>\<close>
        do { (ms, args') \<leftarrow> arg_long args;
             Some (if ms = - 1 then int_item (sp\<lparr>sp_sign := True\<rparr>) (- 1) 0
                   else int_item (sp\<lparr>sp_sign := False\<rparr>) 0 ms, args') }
      else if c = 0x7a then long_item sp args   \<comment> \<open>\<open>z\<close>\<close>
      else if c = 0x69 then \<comment> \<open>\<open>i\<close>\<close>
        long_item (if sp_max_width sp then sp\<lparr>sp_width := of_nat NGX_INT_T_LEN\<rparr> else sp) args
      else if c = 0x64 then word_item sp args   \<comment> \<open>\<open>d\<close>\<close>
      else if c = 0x6c then long_item sp args   \<comment> \<open>\<open>l\<close>\<close>
      else if c = 0x44 then word_item sp args   \<comment> \<open>\<open>D\<close>\<close>
      else if c = 0x4c then long_item sp args   \<comment> \<open>\<open>L\<close>\<close>
      else if c = 0x41 then \<comment> \<open>\<open>A\<close>\<close>
        word_item (if sp_max_width sp then sp\<lparr>sp_width := of_nat NGX_ATOMIC_T_LEN\<rparr> else sp) args
      else if c = 0x66 then \<comment> \<open>\<open>f\<close>\<close>
        (case args of
           A_double f # args' \<Rightarrow> Some (I_float f (sp_zero sp) (sp_width sp) (sp_frac_width sp), args')
         | _ \<Rightarrow> None)
      else if c = 0x70 then \<comment> \<open>\<open>p\<close>\<close>
        (case args of A_ptr v # args' \<Rightarrow> Some (I_number False 0 v 0x30 2 (2 * 8), args') | _ \<Rightarrow> None)
      else if c = 0x63 then \<comment> \<open>\<open>c\<close>\<close>
        do { (v, args') \<leftarrow> arg_int args; Some (I_byte (ucast (v AND 0xff)), args') }
      else if c = 0x5a then Some (I_byte 0, args)      \<comment> \<open>\<open>Z\<close>\<close>
      else if c = 0x4e then Some (I_byte 0x0a, args)   \<comment> \<open>\<open>N\<close>\<close>
      else if c = 0x25 then Some (I_byte 0x25, args)
      else Some (I_byte c, args))"

text \<open>A conversion after its \<open>%\<close>: the item, the rest of the format and of the arguments.\<close>

definition fmt_item :: "cptr \<Rightarrow> 'd varg list \<Rightarrow> ('d item \<times> cptr \<times> 'd varg list) option" where
  "fmt_item fmt args =
     do { z \<leftarrow> get fmt 0;
          (w, fmt1) \<leftarrow> fmt_number 0 fmt;
          (sp, fmt2, args2) \<leftarrow> fmt_flags
            \<lparr>sp_zero = (if z = 0x30 then 0x30 else 0x20), sp_width = w, sp_sign = True, sp_hex = 0,
             sp_max_width = False, sp_frac_width = 0, sp_slen = - 1\<rparr> fmt1 args;
          c \<leftarrow> get fmt2 0;
          (it, args3) \<leftarrow> fmt_conv sp c args2;
          Some (it, drop 1 fmt2, args3) }"

subsection \<open>Storing an item\<close>

text \<open>\<open>*buf++ = '-'\<close> before a negative number, without a check.\<close>

definition emit_number ::
  "bytes \<Rightarrow> nat \<Rightarrow> nat \<Rightarrow> bool \<Rightarrow> u64 \<Rightarrow> u64 \<Rightarrow> u8 \<Rightarrow> nat \<Rightarrow> u64 \<Rightarrow> (bytes \<times> nat) option" where
  "emit_number dst d lst sign i64 ui64 zero hex width =
     (if sign then
        (if sint i64 < 0 then
           do { dst' \<leftarrow> put dst d 0x2d; ngx_sprintf_num dst' (Suc d) lst (- i64) zero hex width }
         else ngx_sprintf_num dst d lst i64 zero hex width)
      else ngx_sprintf_num dst d lst ui64 zero hex width)"

text \<open>Integer part, fraction and scale of a \<open>%f\<close>, after the sign.\<close>

definition float_parts :: "'d fpu \<Rightarrow> 'd \<Rightarrow> u64 \<Rightarrow> u64 \<times> u64" where
  "float_parts fp f frac_width =
     (let ui64 = fp_int fp f in
      if frac_width = 0 then (ui64, 0)
      else let scale = 10 ^ unat frac_width; frac = fp_frac fp f ui64 scale in
        if frac = scale then (ui64 + 1, 0) else (ui64, frac))"

definition emit_float ::
  "'d fpu \<Rightarrow> bytes \<Rightarrow> nat \<Rightarrow> nat \<Rightarrow> 'd \<Rightarrow> u8 \<Rightarrow> u64 \<Rightarrow> u64 \<Rightarrow> (bytes \<times> nat) option" where
  "emit_float fp dst d lst f zero width frac_width =
     do { (dst1, d1, f1) \<leftarrow>
            (if fp_negative fp f
             then do { b \<leftarrow> put dst d 0x2d; Some (b, Suc d, fp_negate fp f) }
             else Some (dst, d, f));
          let (ui64, frac) = float_parts fp f1 frac_width;
          (dst2, d2) \<leftarrow> ngx_sprintf_num dst1 d1 lst ui64 zero 0 width;
          if frac_width \<noteq> 0 then do {
            (dst3, d3) \<leftarrow> (if d2 < lst then do { b \<leftarrow> put dst2 d2 0x2e; Some (b, Suc d2) }
                          else Some (dst2, d2));
            ngx_sprintf_num dst3 d3 lst frac 0x30 0 frac_width }
          else Some (dst2, d2) }"

text \<open>\<open>while (*p && buf < last) *buf++ = *p++\<close>\<close>

fun cstr_loop :: "bytes \<Rightarrow> nat \<Rightarrow> nat \<Rightarrow> cptr \<Rightarrow> (bytes \<times> nat) option" where
  "cstr_loop dst d lst [] = None"
| "cstr_loop dst d lst (c # p) =
     (if c \<noteq> 0 \<and> d < lst then do { dst' \<leftarrow> put dst d c; cstr_loop dst' (Suc d) lst p }
      else Some (dst, d))"

definition emit_item :: "'d fpu \<Rightarrow> bytes \<Rightarrow> nat \<Rightarrow> nat \<Rightarrow> 'd item \<Rightarrow> (bytes \<times> nat) option" where
  "emit_item fp dst d lst it =
     (case it of
        I_byte c \<Rightarrow> do { dst' \<leftarrow> put dst d c; Some (dst', Suc d) }
      | I_text p n \<Rightarrow>
          (let len = min (lst - d) n in
           if len \<le> length p then do { dst' \<leftarrow> puts dst d (take len p); Some (dst', d + len) }
           else None)
      | I_cstr p \<Rightarrow> cstr_loop dst d lst p
      | I_number sign i64 ui64 zero hex width \<Rightarrow> emit_number dst d lst sign i64 ui64 zero hex width
      | I_float f zero width frac_width \<Rightarrow> emit_float fp dst d lst f zero width frac_width)"

subsection \<open>\<open>ngx_vslprintf\<close>\<close>

lemma Some_eq_map_option: "Some y = map_option f x \<longleftrightarrow> (\<exists>z. x = Some z \<and> y = f z)"
  by (cases x) auto

lemma fmt_number_shorter: "fmt_number w fmt = Some (w', fmt') \<Longrightarrow> length fmt' \<le> length fmt"
  by (induction w fmt rule: fmt_number.induct) (auto split: if_splits)

lemma fmt_flags_shorter:
  "fmt_flags sp fmt args = Some (sp', fmt', args') \<Longrightarrow> length fmt' \<le> length fmt"
proof (induction sp fmt args rule: fmt_flags.induct)
  case (2 sp c fmt args)
  then show ?case
    by (auto split: if_splits simp: bind_eq_Some_conv dest!: fmt_number_shorter intro: le_SucI)
qed simp

lemma fmt_item_shorter:
  assumes "fmt_item fmt args = Some (it, fmt', args')"
  shows "length fmt' < length fmt"
proof -
  obtain w fmt1 sp fmt2 args2 c where "fmt_number 0 fmt = Some (w, fmt1)"
    "fmt_flags \<lparr>sp_zero = (if fmt ! 0 = 0x30 then 0x30 else 0x20), sp_width = w, sp_sign = True,
        sp_hex = 0, sp_max_width = False, sp_frac_width = 0, sp_slen = - 1\<rparr> fmt1 args =
      Some (sp, fmt2, args2)"
    "get fmt2 0 = Some c" "fmt' = drop 1 fmt2"
    using assms by (auto simp: fmt_item_def bind_eq_Some_conv get_def split: if_splits)
  then have "length fmt2 \<le> length fmt" "0 < length fmt2"
    using fmt_number_shorter fmt_flags_shorter by (fastforce simp: get_def split: if_splits)+
  then show ?thesis using \<open>fmt' = drop 1 fmt2\<close> by (cases fmt2) auto
qed

function ngx_vslprintf ::
  "'d fpu \<Rightarrow> bytes \<Rightarrow> nat \<Rightarrow> nat \<Rightarrow> cptr \<Rightarrow> 'd varg list \<Rightarrow> (bytes \<times> nat) option" where
  "ngx_vslprintf fp dst d lst fmt args =
     (case fmt of
        [] \<Rightarrow> None
      | c # fmt' \<Rightarrow>
          if c = 0 \<or> \<not> d < lst then Some (dst, d)
          else if c = 0x25 then
            (case fmt_item fmt' args of
               None \<Rightarrow> None
             | Some (it, fmt2, args2) \<Rightarrow>
                 (case emit_item fp dst d lst it of
                    None \<Rightarrow> None
                  | Some (dst', d') \<Rightarrow> ngx_vslprintf fp dst' d' lst fmt2 args2))
          else
            (case put dst d c of
               None \<Rightarrow> None
             | Some dst' \<Rightarrow> ngx_vslprintf fp dst' (Suc d) lst fmt' args))"
  by pat_completeness auto
termination
  by (relation "measure (\<lambda>(fp, dst, d, lst, fmt, args). length fmt)")
    (auto dest: fmt_item_shorter intro: less_SucI)

declare ngx_vslprintf.simps [simp del]

text \<open>The front ends; \<open>base\<close> is the address of the buffer, for the \<open>last\<close> of \<open>ngx_sprintf\<close>.\<close>

definition ngx_sprintf ::
  "'d fpu \<Rightarrow> u64 \<Rightarrow> bytes \<Rightarrow> cptr \<Rightarrow> 'd varg list \<Rightarrow> (bytes \<times> nat) option" where
  "ngx_sprintf fp base buf fmt args = ngx_vslprintf fp buf 0 (unat (- 1 - base)) fmt args"

definition ngx_snprintf ::
  "'d fpu \<Rightarrow> bytes \<Rightarrow> nat \<Rightarrow> cptr \<Rightarrow> 'd varg list \<Rightarrow> (bytes \<times> nat) option" where
  "ngx_snprintf fp buf n fmt args = ngx_vslprintf fp buf 0 n fmt args"

definition ngx_slprintf ::
  "'d fpu \<Rightarrow> bytes \<Rightarrow> nat \<Rightarrow> cptr \<Rightarrow> 'd varg list \<Rightarrow> (bytes \<times> nat) option" where
  "ngx_slprintf fp buf lst fmt args = ngx_vslprintf fp buf 0 lst fmt args"

subsection \<open>The text of an item\<close>

definition render_num :: "u64 \<Rightarrow> u8 \<Rightarrow> nat \<Rightarrow> u64 \<Rightarrow> bytes" where
  "render_num ui64 zero hex width =
     (let p = num_digits ui64 hex in replicate (unat width - length p) zero @ p)"

definition render_float :: "'d fpu \<Rightarrow> 'd \<Rightarrow> u8 \<Rightarrow> u64 \<Rightarrow> u64 \<Rightarrow> bytes" where
  "render_float fp f zero width frac_width =
     (let (ui64, frac) = float_parts fp f frac_width in
      render_num ui64 zero 0 width @
      (if frac_width \<noteq> 0 then [0x2e] @ render_num frac 0x30 0 frac_width else []))"

fun render :: "'d fpu \<Rightarrow> 'd item \<Rightarrow> bytes" where
  "render fp (I_byte c) = [c]"
| "render fp (I_text p n) = take n p"
| "render fp (I_cstr p) = cstr p"
| "render fp (I_number sign i64 ui64 zero hex width) =
     (if sign then
        (if sint i64 < 0 then [0x2d] @ render_num (- i64) zero hex width
         else render_num i64 zero hex width)
      else render_num ui64 zero hex width)"
| "render fp (I_float f zero width frac_width) =
     (if fp_negative fp f then [0x2d] @ render_float fp (fp_negate fp f) zero width frac_width
      else render_float fp f zero width frac_width)"

text \<open>The strings of an item can be read as far as its conversion may read them.\<close>

fun readable :: "'d item \<Rightarrow> bool" where
  "readable (I_text p n) \<longleftrightarrow> n \<le> length p"
| "readable (I_cstr p) \<longleftrightarrow> 0 \<in> set p"
| "readable _ \<longleftrightarrow> True"

text \<open>All items of a format with its arguments.\<close>

function fmt_items :: "cptr \<Rightarrow> 'd varg list \<Rightarrow> 'd item list option" where
  "fmt_items fmt args =
     (case fmt of
        [] \<Rightarrow> None
      | c # fmt' \<Rightarrow>
          if c = 0 then Some []
          else if c = 0x25 then
            (case fmt_item fmt' args of
               None \<Rightarrow> None
             | Some (it, fmt2, args2) \<Rightarrow> map_option (\<lambda>its. it # its) (fmt_items fmt2 args2))
          else map_option (\<lambda>its. I_byte c # its) (fmt_items fmt' args))"
  by pat_completeness auto
termination
  by (relation "measure (\<lambda>(fmt, args). length fmt)") (auto dest: fmt_item_shorter intro: less_SucI)

declare fmt_items.simps [simp del]

subsection \<open>Stores cut off at \<open>last\<close>\<close>

text \<open>The bytes of \<open>r\<close> that fit, stored from \<open>d\<close> on.\<close>

definition store_cut :: "bytes \<Rightarrow> nat \<Rightarrow> nat \<Rightarrow> bytes \<Rightarrow> (bytes \<times> nat) option" where
  "store_cut dst d lst r =
     do { dst' \<leftarrow> puts dst d (take (lst - d) r); Some (dst', d + length (take (lst - d) r)) }"

lemma store_cut_Nil [simp]: "store_cut dst d lst [] = Some (dst, d)"
  by (simp add: store_cut_def)

lemma store_cut_append:
  "store_cut dst d lst (r @ s) = do { (b, e) \<leftarrow> store_cut dst d lst r; store_cut b e lst s }"
proof -
  have "lst - d - length r = lst - (d + min (length r) (lst - d))" by (auto simp: min_def)
  then show ?thesis
    by (simp add: store_cut_def Option.bind_assoc puts_append add.assoc)
qed

lemma store_cut_Cons:
  "d < lst \<Longrightarrow> store_cut dst d lst (c # r) = do { b \<leftarrow> put dst d c; store_cut b (Suc d) lst r }"
  using store_cut_append [of dst d lst "[c]" r]
  by (simp add: store_cut_def Option.bind_assoc take_Cons')

lemma store_cut_full: "\<not> d < lst \<Longrightarrow> store_cut dst d lst r = Some (dst, d)"
  by (simp add: store_cut_def)

lemma pad_loop_cut:
  "pad_loop dst d lst zero len width = store_cut dst d lst (replicate (width - len) zero)"
proof (induction dst d lst zero len width rule: pad_loop.induct)
  case (1 dst d lst zero len width)
  show ?case
  proof (cases "len < width \<and> d < lst")
    case True
    then have "width - len = Suc (width - Suc len)" by linarith
    then show ?thesis using 1 True
      by (subst pad_loop.simps) (auto simp: store_cut_Cons split: bind_splits)
  next
    case False
    then show ?thesis by (subst pad_loop.simps) (auto simp: store_cut_full)
  qed
qed

lemma ngx_sprintf_num_cut:
  assumes "d \<le> lst"
  shows "ngx_sprintf_num dst d lst ui64 zero hex width =
    store_cut dst d lst (render_num ui64 zero hex width)"
proof -
  have "(let len = (if d1 + length p > lst then lst - d1 else length p) in
      do { b \<leftarrow> puts dst1 d1 (take len p); Some (b, d1 + len) }) = store_cut dst1 d1 lst p"
    if "d1 \<le> lst" for dst1 d1 p
    using that by (auto simp: store_cut_def Let_def min_def)
  moreover have "e \<le> lst" if "store_cut dst d lst r = Some (b, e)" for r b e
    using that assms by (auto simp: store_cut_def bind_eq_Some_conv)
  ultimately show ?thesis
    by (auto simp: ngx_sprintf_num_def render_num_def Let_def pad_loop_cut store_cut_append
        intro!: Option.bind_cong)
qed


lemma store_cut_le: "store_cut dst d lst r = Some (b, e) \<Longrightarrow> d \<le> lst \<Longrightarrow> e \<le> lst"
  by (auto simp: store_cut_def bind_eq_Some_conv)

lemma cstr_loop_cut: "0 \<in> set p \<Longrightarrow> cstr_loop dst d lst p = store_cut dst d lst (cstr p)"
proof (induction dst d lst p rule: cstr_loop.induct)
  case (2 dst d lst c p)
  then show ?case
    by (cases "c = 0"; cases "d < lst")
      (auto simp: cstr_def store_cut_Cons store_cut_full split: bind_splits)
qed simp

lemma emit_number_cut:
  assumes "d < lst"
  shows "emit_number dst d lst sign i64 ui64 zero hex width =
    store_cut dst d lst (render fp (I_number sign i64 ui64 zero hex width))"
  using assms
  by (auto simp: emit_number_def ngx_sprintf_num_cut store_cut_Cons split: bind_splits)

lemma emit_float_cut:
  assumes "d < lst"
  shows "emit_float fp dst d lst f zero width frac_width =
    store_cut dst d lst (render fp (I_float f zero width frac_width))"
proof -
  have "(do { (b, e) \<leftarrow> ngx_sprintf_num dst1 d1 lst ui64 zero 0 width;
        if frac_width \<noteq> 0 then do {
          (b', e') \<leftarrow> (if e < lst then do { b' \<leftarrow> put b e 0x2e; Some (b', Suc e) } else Some (b, e));
          ngx_sprintf_num b' e' lst frac 0x30 0 frac_width }
        else Some (b, e) }) =
      store_cut dst1 d1 lst (render_num ui64 zero 0 width @
        (if frac_width \<noteq> 0 then [0x2e] @ render_num frac 0x30 0 frac_width else []))"
    if "d1 \<le> lst" for dst1 d1 ui64 frac
    using that store_cut_le [OF _ that]
    by (auto simp: ngx_sprintf_num_cut store_cut_append store_cut_Cons store_cut_full
        Option.bind_assoc split: bind_splits intro!: Option.bind_cong)
  then show ?thesis using assms
    by (auto simp: emit_float_def render_float_def Let_def store_cut_Cons
        split: prod.split bind_splits intro!: Option.bind_cong)
qed

lemma emit_item_cut:
  assumes "d < lst" "readable it"
  shows "emit_item fp dst d lst it = store_cut dst d lst (render fp it)"
proof (cases it)
  case (I_text p n)
  then show ?thesis using assms by (auto simp: emit_item_def store_cut_def Let_def min_def)
next
  case (I_cstr p)
  then show ?thesis using assms by (simp add: emit_item_def cstr_loop_cut)
next
  case (I_number sign i64 ui64 zero hex width)
  then show ?thesis using assms by (simp add: emit_item_def emit_number_cut [where fp = fp] del: render.simps)
next
  case (I_float f zero width frac_width)
  then show ?thesis using assms by (simp add: emit_item_def emit_float_cut del: render.simps)
next
  case (I_byte c)
  then show ?thesis using assms by (simp add: emit_item_def store_cut_Cons)
qed

lemma ngx_vslprintf_cut:
  assumes "fmt_items fmt args = Some its" "list_all readable its" "d \<le> lst"
  shows "ngx_vslprintf fp dst d lst fmt args = store_cut dst d lst (concat (map (render fp) its))"
  using assms
proof (induction fp dst d lst fmt args arbitrary: its rule: ngx_vslprintf.induct)
  case (1 fp dst d lst fmt args)
  note step = fmt_items.simps [of fmt args] and vsl = ngx_vslprintf.simps [of fp dst d lst fmt args]
  consider (stop) c fmt' where "fmt = c # fmt'" "c = 0 \<or> \<not> d < lst"
    | (conv) fmt' where "fmt = 0x25 # fmt'" "d < lst"
    | (plain) c fmt' where "fmt = c # fmt'" "c \<noteq> 0" "c \<noteq> 0x25" "d < lst"
  proof (cases fmt)
    case Nil
    then show thesis using "1.prems" step by simp
  next
    case (Cons c fmt')
    then show thesis using that by (cases "c = 0 \<or> \<not> d < lst"; cases "c = 0x25") auto
  qed
  then show ?case
  proof cases
    case stop
    then show ?thesis using "1.prems" step unfolding vsl by (auto simp: store_cut_full)
  next
    case conv
    then obtain it fmt2 args2 its' where it: "fmt_item fmt' args = Some (it, fmt2, args2)"
      and its': "fmt_items fmt2 args2 = Some its'" "its = it # its'"
      using "1.prems" step by (auto split: option.splits simp: Some_eq_map_option)
    then have "emit_item fp dst d lst it = store_cut dst d lst (render fp it)"
      using conv "1.prems" by (simp add: emit_item_cut)
    then show ?thesis
      using conv it its' "1.IH"(1) [OF conv(1) _ _ it refl refl] "1.prems" store_cut_le
      unfolding vsl by (auto simp: store_cut_append split: option.split bind_split)
  next
    case plain
    then obtain its' where its': "fmt_items fmt' args = Some its'" "its = I_byte c # its'"
      using "1.prems" step by (auto simp: Some_eq_map_option)
    then show ?thesis
      using plain "1.IH"(2) [OF plain(1)] "1.prems"
      unfolding vsl by (auto simp: store_cut_Cons split: option.split bind_split)
  qed
qed


subsection \<open>Typing\<close>

text \<open>The class of an argument, and the classes a format asks for, by its text alone.\<close>

datatype varg_class = C_int | C_long | C_ptr | C_str | C_ngx_str | C_var | C_double

fun class_of :: "'d varg \<Rightarrow> varg_class" where
  "class_of (A_int _) = C_int"
| "class_of (A_long _) = C_long"
| "class_of (A_ptr _) = C_ptr"
| "class_of (A_str _) = C_str"
| "class_of (A_ngx_str _) = C_ngx_str"
| "class_of (A_var _) = C_var"
| "class_of (A_double _) = C_double"

lemma class_of_iff:
  "class_of a = C_int \<longleftrightarrow> (\<exists>v. a = A_int v)" "class_of a = C_long \<longleftrightarrow> (\<exists>v. a = A_long v)"
  "class_of a = C_ptr \<longleftrightarrow> (\<exists>v. a = A_ptr v)" "class_of a = C_str \<longleftrightarrow> (\<exists>p. a = A_str p)"
  "class_of a = C_ngx_str \<longleftrightarrow> (\<exists>s. a = A_ngx_str s)" "class_of a = C_var \<longleftrightarrow> (\<exists>v. a = A_var v)"
  "class_of a = C_double \<longleftrightarrow> (\<exists>f. a = A_double f)"
  by (cases a; simp)+

fun skip_digits :: "cptr \<Rightarrow> cptr" where
  "skip_digits [] = []"
| "skip_digits (c # fmt) = (if 0x30 \<le> c \<and> c \<le> 0x39 then skip_digits fmt else c # fmt)"

fun flag_classes :: "cptr \<Rightarrow> varg_class list \<times> cptr" where
  "flag_classes [] = ([], [])"
| "flag_classes (c # fmt) =
     (if c \<in> {0x75, 0x6d, 0x58, 0x78} then flag_classes fmt
      else if c = 0x2e then ([], skip_digits fmt)
      else if c = 0x2a then (case flag_classes fmt of (cs, fmt') \<Rightarrow> (C_long # cs, fmt'))
      else ([], c # fmt))"

definition conv_classes :: "u8 \<Rightarrow> varg_class list" where
  "conv_classes c =
     (if c = 0x56 then [C_ngx_str] else if c = 0x76 then [C_var] else if c = 0x73 then [C_str]
      else if c \<in> {0x4f, 0x54, 0x4d, 0x7a, 0x69, 0x6c, 0x4c} then [C_long]
      else if c \<in> {0x50, 0x64, 0x44, 0x41, 0x63} then [C_int]
      else if c = 0x66 then [C_double] else if c = 0x70 then [C_ptr] else [])"

lemma skip_digits_length: "length (skip_digits fmt) \<le> length fmt"
  by (induction fmt rule: skip_digits.induct) (auto intro: le_SucI)

lemma flag_classes_length: "length (snd (flag_classes fmt)) \<le> length fmt"
  by (induction fmt rule: flag_classes.induct)
    (auto intro: le_SucI skip_digits_length [THEN le_SucI] split: prod.split)

lemma flag_classes_shorter:
  assumes "(cs, d # fmt2) = flag_classes (skip_digits fmt)"
  shows "length fmt2 < length fmt"
  using flag_classes_length [of "skip_digits fmt"] skip_digits_length [of fmt]
  by (simp flip: assms)

function fmt_classes :: "cptr \<Rightarrow> varg_class list option" where
  "fmt_classes fmt =
     (case fmt of
        [] \<Rightarrow> None
      | c # fmt' \<Rightarrow>
          if c = 0 then Some []
          else if c = 0x25 then
            (case flag_classes (skip_digits fmt') of
               (cs, []) \<Rightarrow> None
             | (cs, d # fmt2) \<Rightarrow>
                 map_option (\<lambda>ts. cs @ conv_classes d @ ts) (fmt_classes fmt2))
          else fmt_classes fmt')"
  by pat_completeness auto
termination
  by (relation "measure length") (auto dest: flag_classes_shorter intro: less_SucI)

declare fmt_classes.simps [simp del]

lemma fmt_number_skip: "skip_digits fmt \<noteq> [] \<Longrightarrow> \<exists>w'. fmt_number w fmt = Some (w', skip_digits fmt)"
  by (induction w fmt rule: fmt_number.induct) auto

lemma fmt_flags_typed:
  assumes "flag_classes fmt = (cs, fmt')" "fmt' \<noteq> []" "map class_of args = cs @ ts"
  shows "\<exists>sp' args'. fmt_flags sp fmt args = Some (sp', fmt', args') \<and> map class_of args' = ts"
  using assms
proof (induction sp fmt args arbitrary: cs rule: fmt_flags.induct)
  case (2 sp c fmt args)
  consider (plain) "c \<in> {0x75, 0x6d, 0x58, 0x78}" | (dot) "c = 0x2e" | (star) "c = 0x2a"
    | (other) "c \<notin> {0x75, 0x6d, 0x58, 0x78, 0x2e, 0x2a}" by blast
  then show ?case
  proof cases
    case plain
    then show ?thesis using 2 by (elim insertE) auto
  next
    case dot
    then show ?thesis using "2.prems" fmt_number_skip [of fmt 0] by auto
  next
    case star
    then obtain cs' where "flag_classes fmt = (cs', fmt')" "cs = C_long # cs'"
      using "2.prems" by (auto split: prod.splits)
    moreover from this obtain v args' where "args = A_long v # args'"
      using "2.prems" by (auto simp: Cons_eq_append_conv class_of_iff)
    ultimately show ?thesis using star "2.IH"(5) [of "(v, args')"] "2.prems" by auto
  next
    case other
    then show ?thesis using "2.prems" by auto
  qed
qed simp

lemma fmt_conv_typed:
  assumes "map class_of args = conv_classes c @ ts"
  shows "\<exists>it args'. fmt_conv sp c args = Some (it, args') \<and> map class_of args' = ts"
  using assms
  by (auto simp: conv_classes_def fmt_conv_def long_item_def word_item_def Let_def class_of_iff
      map_eq_Cons_conv split: if_splits)


lemma fmt_item_typed:
  assumes "flag_classes (skip_digits fmt) = (cs, d # fmt2)"
    and "map class_of args = cs @ conv_classes d @ ts"
  shows "\<exists>it args'. fmt_item fmt args = Some (it, fmt2, args') \<and> map class_of args' = ts"
proof -
  have "skip_digits fmt \<noteq> []" using assms(1) by auto
  then obtain w where w: "fmt_number 0 fmt = Some (w, skip_digits fmt)"
    using fmt_number_skip by blast
  then obtain z fmt0 where z: "fmt = z # fmt0" by (cases fmt) auto
  obtain sp args2 where sp: "fmt_flags
      \<lparr>sp_zero = (if z = 0x30 then 0x30 else 0x20), sp_width = w, sp_sign = True, sp_hex = 0,
       sp_max_width = False, sp_frac_width = 0, sp_slen = - 1\<rparr> (skip_digits fmt) args =
      Some (sp, d # fmt2, args2)" and "map class_of args2 = conv_classes d @ ts"
    using fmt_flags_typed [OF assms(1) _ assms(2)] by blast
  then obtain it args' where "fmt_conv sp d args2 = Some (it, args')" "map class_of args' = ts"
    using fmt_conv_typed by blast
  then show ?thesis using w sp z by (auto simp: fmt_item_def get_def)
qed

lemma fmt_items_typed:
  "fmt_classes fmt = Some (map class_of args) \<Longrightarrow> \<exists>its. fmt_items fmt args = Some its"
proof (induction fmt args rule: fmt_items.induct)
  case (1 fmt args)
  note classes = fmt_classes.simps [of fmt] and items = fmt_items.simps [of fmt args]
  show ?case
  proof (cases fmt)
    case Nil
    then show ?thesis using "1.prems" classes by simp
  next
    case (Cons c fmt')
    consider (stop) "c = 0" | (conv) "c = 0x25" | (plain) "c \<noteq> 0" "c \<noteq> 0x25" by blast
    then show ?thesis
    proof cases
      case stop
      then show ?thesis using Cons unfolding items by simp
    next
      case plain
      then show ?thesis using Cons "1.IH"(2) [OF Cons] "1.prems" classes unfolding items by auto
    next
      case conv
      then obtain cs d fmt2 ts where "flag_classes (skip_digits fmt') = (cs, d # fmt2)"
        and "fmt_classes fmt2 = Some ts" "map class_of args = cs @ conv_classes d @ ts"
        using Cons "1.prems" classes by (auto simp: Some_eq_map_option split: prod.splits list.splits)
      then show ?thesis
        using Cons conv fmt_item_typed [of fmt' cs d fmt2 args ts] "1.IH"(1) [OF Cons]
        unfolding items by fastforce
    qed
  qed
qed

text \<open>A processor whose doubles are multiples of a quarter, for the examples.\<close>

definition quarters :: "int fpu" where
  "quarters = \<lparr>fp_negative = (\<lambda>f. f < 0), fp_negate = uminus, fp_int = (\<lambda>f. of_int (f div 4)),
     fp_frac = (\<lambda>f i scale. of_int (((f - 4 * uint i) * uint scale + 2) div 4))\<rparr>"

subsection \<open>Properties\<close>

text \<open>
  C35: A number printed by \<open>ngx_sprintf_num\<close> with leading zeros up to \<open>width\<close> is read back by the
  parsers of the library, a decimal one by \<open>ngx_atosz\<close> and a hexadecimal one of either case by
  \<open>ngx_hextoi\<close>, as long as it does not exceed their maximum; nothing is stored past its last digit.
\<close>

theorem ngx_sprintf_num_reads_back:
  assumes "unat width \<le> length buf" and "20 \<le> length buf"
  shows "\<exists>b e. ngx_sprintf_num buf 0 (length buf) v 0x30 hex width = Some (b, e) \<and>
    unat width \<le> e \<and> e \<le> length buf \<and> drop e b = drop e buf \<and>
    (if hex = 0 then ngx_atosz b e else ngx_hextoi b e) =
      Some (if uint v \<le> (if hex = 0 then NGX_MAX_SIZE_T_VALUE else NGX_MAX_INT_T_VALUE)
            then uint v else NGX_ERROR)"
proof -
  define k where "k = unat width - length (num_digits v hex)"
  define r where "r = replicate k 0x30 @ num_digits v hex"
  have len: "length r \<le> length buf" "unat width \<le> length r" "0 < length r"
    using assms num_digits_length [of v hex] radix_not_Nil by (auto simp: r_def k_def num_digits_radix)
  have "ngx_sprintf_num buf 0 (length buf) v 0x30 hex width = Some (r @ drop (length r) buf, length r)"
    using len by (simp add: ngx_sprintf_num_cut store_cut_def render_num_def Let_def puts_eq
        flip: k_def r_def)
  moreover have "(if hex = 0 then ngx_atosz (r @ drop (length r) buf) (length r)
      else ngx_hextoi (r @ drop (length r) buf) (length r)) =
      Some (if uint v \<le> (if hex = 0 then NGX_MAX_SIZE_T_VALUE else NGX_MAX_INT_T_VALUE)
            then uint v else NGX_ERROR)"
  proof (cases "hex = 0")
    case True
    have "list_all isdig r" "dec_num r = uint v"
      using dec_digits_num [of v k] True by (auto simp: r_def list_all_iff isdig_def)
    then show ?thesis using True len atosz.parse_eq [of "length r" "r @ drop (length r) buf"] by simp
  next
    case False
    have "None \<notin> hexval ` set r" "num 16 (\<lambda>c. the (hexval c)) 0 r = uint v"
      using hex_digits_num [OF False, of v k] by (auto simp: r_def hexval_def)
    then show ?thesis
      using False len hextoi_loop_spec [of "length r" "r @ drop (length r) buf" 0]
      by (simp add: ngx_hextoi_def max_int_nonneg)
  qed
  ultimately show ?thesis using len by (intro exI conjI) auto
qed

lemma ngx_sprintf_num_reads_back_witness:
  "\<exists>b e. ngx_sprintf_num (replicate 24 0) 0 24 255 0x30 0 5 = Some (b, e) \<and> 5 \<le> e \<and>
    ngx_atosz b e = Some 255"
proof -
  have "unat (5 :: u64) \<le> length (replicate 24 (0 :: u8))" "20 \<le> length (replicate 24 (0 :: u8))"
    by simp_all
  from ngx_sprintf_num_reads_back [OF this, of 255 0] show ?thesis
    by (auto simp: NGX_MAX_SIZE_T_VALUE_def)
qed

text \<open>
  C16: \<open>ngx_vslprintf\<close> refines the unbounded text of its format: it stores exactly the longest prefix
  of the rendered items that fits below \<open>last\<close> and leaves every other byte of the buffer alone; the
  behaviour is undefined exactly when that prefix does not fit into the buffer object.
\<close>

theorem ngx_vslprintf_renders:
  assumes "fmt_items fmt args = Some its" "list_all readable its" and "d \<le> lst" "d \<le> length dst"
  shows "ngx_vslprintf fp dst d lst fmt args =
    (let out = take (lst - d) (concat (map (render fp) its)) in
     if d + length out \<le> length dst
     then Some (take d dst @ out @ drop (d + length out) dst, d + length out) else None)"
  using ngx_vslprintf_cut [OF assms(1,2,3), of fp dst] assms(4)
  by (simp add: store_cut_def Let_def puts_eq)

lemma ngx_vslprintf_renders_witness:
  "ngx_vslprintf quarters (replicate 8 0) 1 5 (ascii ''%.2f;'' @ [0]) [A_double (- 5)] =
    Some (0 # ascii ''-1.2'' @ [0, 0, 0], 5)"
proof -
  have items: "fmt_items (ascii ''%.2f;'' @ [0]) [A_double (- 5 :: int)] =
      Some [I_float (- 5) 0x20 0 2, I_byte 0x3b]"
    and rend: "concat (map (render quarters) [I_float (- 5) 0x20 0 2, I_byte 0x3b]) = ascii ''-1.25;''"
    and cut: "take (5 - 1) (ascii ''-1.25;'') = ascii ''-1.2''" "length (ascii ''-1.2'') = 4"
    by code_simp+
  have "list_all readable [I_float (- 5 :: int) 0x20 0 2, I_byte 0x3b]" by simp
  from ngx_vslprintf_renders [OF items this, of 1 5 "replicate 8 0" quarters, unfolded rend Let_def cut]
  show ?thesis by (simp add: eval_nat_numeral)
qed

text \<open>
  C17: A format applied to arguments of the classes it names is safe with \<open>ngx_snprintf\<close>: with
  readable strings and a limit within the buffer, the call stores at most \<open>n\<close> bytes, a prefix of
  the text of the items, and returns the end of that prefix.
\<close>

theorem ngx_snprintf_typed:
  assumes "fmt_classes fmt = Some (map class_of args)"
    and "\<And>its. fmt_items fmt args = Some its \<Longrightarrow> list_all readable its"
    and "n \<le> length buf"
  shows "\<exists>its out. fmt_items fmt args = Some its \<and> out = take n (concat (map (render fp) its)) \<and>
    ngx_snprintf fp buf n fmt args = Some (out @ drop (length out) buf, length out) \<and>
    length out \<le> n"
proof -
  obtain its where "fmt_items fmt args = Some its" using fmt_items_typed [OF assms(1)] by blast
  then show ?thesis using ngx_vslprintf_cut [of fmt args its 0 n fp buf] assms(2,3)
    by (simp add: ngx_snprintf_def store_cut_def puts_eq)
qed

lemma ngx_snprintf_typed_witness:
  "\<exists>its out. fmt_items (ascii ''%s:%ud'' @ [0]) [A_str (ascii ''ip'' @ [0]), A_int 80] = Some its \<and>
    out = take 4 (concat (map (render quarters) its)) \<and>
    ngx_snprintf quarters [1, 1, 1, 1, 1] 4 (ascii ''%s:%ud'' @ [0])
        [A_str (ascii ''ip'' @ [0]), A_int 80] = Some (out @ drop (length out) [1, 1, 1, 1, 1], length out) \<and>
    length out \<le> 4"
proof (rule ngx_snprintf_typed)
  show "fmt_classes (ascii ''%s:%ud'' @ [0]) =
      Some (map class_of [A_str (ascii ''ip'' @ [0]), A_int 80 :: int varg])"
    by code_simp
  have "fmt_items (ascii ''%s:%ud'' @ [0]) [A_str (ascii ''ip'' @ [0]), A_int 80 :: int varg] =
      Some [I_cstr (ascii ''ip'' @ [0]), I_byte 0x3a, I_number False 0 80 0x20 0 0]"
    by code_simp
  then show "\<And>its. fmt_items (ascii ''%s:%ud'' @ [0]) [A_str (ascii ''ip'' @ [0]), A_int 80 :: int varg] =
      Some its \<Longrightarrow> list_all readable its"
    by auto
qed simp

text \<open>A \<open>%\<close> at the end of a format takes the NUL for a conversion and reads on behind it.\<close>

lemma trailing_percent: "d < lst \<Longrightarrow> d < length dst \<Longrightarrow>
    ngx_vslprintf fp dst d lst [0x25, 0] args = None"
  by (simp add: ngx_vslprintf.simps fmt_item_def get_def fmt_conv_def emit_item_def put_def)

end
