(* ===== verification/Insertion.thy ===== *)
theory Insertion imports Prelude "HOL-Library.Multiset" begin

text \<open>
  Insertion sort with insertion from the right, the algorithm of \<open>ngx_sort\<close> (theory \<open>Sort\<close>) and
  of \<open>ngx_queue_sort\<close> (theory \<open>Queue\<close>): the reference both are compared with, and the proof that it
  is the stable \<open>sort_key\<close> of the library.
\<close>

subsection \<open>Insertion from the right\<close>

fun insert_rev :: "('a \<Rightarrow> 'a \<Rightarrow> int) \<Rightarrow> 'a \<Rightarrow> 'a list \<Rightarrow> 'a list" where
  "insert_rev cmp p [] = [p]"
| "insert_rev cmp p (z # zs) = (if 0 < cmp z p then z # insert_rev cmp p zs else p # z # zs)"

definition insert_last :: "('a \<Rightarrow> 'a \<Rightarrow> int) \<Rightarrow> 'a \<Rightarrow> 'a list \<Rightarrow> 'a list" where
  "insert_last cmp p zs = rev (insert_rev cmp p (rev zs))"

lemma insert_last_Nil [simp]: "insert_last cmp p [] = [p]"
  and insert_last_snoc [simp]: "insert_last cmp p (zs @ [z]) =
    (if 0 < cmp z p then insert_last cmp p zs @ [z] else zs @ [z, p])"
  and insert_last_single [simp]: "insert_last cmp p [z] = (if 0 < cmp z p then [p, z] else [z, p])"
  by (simp_all add: insert_last_def)

lemma mset_insert_last [simp]: "mset (insert_last cmp p zs) = add_mset p (mset zs)"
  by (induction zs rule: rev_induct) auto

lemma set_insert_last [simp]: "set (insert_last cmp p zs) = insert p (set zs)"
  by (metis mset_insert_last set_mset_add_mset_insert set_mset_mset)

lemma length_insert_last [simp]: "length (insert_last cmp p zs) = Suc (length zs)"
  by (metis mset_insert_last size_add_mset size_mset)

text \<open>The sorting of a list, element by element.\<close>

definition insertion_sort :: "('a \<Rightarrow> 'a \<Rightarrow> int) \<Rightarrow> 'a list \<Rightarrow> 'a list" where
  "insertion_sort cmp zs = foldl (\<lambda>acc p. insert_last cmp p acc) [] zs"

lemma insertion_sort_snoc [simp]:
  "insertion_sort cmp [] = []"
  "insertion_sort cmp (zs @ [p]) = insert_last cmp p (insertion_sort cmp zs)"
  by (simp_all add: insertion_sort_def)

lemma mset_insertion_sort [simp]: "mset (insertion_sort cmp zs) = mset zs"
  by (induction zs rule: rev_induct) auto

text \<open>A comparison function that orders by a key; of its result only the sign of \<open>> 0\<close> is used.\<close>

definition compares_by :: "('a \<Rightarrow> 'a \<Rightarrow> int) \<Rightarrow> ('a \<Rightarrow> 'k :: linorder) \<Rightarrow> 'a set \<Rightarrow> bool" where
  "compares_by cmp key A \<longleftrightarrow> (\<forall>a\<in>A. \<forall>b\<in>A. 0 < cmp a b \<longleftrightarrow> key b < key a)"

lemma compares_byD: "compares_by cmp key A \<Longrightarrow> a \<in> A \<Longrightarrow> b \<in> A \<Longrightarrow> 0 < cmp a b \<longleftrightarrow> key b < key a"
  by (simp add: compares_by_def)

lemma insert_last_stable:
  assumes "compares_by cmp key (insert p (set zs))" and "sorted (map key zs)"
  shows "sorted (map key (insert_last cmp p zs)) \<and>
    filter (\<lambda>x. key x = k) (insert_last cmp p zs) =
      filter (\<lambda>x. key x = k) zs @ (if key p = k then [p] else [])"
  using assms
proof (induction zs rule: rev_induct)
  case (snoc z zs)
  then have sorted: "sorted (map key zs)" "\<forall>x\<in>set zs. key x \<le> key z"
    by (auto simp: sorted_append)
  have "compares_by cmp key (insert p (set zs))"
    using snoc.prems(1) by (auto simp: compares_by_def)
  moreover have "0 < cmp z p \<longleftrightarrow> key p < key z"
    using snoc.prems(1) by (auto dest: compares_byD)
  ultimately show ?case using snoc.IH sorted
    by (auto simp: sorted_append)
qed simp

lemma insertion_sort_eq:
  assumes "compares_by cmp key (set zs)"
  shows "insertion_sort cmp zs = sort_key key zs"
proof -
  have "sorted (map key (insertion_sort cmp ys)) \<and>
      filter (\<lambda>x. key x = k) (insertion_sort cmp ys) = filter (\<lambda>x. key x = k) ys"
    if "compares_by cmp key (set ys)" for ys k
    using that
  proof (induction ys rule: rev_induct)
    case (snoc p ys)
    have "set (insertion_sort cmp ys) = set ys" by (metis mset_insertion_sort set_mset_mset)
    then have "compares_by cmp key (insert p (set (insertion_sort cmp ys)))"
      using snoc.prems by simp
    moreover have "compares_by cmp key (set ys)"
      using snoc.prems by (auto simp: compares_by_def)
    ultimately show ?case using snoc.IH insert_last_stable [of cmp key p "insertion_sort cmp ys" k]
      by simp
  qed simp
  then show ?thesis using assms
    by (intro properties_for_sort_key [symmetric]) (auto simp: eq_commute)
qed


text \<open>
  The contract of a sorting function: \<open>sorts cmp xs ys\<close> says that it may turn a collection of \<open>xs\<close> into
  one of \<open>ys\<close>.
\<close>

locale insertion_sorter =
  fixes sorts :: "('a \<Rightarrow> 'a \<Rightarrow> int) \<Rightarrow> 'a list \<Rightarrow> 'a list \<Rightarrow> bool"
  assumes inserts: "sorts cmp xs ys \<Longrightarrow> ys = insertion_sort cmp xs"
begin

lemma permutation: "sorts cmp xs ys \<Longrightarrow> mset ys = mset xs"
  by (auto dest: inserts)

lemma stable: "sorts cmp xs ys \<Longrightarrow> compares_by cmp key (set xs) \<Longrightarrow> ys = sort_key key xs"
  by (auto dest: inserts simp: insertion_sort_eq)

lemma sorted: "sorts cmp xs ys \<Longrightarrow> compares_by cmp key (set xs) \<Longrightarrow> sorted (map key ys)"
  by (auto dest: stable)

lemma deterministic: "sorts cmp xs ys \<Longrightarrow> sorts cmp xs zs \<Longrightarrow> ys = zs"
  by (auto dest!: inserts)

end

end
