(* ===== verification/Sort.thy ===== *)
theory Sort imports Insertion begin

text \<open>
  \<open>ngx_sort\<close> of \<open>src/ngx/ngx_string.c\<close>, an insertion sort over an array of \<open>n\<close> elements of \<open>size\<close>
  bytes each, moved with \<open>memcpy\<close> through one spare element from \<open>calloc\<close>.  The array is the bytes
  of its object, and a pointer into it the number of elements before it.  The reference is the stable
  \<open>sort_key\<close> of the library on the list of the elements.
\<close>

subsection \<open>Elements of an array\<close>

definition elem :: "nat \<Rightarrow> bytes \<Rightarrow> nat \<Rightarrow> bytes" where
  "elem sz base i = take sz (drop (i * sz) base)"

definition elems :: "nat \<Rightarrow> bytes \<Rightarrow> nat \<Rightarrow> bytes list" where
  "elems sz base n = map (elem sz base) [0..<n]"

text \<open>\<open>ngx_memcpy\<close> of one element to the place \<open>i\<close>\<close>

definition set_elem :: "nat \<Rightarrow> bytes \<Rightarrow> nat \<Rightarrow> bytes \<Rightarrow> bytes" where
  "set_elem sz base i e = take (i * sz) base @ e @ drop (i * sz + sz) base"

subsection \<open>The loops\<close>

text \<open>
  \<open>for (p2 = p1; p2 > base && cmp(p2 - size, p) > 0; p2 -= size) memcpy(p2, p2 - size, size)\<close>, the
  array and \<open>p2\<close> afterwards
\<close>

fun shift_loop :: "(bytes \<Rightarrow> bytes \<Rightarrow> int) \<Rightarrow> nat \<Rightarrow> bytes \<Rightarrow> bytes \<Rightarrow> nat \<Rightarrow> bytes \<times> nat" where
  "shift_loop cmp sz p base 0 = (base, 0)"
| "shift_loop cmp sz p base (Suc k) =
     (if 0 < cmp (elem sz base k) p
      then shift_loop cmp sz p (set_elem sz base (Suc k) (elem sz base k)) k
      else (base, Suc k))"

text \<open>The loop over \<open>p1\<close>; \<open>m\<close> elements are left.  \<open>None\<close>: an element past the object.\<close>

fun sort_loop :: "(bytes \<Rightarrow> bytes \<Rightarrow> int) \<Rightarrow> nat \<Rightarrow> bytes \<Rightarrow> nat \<Rightarrow> nat \<Rightarrow> bytes option" where
  "sort_loop cmp sz base p1 0 = Some base"
| "sort_loop cmp sz base p1 (Suc m) =
     (if p1 * sz + sz \<le> length base then
        (let p = elem sz base p1; (base', p2) = shift_loop cmp sz p base p1 in
         sort_loop cmp sz (set_elem sz base' p2 p) (Suc p1) m)
      else None)"

text \<open>
  With \<open>size = 0\<close> the loop condition is false at once, as all the pointers are equal; \<open>mem\<close> tells
  whether \<open>calloc\<close> gives the spare element.
\<close>

definition ngx_sort ::
  "bool \<Rightarrow> bytes \<Rightarrow> nat \<Rightarrow> nat \<Rightarrow> (bytes \<Rightarrow> bytes \<Rightarrow> int) \<Rightarrow> bytes option" where
  "ngx_sort mem base n sz cmp =
     (if \<not> mem then Some base
      else if sz = 0 then Some base
      else sort_loop cmp sz base 1 (n - 1))"

subsection \<open>The loops on the list of the elements\<close>

lemma index_bound: "i < n \<Longrightarrow> n * sz \<le> len \<Longrightarrow> i * sz + sz \<le> (len :: nat)"
proof -
  assume "i < n" "n * sz \<le> len"
  moreover from this have "Suc i * sz \<le> n * sz" by (intro mult_le_mono1) simp
  ultimately show ?thesis by simp
qed

lemma length_elem: "i < n \<Longrightarrow> n * sz \<le> length base \<Longrightarrow> length (elem sz base i) = sz"
  using index_bound [of i n sz "length base"] by (simp add: elem_def)

lemma length_elems [simp]: "length (elems sz base n) = n"
  and elems_nth [simp]: "i < n \<Longrightarrow> elems sz base n ! i = elem sz base i"
  by (simp_all add: elems_def)

lemma set_elem_frame:
  assumes "length e = sz" "i < n" "n * sz \<le> length base"
  shows "length (set_elem sz base i e) = length base"
    and "drop (n * sz) (set_elem sz base i e) = drop (n * sz) base"
proof -
  define a b where "a = i * sz" and "b = n * sz"
  have "a + sz \<le> length base" "a + sz \<le> b" "a = length base \<or> a < length base"
    using index_bound [OF assms(2,3)] index_bound [OF assms(2) order_refl] by (auto simp: a_def b_def)
  then show "length (set_elem sz base i e) = length base"
    "drop (n * sz) (set_elem sz base i e) = drop (n * sz) base"
    unfolding set_elem_def a_def [symmetric] b_def [symmetric] using assms(1) by (auto simp: min_def)
qed

lemma elem_set_elem:
  assumes "length e = sz" "i < n" "n * sz \<le> length base" "j < n"
  shows "elem sz (set_elem sz base i e) j = (if j = i then e else elem sz base j)"
proof -
  define a b where "a = i * sz" and "b = j * sz"
  have "a + sz \<le> length base" "b + sz \<le> length base"
    using index_bound [OF assms(2,3)] index_bound [OF assms(4,3)] by (simp_all add: a_def b_def)
  moreover from this have "e = [] \<or> a < length base" using assms(1) by (cases e) auto
  ultimately have bounds: "a + sz \<le> length base" "b + sz \<le> length base" "e = [] \<or> a < length base"
    by simp_all
  consider "j < i" "b + sz \<le> a" | "j = i" "b = a" | "i < j" "a + sz \<le> b"
    using index_bound [of j i sz] index_bound [of i j sz] by (fastforce simp: a_def b_def)
  then show ?thesis
    unfolding elem_def set_elem_def a_def [symmetric] b_def [symmetric]
    using bounds assms(1) by cases (auto simp: drop_take min_def)
qed

lemma elems_set_elem:
  assumes "length e = sz" "i < n" "n * sz \<le> length base"
  shows "elems sz (set_elem sz base i e) n = (elems sz base n)[i := e]"
  using assms by (intro nth_equalityI) (auto simp: elem_set_elem nth_list_update)

lemma shift_loop_inserts:
  assumes "length p = sz" "k < n" "n * sz \<le> length base" "shift_loop cmp sz p base k = (base', j)"
  shows "j \<le> k \<and> length base' = length base \<and> drop (n * sz) base' = drop (n * sz) base \<and>
    elems sz (set_elem sz base' j p) n =
      insert_last cmp p (take k (elems sz base n)) @ drop (Suc k) (elems sz base n)"
  using assms
proof (induction k arbitrary: base)
  case 0
  then show ?case by (auto simp: elems_set_elem upd_conv_take_nth_drop)
next
  case (Suc k)
  define xs where "xs = elems sz base n"
  have take: "take (Suc k) xs = take k xs @ [elem sz base k]"
    using Suc.prems by (simp add: xs_def take_Suc_conv_app_nth)
  show ?case
  proof (cases "0 < cmp (elem sz base k) p")
    case False
    then show ?thesis using Suc.prems take unfolding xs_def
      by (auto simp: elems_set_elem upd_conv_take_nth_drop simp del: take_Suc)
  next
    case True
    define base1 where "base1 = set_elem sz base (Suc k) (elem sz base k)"
    have len: "length (elem sz base k) = sz" using Suc.prems length_elem [of k n sz base] by simp
    then have "elems sz base1 n = xs[Suc k := elem sz base k]" and "length base1 = length base"
      "drop (n * sz) base1 = drop (n * sz) base"
      using Suc.prems by (simp_all add: base1_def elems_set_elem set_elem_frame xs_def)
    moreover have "drop (Suc k) xs = xs ! Suc k # drop (Suc (Suc k)) xs"
      using Cons_nth_drop_Suc [of "Suc k" xs] Suc.prems by (simp add: xs_def)
    ultimately show ?thesis
      using True Suc.prems take Suc.IH [of base1]
      by (auto simp: xs_def [symmetric] base1_def [symmetric] drop_update_swap upd_conv_take_nth_drop)
  qed
qed

lemma sort_loop_sorts:
  assumes "p1 + m = n" "0 < p1" "n * sz \<le> length base" "elems sz base n = zs"
    and "take p1 zs = insertion_sort cmp (take p1 xs)" "drop p1 zs = drop p1 xs" "length xs = n"
  shows "\<exists>base'. sort_loop cmp sz base p1 m = Some base' \<and> length base' = length base \<and>
    drop (n * sz) base' = drop (n * sz) base \<and> elems sz base' n = insertion_sort cmp xs"
  using assms
proof (induction m arbitrary: p1 base zs)
  case 0
  then show ?case by auto
next
  case (Suc m)
  define p where "p = elem sz base p1"
  obtain base1 p2 where shift: "shift_loop cmp sz p base p1 = (base1, p2)" by fastforce
  have p1: "p1 < n" "p1 < length xs" using Suc.prems by auto
  have p: "length p = sz" using length_elem [of p1 n sz base] p1 Suc.prems by (simp add: p_def)
  define base2 where "base2 = set_elem sz base1 p2 p"
  note ins = shift_loop_inserts [OF p p1(1) Suc.prems(3) shift]
  have "zs ! p1 = xs ! p1" using Suc.prems(5-) p1
    by (metis Suc.prems(4) hd_drop_conv_nth length_elems)
  then have "take (Suc p1) xs = take p1 xs @ [p]"
    using Suc.prems p1 by (auto simp: take_Suc_conv_app_nth p_def)
  then have "elems sz base2 n = insertion_sort cmp (take (Suc p1) xs) @ drop (Suc p1) xs"
    using ins Suc.prems by (simp add: base2_def) (metis drop_Suc tl_drop)
  moreover have "length (insertion_sort cmp (take (Suc p1) xs)) = Suc p1"
    using p1 by (metis length_take min.absorb2 mset_insertion_sort size_mset Suc_leI)
  moreover have "length base2 = length base" "drop (n * sz) base2 = drop (n * sz) base"
    using ins p p1 Suc.prems set_elem_frame [of p sz p2 n base1] by (simp_all add: base2_def)
  ultimately have "\<exists>base'. sort_loop cmp sz base2 (Suc p1) m = Some base' \<and>
      length base' = length base2 \<and> drop (n * sz) base' = drop (n * sz) base2 \<and>
      elems sz base' n = insertion_sort cmp xs"
    using Suc.prems
    by (intro Suc.IH [of _ _ "insertion_sort cmp (take (Suc p1) xs) @ drop (Suc p1) xs"]) auto
  then show ?case
    using shift index_bound [OF p1(1) Suc.prems(3)] \<open>length base2 = length base\<close>
      \<open>drop (n * sz) base2 = _\<close>
    by (simp add: p_def base2_def)
qed


lemma ngx_sort_inserts:
  assumes "n * sz \<le> length base" "0 < sz"
  shows "\<exists>base'. ngx_sort True base n sz cmp = Some base' \<and> length base' = length base \<and>
    drop (n * sz) base' = drop (n * sz) base \<and>
    elems sz base' n = insertion_sort cmp (elems sz base n)"
proof (cases n)
  case 0
  then show ?thesis using assms by (auto simp: ngx_sort_def elems_def)
next
  case (Suc m)
  define xs where "xs = elems sz base n"
  then have "length xs = Suc m" using Suc by simp
  then obtain x ys where "xs = x # ys" by (cases xs) auto
  then have "take 1 xs = insertion_sort cmp (take 1 xs)" by (simp add: insertion_sort_def)
  then have "\<exists>base'. sort_loop cmp sz base 1 (n - 1) = Some base' \<and> length base' = length base \<and>
      drop (n * sz) base' = drop (n * sz) base \<and> elems sz base' n = insertion_sort cmp xs"
    using Suc assms by (intro sort_loop_sorts [of 1 _ _ _ _ xs]) (auto simp: xs_def)
  then show ?thesis using assms by (simp add: ngx_sort_def xs_def)
qed

interpretation array_sort: insertion_sorter
  "\<lambda>cmp xs ys. \<exists>base base' n sz. n * sz \<le> length base \<and> 0 < sz \<and> xs = elems sz base n \<and>
     ngx_sort True base n sz cmp = Some base' \<and> ys = elems sz base' n"
proof
  fix cmp :: "bytes \<Rightarrow> bytes \<Rightarrow> int" and xs ys
  assume "\<exists>base base' n sz. n * sz \<le> length base \<and> 0 < sz \<and> xs = elems sz base n \<and>
    ngx_sort True base n sz cmp = Some base' \<and> ys = elems sz base' n"
  then obtain base base' n sz where "n * sz \<le> length base" "0 < sz" "xs = elems sz base n"
    "ngx_sort True base n sz cmp = Some base'" "ys = elems sz base' n"
    by blast
  with ngx_sort_inserts [of n sz base cmp] show "ys = insertion_sort cmp xs" by auto
qed

subsection \<open>Properties\<close>

text \<open>
  C28: For a comparison function that orders the elements by some key, \<open>ngx_sort\<close> is the stable sort
  by that key of the \<open>n\<close> elements of the array; the bytes behind them stay as they are.  Only when
  \<open>calloc\<close> gives no spare element the array is left unsorted.
\<close>

theorem ngx_sort_stable:
  assumes "n * sz \<le> length base" "0 < sz" and "compares_by cmp key (set (elems sz base n))"
  shows "ngx_sort False base n sz cmp = Some base \<and>
    (\<exists>base'. ngx_sort True base n sz cmp = Some base' \<and> length base' = length base \<and>
       drop (n * sz) base' = drop (n * sz) base \<and>
       elems sz base' n = sort_key key (elems sz base n))"
proof -
  obtain base' where sorts: "ngx_sort True base n sz cmp = Some base'" "length base' = length base"
    "drop (n * sz) base' = drop (n * sz) base"
    using ngx_sort_inserts [OF assms(1,2)] by blast
  then have "elems sz base' n = sort_key key (elems sz base n)"
    using assms by (intro array_sort.stable [of "elems sz base n" cmp]) auto
  then show ?thesis using sorts by (simp add: ngx_sort_def)
qed

lemma ngx_sort_stable_witness:
  "\<exists>base'. ngx_sort True [3, 1, 2, 2, 3, 3, 1, 4, 9] 4 2 (\<lambda>a b. uint (a ! 0) - uint (b ! 0)) =
      Some base' \<and> elems 2 base' 4 = [[1, 4], [2, 2], [3, 1], [3, 3]] \<and> drop 8 base' = [9]"
proof -
  have "compares_by (\<lambda>a b. uint (a ! 0) - uint (b ! 0)) (\<lambda>a. uint (a ! 0 :: u8)) A" for A
    by (simp add: compares_by_def)
  then show ?thesis
    using ngx_sort_stable [of 4 2 "[3, 1, 2, 2, 3, 3, 1, 4, 9]" "\<lambda>a b. uint (a ! 0) - uint (b ! 0)"
        "\<lambda>a. uint (a ! 0)"]
    by (auto simp: elems_def elem_def upt_rec)
qed

end
