(* ===== verification/Queue.thy ===== *)
theory Queue imports Insertion begin

text \<open>
  The circular doubly linked queue of \<open>ngx/ngx_queue.c\<close> and the macros of \<open>ngx/ngx_queue.h\<close>.  A heap
  gives the two links of the \<open>ngx_queue_t\<close> at every address; every macro is the sequence of its stores,
  so that the aliasing of its arguments and of the neighbours is that of the code.  The abstract queue
  is the list of the addresses of its nodes: \<open>queue h s xs\<close> says that the ring through the sentinel
  \<open>s\<close> has the nodes \<open>xs\<close>.
\<close>

record ngx_queue =
  q_prev :: u64
  q_next :: u64

type_synonym qheap = "u64 \<Rightarrow> ngx_queue"

definition set_prev :: "qheap \<Rightarrow> u64 \<Rightarrow> u64 \<Rightarrow> qheap" where
  "set_prev h q v = h(q := (h q)\<lparr>q_prev := v\<rparr>)"

definition set_next :: "qheap \<Rightarrow> u64 \<Rightarrow> u64 \<Rightarrow> qheap" where
  "set_next h q v = h(q := (h q)\<lparr>q_next := v\<rparr>)"

subsection \<open>The macros\<close>

definition ngx_queue_init :: "qheap \<Rightarrow> u64 \<Rightarrow> qheap" where
  "ngx_queue_init h q = (let h = set_prev h q q in set_next h q q)"

definition ngx_queue_empty :: "qheap \<Rightarrow> u64 \<Rightarrow> bool" where
  "ngx_queue_empty h q \<longleftrightarrow> q = q_prev (h q)"

definition ngx_queue_insert_head :: "qheap \<Rightarrow> u64 \<Rightarrow> u64 \<Rightarrow> qheap" where
  "ngx_queue_insert_head h q x =
     (let h = set_next h x (q_next (h q));
          h = set_prev h (q_next (h x)) x;
          h = set_prev h x q
      in set_next h q x)"

abbreviation ngx_queue_insert_after :: "qheap \<Rightarrow> u64 \<Rightarrow> u64 \<Rightarrow> qheap" where
  "ngx_queue_insert_after \<equiv> ngx_queue_insert_head"

definition ngx_queue_insert_tail :: "qheap \<Rightarrow> u64 \<Rightarrow> u64 \<Rightarrow> qheap" where
  "ngx_queue_insert_tail h q x =
     (let h = set_prev h x (q_prev (h q));
          h = set_next h (q_prev (h x)) x;
          h = set_next h x q
      in set_prev h q x)"

definition ngx_queue_head :: "qheap \<Rightarrow> u64 \<Rightarrow> u64" where "ngx_queue_head h q = q_next (h q)"
definition ngx_queue_last :: "qheap \<Rightarrow> u64 \<Rightarrow> u64" where "ngx_queue_last h q = q_prev (h q)"
definition ngx_queue_sentinel :: "u64 \<Rightarrow> u64" where "ngx_queue_sentinel q = q"
definition ngx_queue_next :: "qheap \<Rightarrow> u64 \<Rightarrow> u64" where "ngx_queue_next h q = q_next (h q)"
definition ngx_queue_prev :: "qheap \<Rightarrow> u64 \<Rightarrow> u64" where "ngx_queue_prev h q = q_prev (h q)"

definition ngx_queue_remove :: "qheap \<Rightarrow> u64 \<Rightarrow> qheap" where
  "ngx_queue_remove h x =
     (let h = set_prev h (q_next (h x)) (q_prev (h x)) in set_next h (q_prev (h x)) (q_next (h x)))"

definition ngx_queue_split :: "qheap \<Rightarrow> u64 \<Rightarrow> u64 \<Rightarrow> u64 \<Rightarrow> qheap" where
  "ngx_queue_split h s q n =
     (let h = set_prev h n (q_prev (h s));
          h = set_next h (q_prev (h n)) n;
          h = set_next h n q;
          h = set_prev h s (q_prev (h q));
          h = set_next h (q_prev (h s)) s
      in set_prev h q n)"

definition ngx_queue_add :: "qheap \<Rightarrow> u64 \<Rightarrow> u64 \<Rightarrow> qheap" where
  "ngx_queue_add h s n =
     (let h = set_next h (q_prev (h s)) (q_next (h n));
          h = set_prev h (q_next (h n)) (q_prev (h s));
          h = set_prev h s (q_prev (h n))
      in set_next h (q_prev (h s)) s)"

definition ngx_queue_data :: "u64 \<Rightarrow> u64 \<Rightarrow> u64" where "ngx_queue_data q offset = q - offset"

subsection \<open>\<open>ngx_queue_middle\<close>\<close>

text \<open>On links that are no ring the loops need not end; not to return is \<open>None\<close>.\<close>

partial_function (option) middle_loop :: "qheap \<Rightarrow> u64 \<Rightarrow> u64 \<Rightarrow> u64 \<Rightarrow> u64 option" where
  "middle_loop h queue middle nxt =
     (let middle = ngx_queue_next h middle;
          nxt = ngx_queue_next h nxt
      in if nxt = ngx_queue_last h queue then Some middle
         else
           let nxt = ngx_queue_next h nxt
           in if nxt = ngx_queue_last h queue then Some middle else middle_loop h queue middle nxt)"

definition ngx_queue_middle :: "qheap \<Rightarrow> u64 \<Rightarrow> u64 option" where
  "ngx_queue_middle h queue =
     (let middle = ngx_queue_head h queue
      in if middle = ngx_queue_last h queue then Some middle
         else middle_loop h queue middle (ngx_queue_head h queue))"

subsection \<open>\<open>ngx_queue_sort\<close>\<close>

text \<open>\<open>do { if (cmp(prev, q) <= 0) break; prev = prev->prev } while (prev != sentinel)\<close>\<close>

partial_function (option) back_loop ::
  "(u64 \<Rightarrow> u64 \<Rightarrow> int) \<Rightarrow> qheap \<Rightarrow> u64 \<Rightarrow> u64 \<Rightarrow> u64 \<Rightarrow> u64 option" where
  "back_loop cmp h queue prv q =
     (if cmp prv q \<le> 0 then Some prv
      else let prv = ngx_queue_prev h prv
           in if prv \<noteq> ngx_queue_sentinel queue then back_loop cmp h queue prv q else Some prv)"

partial_function (option) sort_nodes ::
  "(u64 \<Rightarrow> u64 \<Rightarrow> int) \<Rightarrow> qheap \<Rightarrow> u64 \<Rightarrow> u64 \<Rightarrow> qheap option" where
  "sort_nodes cmp h queue q =
     (if q = ngx_queue_sentinel queue then Some h
      else
        let prv = ngx_queue_prev h q;
            nxt = ngx_queue_next h q;
            h = ngx_queue_remove h q
        in Option.bind (back_loop cmp h queue prv q)
             (\<lambda>p. sort_nodes cmp (ngx_queue_insert_after h p q) queue nxt))"

definition ngx_queue_sort :: "qheap \<Rightarrow> u64 \<Rightarrow> (u64 \<Rightarrow> u64 \<Rightarrow> int) \<Rightarrow> qheap option" where
  "ngx_queue_sort h queue cmp =
     (let q = ngx_queue_head h queue
      in if q = ngx_queue_last h queue then Some h
         else sort_nodes cmp h queue (ngx_queue_next h q))"

subsection \<open>Rings\<close>

text \<open>The links from \<open>a\<close> through \<open>xs\<close> to \<open>b\<close>, in both directions\<close>

fun seg :: "qheap \<Rightarrow> u64 \<Rightarrow> u64 list \<Rightarrow> u64 \<Rightarrow> bool" where
  "seg h a [] b \<longleftrightarrow> q_next (h a) = b \<and> q_prev (h b) = a"
| "seg h a (x # xs) b \<longleftrightarrow> q_next (h a) = x \<and> q_prev (h x) = a \<and> seg h x xs b"

definition queue :: "qheap \<Rightarrow> u64 \<Rightarrow> u64 list \<Rightarrow> bool" where
  "queue h s xs \<longleftrightarrow> distinct (s # xs) \<and> seg h s xs s"

lemma seg_append [simp]: "seg h a (xs @ y # ys) b \<longleftrightarrow> seg h a xs y \<and> seg h y ys b"
  by (induction xs arbitrary: a) auto

lemma links [simp]:
  "q_next (set_next h z v y) = (if y = z then v else q_next (h y))"
  "q_prev (set_next h z v y) = q_prev (h y)"
  "q_prev (set_prev h z v y) = (if y = z then v else q_prev (h y))"
  "q_next (set_prev h z v y) = q_next (h y)"
  by (simp_all add: set_next_def set_prev_def)

lemma seg_set_next [simp]: "z \<noteq> a \<Longrightarrow> z \<notin> set xs \<Longrightarrow> seg (set_next h z v) a xs b = seg h a xs b"
  by (induction xs arbitrary: a) auto

lemma seg_set_prev [simp]: "z \<noteq> b \<Longrightarrow> z \<notin> set xs \<Longrightarrow> seg (set_prev h z v) a xs b = seg h a xs b"
  by (induction xs arbitrary: a) auto

text \<open>Case analysis on the neighbours of a place in the ring\<close>

lemmas macro_defs = Let_def ngx_queue_init_def ngx_queue_insert_head_def ngx_queue_insert_tail_def
  ngx_queue_remove_def ngx_queue_split_def ngx_queue_add_def

lemma queue_init: "queue (ngx_queue_init h s) s []"
  by (simp add: queue_def macro_defs)

lemma queue_insert_after:
  assumes "queue h s (as @ bs)" "x \<notin> set (s # as @ bs)"
  shows "queue (ngx_queue_insert_after h (last (s # as)) x) s (as @ x # bs)"
  using assms
  by (cases as rule: rev_cases; cases bs) (auto simp: queue_def macro_defs)

lemma queue_insert_tail:
  assumes "queue h s xs" "x \<notin> set (s # xs)"
  shows "queue (ngx_queue_insert_tail h s x) s (xs @ [x])"
  using assms by (cases xs rule: rev_cases) (auto simp: queue_def macro_defs)

lemma queue_remove:
  assumes "queue h s (as @ x # bs)"
  shows "queue (ngx_queue_remove h x) s (as @ bs)"
  using assms
  by (cases as rule: rev_cases; cases bs) (auto simp: queue_def macro_defs)

lemma queue_split:
  assumes "queue h s (as @ q # bs)" "n \<notin> set (s # as @ q # bs)"
  shows "queue (ngx_queue_split h s q n) s as" "queue (ngx_queue_split h s q n) n (q # bs)"
  using assms
  by (cases as rule: rev_cases; cases bs rule: rev_cases; auto simp: queue_def macro_defs)+

lemma queue_add:
  assumes "queue h s as" "queue h n bs" "set (s # as) \<inter> set (n # bs) = {}"
  shows "queue (ngx_queue_add h s n) s (as @ bs)"
proof (cases bs)
  case Nil
  then show ?thesis using assms
    by (cases as rule: rev_cases) (auto simp: queue_def macro_defs)
next
  case (Cons b bs')
  then show ?thesis using assms
    by (cases as rule: rev_cases; cases bs' rule: rev_cases) (auto simp: queue_def macro_defs)
qed

lemma queue_ends:
  assumes "queue h s xs"
  shows "ngx_queue_head h s = hd (xs @ [s])" "ngx_queue_last h s = last (s # xs)"
    "ngx_queue_empty h s \<longleftrightarrow> xs = []"
proof -
  show "ngx_queue_head h s = hd (xs @ [s])"
    using assms by (cases xs) (auto simp: queue_def ngx_queue_head_def)
  show last: "ngx_queue_last h s = last (s # xs)"
    using assms by (cases xs rule: rev_cases) (auto simp: queue_def ngx_queue_last_def)
  show "ngx_queue_empty h s \<longleftrightarrow> xs = []"
    using assms last by (cases xs rule: rev_cases) (auto simp: queue_def ngx_queue_empty_def ngx_queue_last_def)
qed


text \<open>The neighbours of a node\<close>

lemma queue_neighbours:
  assumes "queue h s (as @ x # bs)"
  shows "ngx_queue_next h x = hd (bs @ [s])" "ngx_queue_prev h x = last (s # as)"
  using assms
  by (cases as rule: rev_cases; cases bs; simp add: queue_def ngx_queue_next_def ngx_queue_prev_def)+

lemma queue_nth_next:
  assumes "queue h s xs" "Suc i < length xs"
  shows "ngx_queue_next h (xs ! i) = xs ! Suc i"
proof -
  have "xs = take i xs @ xs ! i # drop (Suc i) xs" using assms(2) by (simp add: id_take_nth_drop)
  moreover have "hd (drop (Suc i) xs @ [s]) = xs ! Suc i" using assms(2) by (simp add: hd_append hd_drop_conv_nth)
  ultimately show ?thesis using queue_neighbours(1) [of h s "take i xs" "xs ! i" "drop (Suc i) xs"] assms(1)
    by simp
qed

text \<open>The stores of the macros stay within the ring.\<close>

lemma queue_frame:
  assumes "y \<notin> set (s # as @ x # bs)"
  shows "queue h s (as @ x # bs) \<Longrightarrow> ngx_queue_remove h x y = h y"
    and "queue h s (as @ bs) \<Longrightarrow> ngx_queue_insert_after h (last (s # as)) x y = h y"
  using assms
  by (cases as rule: rev_cases; cases bs;
      simp add: queue_def macro_defs set_next_def set_prev_def)+

subsection \<open>The middle of a queue\<close>

lemma middle_loop_nth:
  assumes "queue h s xs" "2 * i + 1 < length xs"
  shows "middle_loop h s (xs ! i) (xs ! (2 * i)) = Some (xs ! (length xs div 2))"
  using assms(2)
proof (induction "length xs - 2 * i" arbitrary: i rule: less_induct)
  case less
  have distinct: "distinct xs" using assms(1) by (simp add: queue_def)
  have lst: "ngx_queue_last h s = xs ! (length xs - 1)"
    using queue_ends(2) [OF assms(1)] less.prems by (cases "xs = []") (simp_all add: last_conv_nth)
  have next1: "ngx_queue_next h (xs ! i) = xs ! Suc i" "ngx_queue_next h (xs ! (2 * i)) = xs ! Suc (2 * i)"
    using queue_nth_next [OF assms(1)] less.prems by simp_all
  have at_end: "xs ! j = ngx_queue_last h s \<longleftrightarrow> j = length xs - 1" if "j < length xs" for j
    using nth_eq_iff_index_eq [OF distinct] that lst less.prems by simp
  show ?case
  proof (cases "2 * i + 1 = length xs - 1")
    case True
    then have "length xs div 2 = Suc i" by linarith
    then show ?thesis using True at_end less.prems
      by (subst middle_loop.simps) (simp add: next1 Let_def)
  next
    case False
    then have next2: "ngx_queue_next h (xs ! Suc (2 * i)) = xs ! Suc (Suc (2 * i))"
      using queue_nth_next [OF assms(1), of "Suc (2 * i)"] less.prems by simp
    show ?thesis
    proof (cases "2 * i + 2 = length xs - 1")
      case True
      then have "length xs div 2 = Suc i" by linarith
      then show ?thesis using True False at_end [of "Suc (2 * i)"] at_end [of "Suc (Suc (2 * i))"] less.prems
        by (subst middle_loop.simps) (simp add: next1 next2 Let_def)
    next
      case more: False
      then have "middle_loop h s (xs ! Suc i) (xs ! (2 * Suc i)) = Some (xs ! (length xs div 2))"
        using less False by (intro less.hyps) simp_all
      then show ?thesis using more False at_end [of "Suc (2 * i)"] at_end [of "Suc (Suc (2 * i))"] less.prems
        by (subst middle_loop.simps) (simp add: next1 next2 Let_def)
    qed
  qed
qed

subsection \<open>Sorting\<close>

lemma back_loop_finds:
  assumes "queue h s (as @ bs)" "as \<noteq> []"
  shows "\<exists>cs ds. as = cs @ ds \<and> back_loop cmp h s (last as) q = Some (last (s # cs)) \<and>
    insert_last cmp q as = cs @ q # ds"
  using assms
proof (induction as arbitrary: bs rule: rev_induct)
  case (snoc a as)
  show ?case
  proof (cases "cmp a q \<le> 0")
    case True
    then have "back_loop cmp h s a q = Some a" by (subst back_loop.simps) simp
    then show ?thesis using True by (intro exI [of _ "as @ [a]"] exI [of _ "[]"]) simp
  next
    case False
    have prv: "ngx_queue_prev h a = last (s # as)"
      using queue_neighbours(2) [of h s as a bs] snoc.prems(1) by simp
    show ?thesis
    proof (cases "as = []")
      case True
      then have "back_loop cmp h s a q = Some s"
        using False prv by (subst back_loop.simps) (simp add: Let_def ngx_queue_sentinel_def)
      then show ?thesis using True False by (intro exI [of _ "[]"] exI [of _ "[a]"]) simp
    next
      case ne: False
      then have "last as \<noteq> s" using snoc.prems(1) by (auto simp: queue_def)
      then have step: "back_loop cmp h s a q = back_loop cmp h s (last as) q"
        using False prv ne by (subst back_loop.simps) (simp add: Let_def ngx_queue_sentinel_def)
      obtain cs ds where cs: "as = cs @ ds" "back_loop cmp h s (last as) q = Some (last (s # cs))"
        "insert_last cmp q as = cs @ q # ds"
        using snoc.IH [of "a # bs"] snoc.prems(1) ne by auto
      have "insert_last cmp q (as @ [a]) = cs @ q # ds @ [a]" using cs(3) False by simp
      moreover have "back_loop cmp h s (last (as @ [a])) q = Some (last (s # cs))"
        using cs(2) step by simp
      moreover have "as @ [a] = cs @ ds @ [a]" using cs(1) by simp
      ultimately show ?thesis by blast
    qed
  qed
qed simp

lemma sort_nodes_inserts:
  assumes "queue h s (as @ qs)" "as \<noteq> []"
  shows "\<exists>h'. sort_nodes cmp h s (hd (qs @ [s])) = Some h' \<and>
    queue h' s (foldl (\<lambda>acc q. insert_last cmp q acc) as qs) \<and>
    (\<forall>y. y \<notin> set (s # as @ qs) \<longrightarrow> h' y = h y)"
  using assms
proof (induction qs arbitrary: h as)
  case Nil
  then show ?case by (subst sort_nodes.simps) (simp add: ngx_queue_sentinel_def)
next
  case (Cons q qs)
  define h1 where "h1 = ngx_queue_remove h q"
  have dist: "q \<noteq> s" "q \<notin> set (s # as @ qs)" using Cons.prems(1) by (auto simp: queue_def)
  have nbs: "ngx_queue_next h q = hd (qs @ [s])" "ngx_queue_prev h q = last as"
    using queue_neighbours [OF Cons.prems(1)] Cons.prems(2) by simp_all
  have q1: "queue h1 s (as @ qs)" using queue_remove [OF Cons.prems(1)] by (simp add: h1_def)
  obtain cs ds where cs: "as = cs @ ds" "back_loop cmp h1 s (last as) q = Some (last (s # cs))"
    "insert_last cmp q as = cs @ q # ds"
    using back_loop_finds [OF q1 Cons.prems(2)] by blast
  define h2 where "h2 = ngx_queue_insert_after h1 (last (s # cs)) q"
  have "queue h2 s (insert_last cmp q as @ qs)"
    using queue_insert_after [of h1 s cs "ds @ qs" q] q1 dist cs by (simp add: h2_def)
  then obtain h' where h': "sort_nodes cmp h2 s (hd (qs @ [s])) = Some h'"
    "queue h' s (foldl (\<lambda>acc q. insert_last cmp q acc) (insert_last cmp q as) qs)"
    "\<forall>y. y \<notin> set (s # insert_last cmp q as @ qs) \<longrightarrow> h' y = h2 y"
    using Cons.IH [of h2 "insert_last cmp q as"] by (auto simp: cs(3))
  have "h2 y = h y" if "y \<notin> set (s # as @ q # qs)" for y
    using queue_frame(1) [of y s as q qs h] queue_frame(2) [of y s cs q "ds @ qs" h1] that
      Cons.prems(1) q1 cs(1)
    by (simp add: h1_def h2_def)
  moreover have "sort_nodes cmp h s q = sort_nodes cmp h2 s (hd (qs @ [s]))"
    using dist(1) nbs cs(2)
    by (subst sort_nodes.simps) (simp add: Let_def ngx_queue_sentinel_def h1_def h2_def)
  ultimately show ?case using h' by auto
qed

lemma ngx_queue_sort_inserts:
  assumes "queue h s xs"
  shows "\<exists>h'. ngx_queue_sort h s cmp = Some h' \<and> queue h' s (insertion_sort cmp xs) \<and>
    (\<forall>y. y \<notin> set (s # xs) \<longrightarrow> h' y = h y)"
proof (cases xs)
  case Nil
  then show ?thesis using assms queue_ends [OF assms] by (simp add: ngx_queue_sort_def)
next
  case (Cons x qs)
  show ?thesis
  proof (cases "qs = []")
    case True
    then show ?thesis using Cons assms queue_ends [OF assms]
      by (simp add: ngx_queue_sort_def insertion_sort_def)
  next
    case False
    have "x \<notin> set qs" using assms Cons by (simp add: queue_def)
    then have "last qs \<noteq> x" using False last_in_set by metis
    moreover have "ngx_queue_next h x = hd (qs @ [s])"
      using queue_neighbours(1) [of h s "[]" x qs] assms Cons by simp
    ultimately show ?thesis
      using sort_nodes_inserts [of h s "[x]" qs cmp] assms Cons queue_ends [OF assms] False
      by (auto simp: ngx_queue_sort_def insertion_sort_def)
  qed
qed


lemma seg_unique:
  "seg h a xs b \<Longrightarrow> seg h a ys b \<Longrightarrow> b \<notin> set xs \<Longrightarrow> b \<notin> set ys \<Longrightarrow> xs = ys"
proof (induction xs arbitrary: a ys)
  case (Cons x xs)
  then show ?case by (cases ys) auto
next
  case Nil
  then show ?case by (cases ys) auto
qed

lemma queue_unique: "queue h s xs \<Longrightarrow> queue h s ys \<Longrightarrow> xs = ys"
  using seg_unique by (auto simp: queue_def)

interpretation queue_sort: insertion_sorter
  "\<lambda>cmp xs ys. \<exists>h s h'. queue h s xs \<and> ngx_queue_sort h s cmp = Some h' \<and> queue h' s ys"
proof
  fix cmp :: "u64 \<Rightarrow> u64 \<Rightarrow> int" and xs ys
  assume "\<exists>h s h'. queue h s xs \<and> ngx_queue_sort h s cmp = Some h' \<and> queue h' s ys"
  then obtain h s h' where "queue h s xs" "ngx_queue_sort h s cmp = Some h'" "queue h' s ys" by blast
  then show "ys = insertion_sort cmp xs"
    using ngx_queue_sort_inserts [of h s xs cmp] queue_unique by fastforce
qed

subsection \<open>Properties\<close>

text \<open>
  C18: The macros implement the operations of a double-ended queue on the list of its nodes, the empty
  queue included: making it empty, testing that, its two ends, the neighbours of a node, inserting after
  any node or the sentinel and at both ends, removing any node, splitting it before a node into two
  queues, and appending another queue.  Initialising a new sentinel leaves the queue as it is.
\<close>

theorem ngx_queue_refines_list:
  assumes q: "queue h s xs" and n: "n \<notin> set (s # xs)"
    and t: "queue h t cs" "set (s # xs) \<inter> set (t # cs) = {}"
  shows "queue (ngx_queue_init h n) n [] \<and> queue (ngx_queue_init h n) s xs \<and>
    (ngx_queue_empty h s \<longleftrightarrow> xs = []) \<and>
    ngx_queue_head h s = hd (xs @ [s]) \<and> ngx_queue_last h s = last (s # xs) \<and>
    queue (ngx_queue_insert_head h s n) s (n # xs) \<and>
    queue (ngx_queue_insert_tail h s n) s (xs @ [n]) \<and>
    queue (ngx_queue_add h s t) s (xs @ cs) \<and>
    (\<forall>as bs. xs = as @ bs \<longrightarrow> queue (ngx_queue_insert_after h (last (s # as)) n) s (as @ n # bs)) \<and>
    (\<forall>as x bs. xs = as @ x # bs \<longrightarrow>
      ngx_queue_next h x = hd (bs @ [s]) \<and> ngx_queue_prev h x = last (s # as) \<and>
      queue (ngx_queue_remove h x) s (as @ bs) \<and>
      queue (ngx_queue_split h s x n) s as \<and> queue (ngx_queue_split h s x n) n (x # bs))"
proof (intro conjI allI impI)
  show "queue (ngx_queue_init h n) s xs" using q n by (auto simp: queue_def macro_defs)
  show "queue (ngx_queue_insert_head h s n) s (n # xs)"
    using queue_insert_after [of h s "[]" xs n] q n by simp
  show "queue (ngx_queue_insert_tail h s n) s (xs @ [n])" by (rule queue_insert_tail [OF q n])
  show "queue (ngx_queue_add h s t) s (xs @ cs)" by (rule queue_add [OF q t])
  show "queue (ngx_queue_insert_after h (last (s # as)) n) s (as @ n # bs)" if "xs = as @ bs" for as bs
    using queue_insert_after [of h s as bs n] q n that by simp
  fix as x bs assume x: "xs = as @ x # bs"
  have qx: "queue h s (as @ x # bs)" and nx: "n \<notin> set (s # as @ x # bs)" using q n x by simp_all
  show "ngx_queue_next h x = hd (bs @ [s])" "ngx_queue_prev h x = last (s # as)"
    by (fact queue_neighbours [OF qx])+
  show "queue (ngx_queue_remove h x) s (as @ bs)" by (rule queue_remove [OF qx])
  show "queue (ngx_queue_split h s x n) s as" "queue (ngx_queue_split h s x n) n (x # bs)"
    by (fact queue_split [OF qx nx])+
qed (use queue_ends [OF q] queue_init in simp_all)

text \<open>
  C36: \<open>ngx_queue_middle\<close> returns on every queue, with the middle node of an odd number of nodes, the
  first node of the second half of an even number and the sentinel of an empty queue.
\<close>

theorem ngx_queue_middle_correct:
  assumes "queue h s xs"
  shows "ngx_queue_middle h s = Some (if xs = [] then s else xs ! (length xs div 2))"
proof -
  note ends = queue_ends [OF assms]
  consider "xs = []" | x where "xs = [x]" | "1 < length xs" by (cases xs; cases "tl xs") auto
  then show ?thesis
  proof cases
    case 3
    have "hd xs \<noteq> last xs"
      using 3 assms nth_eq_iff_index_eq [of xs 0 "length xs - 1"]
      by (cases "xs = []") (auto simp: queue_def hd_conv_nth last_conv_nth)
    then show ?thesis using middle_loop_nth [of h s xs 0] assms 3 ends
      by (cases xs) (simp_all add: ngx_queue_middle_def)
  qed (use ends in \<open>simp_all add: ngx_queue_middle_def\<close>)
qed

text \<open>
  C19: \<open>ngx_queue_sort\<close> returns on every queue and, for a comparison function that orders the nodes by some
  key, leaves the queue of the same nodes in the order of the stable sort by that key; no other link in
  memory changes.
\<close>

theorem ngx_queue_sort_stable:
  assumes "queue h s xs" "compares_by cmp key (set xs)"
  shows "\<exists>h'. ngx_queue_sort h s cmp = Some h' \<and> queue h' s (sort_key key xs) \<and>
    (\<forall>y. y \<in> set (s # xs) \<or> h' y = h y)"
proof -
  obtain h' where h': "ngx_queue_sort h s cmp = Some h'" "queue h' s (insertion_sort cmp xs)"
    "\<forall>y. y \<notin> set (s # xs) \<longrightarrow> h' y = h y"
    using ngx_queue_sort_inserts [OF assms(1)] by blast
  then have "insertion_sort cmp xs = sort_key key xs"
    using assms by (intro queue_sort.stable [of xs cmp]) auto
  then show ?thesis using h' by auto
qed

text \<open>A queue of five nodes, whose keys are their addresses modulo 0x100\<close>

definition queue5 :: qheap where
  "queue5 = fold (\<lambda>x h. ngx_queue_insert_tail h 0x1000 x) [0x2030, 0x3010, 0x4020, 0x5010, 0x6000]
     (ngx_queue_init (\<lambda>_. \<lparr>q_prev = 0, q_next = 0\<rparr>) 0x1000)"

lemma queue5_queue: "queue queue5 0x1000 [0x2030, 0x3010, 0x4020, 0x5010, 0x6000]"
proof -
  let ?ins = "\<lambda>x h. ngx_queue_insert_tail h 0x1000 x"
  define h where "h = ngx_queue_init (\<lambda>_. \<lparr>q_prev = 0, q_next = 0\<rparr>) 0x1000"
  have "queue h 0x1000 []" unfolding h_def by (rule queue_init)
  note grow = queue_insert_tail [THEN back_subst [where P = "queue _ _"]]
  from \<open>queue h 0x1000 []\<close> have "queue (?ins 0x2030 h) 0x1000 [0x2030]" by (rule grow) simp_all
  then have "queue (?ins 0x3010 (?ins 0x2030 h)) 0x1000 [0x2030, 0x3010]"
    by (rule grow) simp_all
  then have "queue (?ins 0x4020 (?ins 0x3010 (?ins 0x2030 h))) 0x1000 [0x2030, 0x3010, 0x4020]"
    by (rule grow) simp_all
  then have "queue (?ins 0x5010 (?ins 0x4020 (?ins 0x3010 (?ins 0x2030 h)))) 0x1000
      [0x2030, 0x3010, 0x4020, 0x5010]"
    by (rule grow) simp_all
  then have "queue (?ins 0x6000 (?ins 0x5010 (?ins 0x4020 (?ins 0x3010 (?ins 0x2030 h))))) 0x1000
      [0x2030, 0x3010, 0x4020, 0x5010, 0x6000]"
    by (rule grow) simp_all
  then show ?thesis by (simp add: queue5_def h_def)
qed

lemma ngx_queue_middle_correct_witness: "ngx_queue_middle queue5 0x1000 = Some 0x4020"
  using ngx_queue_middle_correct [OF queue5_queue] by simp

lemma ngx_queue_sort_stable_witness:
  "\<exists>h'. ngx_queue_sort queue5 0x1000 (\<lambda>a b. uint (a mod 0x100) - uint (b mod 0x100)) = Some h' \<and>
    queue h' 0x1000 [0x6000, 0x3010, 0x5010, 0x4020, 0x2030]"
proof -
  have "sort_key (\<lambda>a :: u64. uint (a mod 0x100)) [0x2030, 0x3010, 0x4020, 0x5010, 0x6000] =
      [0x6000, 0x3010, 0x5010, 0x4020, 0x2030]"
    by code_simp
  moreover have "compares_by (\<lambda>a b. uint (a mod 0x100) - uint (b mod 0x100)) (\<lambda>a :: u64. uint (a mod 0x100)) A"
    for A by (simp add: compares_by_def)
  ultimately show ?thesis using ngx_queue_sort_stable [OF queue5_queue] by metis
qed

text \<open>On the queue of five nodes beside an empty one, and on the empty one.\<close>

lemma ngx_queue_refines_list_witness:
  "queue (ngx_queue_remove (ngx_queue_init queue5 0x8000) 0x4020) 0x1000 [0x2030, 0x3010, 0x5010, 0x6000] \<and>
   queue (ngx_queue_split (ngx_queue_init queue5 0x8000) 0x1000 0x4020 0x7000) 0x7000
     [0x4020, 0x5010, 0x6000] \<and>
   ngx_queue_empty (ngx_queue_init queue5 0x8000) 0x8000 \<and>
   queue (ngx_queue_insert_head (ngx_queue_init queue5 0x8000) 0x8000 0x7000) 0x8000 [0x7000] \<and>
   queue (ngx_queue_add (ngx_queue_init queue5 0x8000) 0x8000 0x1000) 0x8000
     [0x2030, 0x3010, 0x4020, 0x5010, 0x6000]"
proof -
  define h where "h = ngx_queue_init queue5 0x8000"
  let ?xs = "[0x2030, 0x3010, 0x4020, 0x5010, 0x6000] :: u64 list"
  have q: "queue h 0x1000 ([0x2030, 0x3010] @ 0x4020 # [0x5010, 0x6000])"
    using queue5_queue by (simp add: h_def queue_def macro_defs)
  have e: "queue h 0x8000 []" unfolding h_def by (rule queue_init)
  from ngx_queue_refines_list [OF q, of "0x7000" "0x8000" "[]"] e
  have "\<forall>as x bs. [0x2030, 0x3010] @ 0x4020 # [0x5010, 0x6000] = as @ x # bs \<longrightarrow>
      queue (ngx_queue_remove h x) 0x1000 (as @ bs) \<and> queue (ngx_queue_split h 0x1000 x 0x7000) 0x7000 (x # bs)"
    by simp
  then have "queue (ngx_queue_remove h 0x4020) 0x1000 ([0x2030, 0x3010] @ [0x5010, 0x6000])"
    "queue (ngx_queue_split h 0x1000 0x4020 0x7000) 0x7000 (0x4020 # [0x5010, 0x6000])"
    by blast+
  moreover have "ngx_queue_empty h 0x8000" "queue (ngx_queue_insert_head h 0x8000 0x7000) 0x8000 [0x7000]"
    "queue (ngx_queue_add h 0x8000 0x1000) 0x8000 ?xs"
    using ngx_queue_refines_list [OF e, of "0x7000" "0x1000" ?xs] q by simp_all
  ultimately show ?thesis by (simp flip: h_def)
qed

end
