(* ===== verification/Shmtx.thy ===== *)
theory Shmtx imports Prelude begin

text \<open>
  The mutex between processes of \<open>src/ngx/ngx_shmtx.c\<close>: a lock word and a counter of waiting
  processes in shared memory, both changed by \<open>cmpxchgl\<close> and \<open>xaddl\<close> only, and a POSIX semaphore.
  Every process is a program counter (\<open>pc\<close>) inside one of the functions; a step of a process is one
  access to the shared state, in the order of the code, so that all interleavings of the accesses are
  the executions of the relation \<open>step\<close>.  The pauses of the processor between two attempts and the
  log lines have no effect on the state and are left out.

  A process calls \<open>ngx_shmtx_unlock\<close> only while it holds the lock.  The results of \<open>sem_wait\<close> are
  chosen by the environment; \<open>sem_post\<close> fails only when the semaphore has its greatest value.
\<close>

subsection \<open>State\<close>

text \<open>\<open>ngx_shmtx_sh_t\<close> and the value of the semaphore; \<open>ngx_atomic_t\<close> has 32 bits.\<close>

record ngx_shmtx_sh =
  sh_lock :: u32
  sh_wait :: u32

record shared = ngx_shmtx_sh +
  sh_sem :: nat

text \<open>\<open>ngx_shmtx_t\<close>, with the semaphore by whether it is initialised\<close>

record ngx_shmtx =
  mtx_lock :: u64
  mtx_wait :: u64
  mtx_semaphore :: u64
  mtx_sem :: bool
  mtx_spin :: u64

text \<open>\<open>sem_ok\<close>: \<open>sem_init\<close> succeeds.\<close>

definition ngx_shmtx_create :: "bool \<Rightarrow> ngx_shmtx \<Rightarrow> u64 \<Rightarrow> ngx_shmtx \<times> int" where
  "ngx_shmtx_create sem_ok mtx addr =
     (let mtx = mtx\<lparr>mtx_lock := addr\<rparr> in
      if mtx_spin mtx = - 1 then (mtx, NGX_OK)
      else let mtx = mtx\<lparr>mtx_spin := 2048, mtx_wait := addr + 4\<rparr> in
        if sem_ok then (mtx\<lparr>mtx_sem := True, mtx_semaphore := 1\<rparr>, NGX_OK) else (mtx, NGX_OK))"

definition ngx_shmtx_destroy :: "ngx_shmtx \<Rightarrow> ngx_shmtx" where
  "ngx_shmtx_destroy mtx = (if mtx_semaphore mtx \<noteq> 0 then mtx\<lparr>mtx_sem := False\<rparr> else mtx)"

subsection \<open>Atomic operations\<close>

definition ngx_atomic_cmp_set :: "u32 \<Rightarrow> u32 \<Rightarrow> u32 \<Rightarrow> u32 \<times> bool" where
  "ngx_atomic_cmp_set v old new = (if v = old then (new, True) else (v, False))"

definition ngx_atomic_fetch_add :: "u32 \<Rightarrow> u32 \<Rightarrow> u32 \<times> u32" where
  "ngx_atomic_fetch_add v add = (v + add, v)"

definition cmp_set_lock :: "shared \<Rightarrow> u32 \<Rightarrow> u32 \<Rightarrow> shared \<times> bool" where
  "cmp_set_lock s old new =
     (let (v, ok) = ngx_atomic_cmp_set (sh_lock s) old new in (s\<lparr>sh_lock := v\<rparr>, ok))"

definition add_wait :: "shared \<Rightarrow> u32 \<Rightarrow> shared" where
  "add_wait s d = s\<lparr>sh_wait := fst (ngx_atomic_fetch_add (sh_wait s) d)\<rparr>"

datatype sem_result = S_ok | S_eintr | S_error

definition SEM_VALUE_MAX :: nat where "SEM_VALUE_MAX = 2147483647"

subsection \<open>Processes\<close>

text \<open>
  Outside every function without and with the lock; then the accesses of \<open>ngx_shmtx_lock\<close>,
  \<open>ngx_shmtx_trylock\<close>, \<open>ngx_shmtx_unlock\<close>, \<open>ngx_shmtx_force_unlock\<close> and \<open>ngx_shmtx_wakeup\<close>.
\<close>

datatype pc =
    Idle | Held
  | L_test0 | L_cas0 | L_loop u64 | L_test u64 | L_cas u64
  | L_add | L_test2 | L_cas2 | L_sub | L_sem | L_yield
  | T_test | T_cas
  | U_cas
  | F_cas u32
  | W_read | W_cas u32 | W_post

text \<open>
  \<open>ngx_shmtx_lock\<close>: one turn is the first attempt (\<open>L_test0\<close>, \<open>L_cas0\<close>), the attempts of the spinning
  loop with its variable \<open>n\<close>, and then the semaphore with the attempt in between, or \<open>sched_yield\<close>.
  \<open>None\<close>: the process sleeps in \<open>sem_wait\<close>.
\<close>

fun lock_step :: "ngx_shmtx \<Rightarrow> sem_result \<Rightarrow> shared \<Rightarrow> pc \<Rightarrow> (shared \<times> pc) option" where
  "lock_step m r s L_test0 = Some (s, if sh_lock s = 0 then L_cas0 else L_loop 1)"
| "lock_step m r s L_cas0 =
     (let (s', ok) = cmp_set_lock s 0 1 in Some (s', if ok then Held else L_loop 1))"
| "lock_step m r s (L_loop n) =
     Some (s, if n < mtx_spin m then L_test n
              else if mtx_semaphore m \<noteq> 0 then L_add else L_yield)"
| "lock_step m r s (L_test n) = Some (s, if sh_lock s = 0 then L_cas n else L_loop (push_bit 1 n))"
| "lock_step m r s (L_cas n) =
     (let (s', ok) = cmp_set_lock s 0 1 in Some (s', if ok then Held else L_loop (push_bit 1 n)))"
| "lock_step m r s L_add = Some (add_wait s 1, L_test2)"
| "lock_step m r s L_test2 = Some (s, if sh_lock s = 0 then L_cas2 else L_sem)"
| "lock_step m r s L_cas2 =
     (let (s', ok) = cmp_set_lock s 0 1 in Some (s', if ok then L_sub else L_sem))"
| "lock_step m r s L_sub = Some (add_wait s (- 1), Held)"
| "lock_step m r s L_sem =
     (case r of
        S_ok \<Rightarrow> if 0 < sh_sem s then Some (s\<lparr>sh_sem := sh_sem s - 1\<rparr>, L_test0) else None
      | S_eintr \<Rightarrow> Some (s, L_sem)
      | S_error \<Rightarrow> Some (s, L_test0))"
| "lock_step m r s L_yield = Some (s, L_test0)"
| "lock_step m r s _ = None"

fun trylock_step :: "shared \<Rightarrow> pc \<Rightarrow> (shared \<times> pc) option" where
  "trylock_step s T_test = Some (s, if sh_lock s = 0 then T_cas else Idle)"
| "trylock_step s T_cas =
     (let (s', ok) = cmp_set_lock s 0 1 in Some (s', if ok then Held else Idle))"
| "trylock_step s _ = None"

fun unlock_step :: "shared \<Rightarrow> pc \<Rightarrow> (shared \<times> pc) option" where
  "unlock_step s U_cas =
     (let (s', ok) = cmp_set_lock s 1 0 in Some (s', if ok then W_read else Idle))"
| "unlock_step s _ = None"

fun force_unlock_step :: "shared \<Rightarrow> pc \<Rightarrow> (shared \<times> pc) option" where
  "force_unlock_step s (F_cas pid) =
     (let (s', ok) = cmp_set_lock s pid 0 in Some (s', if ok then W_read else Idle))"
| "force_unlock_step s _ = None"

fun wakeup_step :: "ngx_shmtx \<Rightarrow> shared \<Rightarrow> pc \<Rightarrow> (shared \<times> pc) option" where
  "wakeup_step m s W_read =
     Some (s, if mtx_semaphore m = 0 then Idle
              else if sint (sh_wait s) \<le> 0 then Idle else W_cas (sh_wait s))"
| "wakeup_step m s (W_cas w) =
     (let (v, ok) = ngx_atomic_cmp_set (sh_wait s) w (w - 1) in
      Some (s\<lparr>sh_wait := v\<rparr>, if ok then W_post else W_read))"
| "wakeup_step m s W_post =
     Some (if sh_sem s < SEM_VALUE_MAX then s\<lparr>sh_sem := Suc (sh_sem s)\<rparr> else s, Idle)"
| "wakeup_step m s _ = None"

text \<open>A step of a process inside a function\<close>

fun proc_step :: "ngx_shmtx \<Rightarrow> sem_result \<Rightarrow> shared \<Rightarrow> pc \<Rightarrow> (shared \<times> pc) option" where
  "proc_step m r s Idle = None"
| "proc_step m r s Held = None"
| "proc_step m r s T_test = trylock_step s T_test"
| "proc_step m r s T_cas = trylock_step s T_cas"
| "proc_step m r s U_cas = unlock_step s U_cas"
| "proc_step m r s (F_cas pid) = force_unlock_step s (F_cas pid)"
| "proc_step m r s W_read = wakeup_step m s W_read"
| "proc_step m r s (W_cas w) = wakeup_step m s (W_cas w)"
| "proc_step m r s W_post = wakeup_step m s W_post"
| "proc_step m r s pc = lock_step m r s pc"

subsection \<open>Executions\<close>

type_synonym world = "shared \<times> pc list"

text \<open>
  \<open>E\<close> are the results \<open>sem_wait\<close> may give, \<open>P\<close> the process ids \<open>ngx_shmtx_force_unlock\<close> may be called
  with.
\<close>

inductive step :: "ngx_shmtx \<Rightarrow> sem_result set \<Rightarrow> u32 set \<Rightarrow> world \<Rightarrow> world \<Rightarrow> bool"
  for m E P where
  call_lock: "i < length pcs \<Longrightarrow> pcs ! i = Idle \<Longrightarrow> step m E P (s, pcs) (s, pcs[i := L_test0])"
| call_trylock: "i < length pcs \<Longrightarrow> pcs ! i = Idle \<Longrightarrow> step m E P (s, pcs) (s, pcs[i := T_test])"
| call_unlock: "i < length pcs \<Longrightarrow> pcs ! i = Held \<Longrightarrow> step m E P (s, pcs) (s, pcs[i := U_cas])"
| call_force_unlock: "i < length pcs \<Longrightarrow> pcs ! i = Idle \<Longrightarrow> pid \<in> P \<Longrightarrow>
    step m E P (s, pcs) (s, pcs[i := F_cas pid])"
| inside: "i < length pcs \<Longrightarrow> r \<in> E \<Longrightarrow> proc_step m r s (pcs ! i) = Some (s', pc') \<Longrightarrow>
    step m E P (s, pcs) (s', pcs[i := pc'])"

text \<open>After \<open>ngx_shmtx_create\<close> on zeroed shared memory, \<open>n\<close> processes without the lock\<close>

definition init :: "nat \<Rightarrow> world" where
  "init n = (\<lparr>sh_lock = 0, sh_wait = 0, sh_sem = 0\<rparr>, replicate n Idle)"

inductive reachable :: "ngx_shmtx \<Rightarrow> sem_result set \<Rightarrow> u32 set \<Rightarrow> nat \<Rightarrow> world \<Rightarrow> bool"
  for m E P n where
  start: "reachable m E P n (init n)"
| next_step: "reachable m E P n w \<Longrightarrow> step m E P w w' \<Longrightarrow> reachable m E P n w'"

text \<open>Running the processes of a schedule, each one step inside its function\<close>

fun run :: "ngx_shmtx \<Rightarrow> nat list \<Rightarrow> world \<Rightarrow> world option" where
  "run m [] w = Some w"
| "run m (i # is) (s, pcs) =
     (if i < length pcs then
        (case proc_step m S_ok s (pcs ! i) of
           None \<Rightarrow> None
         | Some (s', pc') \<Rightarrow> run m is (s', pcs[i := pc']))
      else None)"

subsection \<open>Counting processes\<close>

definition procs :: "(pc \<Rightarrow> bool) \<Rightarrow> pc list \<Rightarrow> int" where
  "procs P pcs = (\<Sum>pc\<leftarrow>pcs. of_bool (P pc))"

lemma procs_update:
  "i < length pcs \<Longrightarrow> procs P (pcs[i := pc']) = procs P pcs - of_bool (P (pcs ! i)) + of_bool (P pc')"
proof (induction pcs arbitrary: i)
  case (Cons pc pcs)
  then show ?case by (cases i) (auto simp: procs_def)
qed simp

lemma procs_nonneg: "0 \<le> procs P pcs"
  and procs_le: "procs P pcs \<le> int (length pcs)"
  by (induction pcs) (auto simp: procs_def)

lemma procs_Cons: "procs P (pc # pcs) = of_bool (P pc) + procs P pcs"
  by (simp add: procs_def)

lemma procs_pos: "0 < procs P pcs \<longleftrightarrow> (\<exists>pc\<in>set pcs. P pc)"
proof (induction pcs)
  case (Cons pc pcs)
  then show ?case by (cases "P pc") (simp_all add: procs_Cons add_pos_nonneg procs_nonneg)
qed (simp add: procs_def)

lemma procs_pos_nth: "i < length pcs \<Longrightarrow> P (pcs ! i) \<Longrightarrow> 0 < procs P pcs"
  by (auto simp: procs_pos)

lemma procs_mono: "(\<And>pc. P pc \<Longrightarrow> Q pc) \<Longrightarrow> procs P pcs \<le> procs Q pcs"
  by (induction pcs) (auto simp: procs_def add_mono)


subsection \<open>Mutual exclusion\<close>

text \<open>A process that has the lock: it holds it, or is about to return from getting it or to give it back.\<close>

fun holder :: "pc \<Rightarrow> bool" where
  "holder Held \<longleftrightarrow> True"
| "holder L_sub \<longleftrightarrow> True"
| "holder U_cas \<longleftrightarrow> True"
| "holder _ \<longleftrightarrow> False"

lemmas atomic_defs = cmp_set_lock_def ngx_atomic_cmp_set_def add_wait_def ngx_atomic_fetch_add_def

text \<open>Processes that force the lock with the pid 1 are left out: 1 is the value of a lock that is held.\<close>

lemma proc_step_lock:
  assumes "proc_step m r s pc = Some (s', pc')" and "sh_lock s = 0 \<or> sh_lock s = 1" and "pc \<noteq> F_cas 1"
    and "holder pc \<Longrightarrow> sh_lock s = 1"
  shows "(sh_lock s' = 0 \<or> sh_lock s' = 1) \<and>
    uint (sh_lock s') - of_bool (holder pc') = uint (sh_lock s) - of_bool (holder pc)"
  using assms
  by (cases pc) (auto simp: atomic_defs Let_def split: if_splits sem_result.splits)

definition exclusive :: "world \<Rightarrow> bool" where
  "exclusive w \<longleftrightarrow> (sh_lock (fst w) = 0 \<or> sh_lock (fst w) = 1) \<and> procs holder (snd w) = uint (sh_lock (fst w)) \<and>
     F_cas 1 \<notin> set (snd w)"

lemma not_F_cas_1: "proc_step m r s pc = Some (s', pc') \<Longrightarrow> pc' \<noteq> F_cas 1"
  by (cases pc) (auto simp: atomic_defs Let_def split: if_splits sem_result.splits)

lemma exclusive_step:
  assumes "step m E P w w'" and "1 \<notin> P" and "exclusive w"
  shows "exclusive w'"
  using assms(1)
proof cases
  case (inside i pcs r s s' pc')
  have "pcs ! i \<noteq> F_cas 1"
    using inside(1,3) assms(3) unfolding exclusive_def by (metis nth_mem snd_conv)
  moreover have "sh_lock s = 1" if "holder (pcs ! i)"
  proof -
    have "0 < procs holder pcs" using procs_pos_nth [of i pcs holder] that inside by simp
    then show ?thesis using assms(3) inside by (auto simp: exclusive_def)
  qed
  ultimately show ?thesis
    using inside assms(3) proc_step_lock [of m r s "pcs ! i" s' pc'] not_F_cas_1 [of m r s "pcs ! i"]
    by (auto simp: exclusive_def procs_update dest: set_update_subset_insert [THEN subsetD])
qed (use assms(2,3) in \<open>auto simp: exclusive_def procs_update
    dest: set_update_subset_insert [THEN subsetD]\<close>)

lemma exclusive_reachable:
  "reachable m E P n w \<Longrightarrow> 1 \<notin> P \<Longrightarrow> exclusive w"
proof (induction rule: reachable.induct)
  case start
  have "procs holder (replicate n Idle) = 0" by (induction n) (simp_all add: procs_def)
  then show ?case by (auto simp: exclusive_def init_def)
qed (rule exclusive_step)

lemma step_length: "step m E P w w' \<Longrightarrow> length (snd w') = length (snd w)"
  by (induction rule: step.induct) simp_all

lemma reachable_length: "reachable m E P n w \<Longrightarrow> length (snd w) = n"
  by (induction rule: reachable.induct) (simp_all add: init_def step_length)


subsection \<open>The counter of waiting processes\<close>

text \<open>
  Processes that have announced themselves as waiting: those of them that may take that back
  (\<open>undecided\<close>), and those in \<open>sem_wait\<close>.
\<close>

fun undecided :: "pc \<Rightarrow> bool" where
  "undecided L_test2 \<longleftrightarrow> True"
| "undecided L_cas2 \<longleftrightarrow> True"
| "undecided L_sub \<longleftrightarrow> True"
| "undecided _ \<longleftrightarrow> False"

definition waiting :: "pc \<Rightarrow> bool" where
  "waiting pc \<longleftrightarrow> undecided pc \<or> pc = L_sem"

fun stale_read :: "pc \<Rightarrow> bool" where
  "stale_read (W_cas w) \<longleftrightarrow> sint w \<le> 0"
| "stale_read _ \<longleftrightarrow> False"

text \<open>Every wake-up the counter has been lowered for is in the semaphore or about to be posted there.\<close>

definition counted :: "world \<Rightarrow> bool" where
  "counted w \<longleftrightarrow>
     int (sh_sem (fst w)) + procs (\<lambda>pc. pc = W_post) (snd w) + sint (sh_wait (fst w)) =
       procs waiting (snd w) \<and>
     procs undecided (snd w) - int (length (snd w)) \<le> sint (sh_wait (fst w)) \<and>
     (\<forall>pc\<in>set (snd w). \<not> stale_read pc)"

lemma sint_plus: "- (2 ^ 31) \<le> sint (w :: u32) + sint d \<Longrightarrow> sint w + sint d < 2 ^ 31 \<Longrightarrow>
    sint (w + d) = sint w + sint d"
  by (simp add: signed_take_bit_int_eq_self sint_word_ariths)

lemma proc_step_counted:
  assumes "proc_step m r s pc = Some (s', pc')" and "r \<noteq> S_error" "mtx_semaphore m \<noteq> 0"
    and "- (2 ^ 30) < sint (sh_wait s)" "sint (sh_wait s) < 2 ^ 30" "sh_sem s < 2 ^ 30"
    and "\<not> stale_read pc"
  shows "int (sh_sem s') + of_bool (pc' = W_post) + sint (sh_wait s') - of_bool (waiting pc') =
      int (sh_sem s) + of_bool (pc = W_post) + sint (sh_wait s) - of_bool (waiting pc)"
    and "sint (sh_wait s) - of_bool (undecided pc) \<le> sint (sh_wait s') - of_bool (undecided pc') \<or>
      0 \<le> sint (sh_wait s') \<and> \<not> undecided pc'"
    and "\<not> stale_read pc'"
proof -
  have plus: "sint (sh_wait s + 1) = sint (sh_wait s) + 1"
    and minus: "sint (sh_wait s + - 1) = sint (sh_wait s) - 1"
    using assms(4,5) sint_plus [of "sh_wait s" 1] sint_plus [of "sh_wait s" "- 1"] by simp_all
  show "int (sh_sem s') + of_bool (pc' = W_post) + sint (sh_wait s') - of_bool (waiting pc') =
      int (sh_sem s) + of_bool (pc = W_post) + sint (sh_wait s) - of_bool (waiting pc)"
    using assms plus minus
    by (cases pc) (auto simp: atomic_defs Let_def waiting_def SEM_VALUE_MAX_def
        split: if_splits sem_result.splits)
  show "sint (sh_wait s) - of_bool (undecided pc) \<le> sint (sh_wait s') - of_bool (undecided pc') \<or>
      0 \<le> sint (sh_wait s') \<and> \<not> undecided pc'"
    using assms plus minus
    by (cases pc) (auto simp: atomic_defs Let_def split: if_splits sem_result.splits)
  show "\<not> stale_read pc'"
    using assms
    by (cases pc) (auto simp: atomic_defs Let_def split: if_splits sem_result.splits)
qed


lemma counted_bounds:
  assumes "counted (s, pcs)" and "length pcs < 2 ^ 29"
  shows "- (2 ^ 30) < sint (sh_wait s)" "sint (sh_wait s) < 2 ^ 30" "sh_sem s < 2 ^ 30"
proof -
  have "procs waiting pcs \<le> int (length pcs)" "0 \<le> procs undecided pcs"
    "0 \<le> procs (\<lambda>pc. pc = W_post) pcs"
    by (simp_all add: procs_le procs_nonneg)
  then show "- (2 ^ 30) < sint (sh_wait s)" "sint (sh_wait s) < 2 ^ 30" "sh_sem s < 2 ^ 30"
    using assms by (auto simp: counted_def)
qed

lemma procs_update_mem:
  "pc' \<in> set (pcs[i := pc]) \<Longrightarrow> pc' = pc \<or> pc' \<in> set pcs"
  using set_update_subset_insert by fastforce

lemma counted_call:
  assumes "counted (s, pcs)" "i < length pcs" "pcs ! i \<in> {Idle, Held}"
    and "pc' \<in> {L_test0, T_test, U_cas} \<or> (\<exists>pid. pc' = F_cas pid)"
  shows "counted (s, pcs[i := pc'])"
proof -
  have "\<not> waiting (pcs ! i)" "\<not> undecided (pcs ! i)" "pcs ! i \<noteq> W_post"
    "\<not> waiting pc'" "\<not> undecided pc'" "pc' \<noteq> W_post" "\<not> stale_read pc'"
    using assms(3,4) by (auto simp: waiting_def)
  then show ?thesis using assms(1,2) by (auto simp: counted_def procs_update dest!: procs_update_mem)
qed

lemma counted_step:
  assumes "step m E P w w'" and "S_error \<notin> E" "mtx_semaphore m \<noteq> 0" and "length (snd w) < 2 ^ 29"
    and "counted w"
  shows "counted w'"
  using assms(1)
proof cases
  case (inside i pcs r s s' pc')
  then have r: "r \<noteq> S_error" and counted: "counted (s, pcs)" using assms by auto
  have stale: "\<not> stale_read (pcs ! i)" using counted inside(3) by (simp add: counted_def)
  note bounds = counted_bounds [OF counted assms(4) [unfolded inside(1) snd_conv]]
  note step = proc_step_counted [OF inside(5) r assms(3) bounds stale]
  have "0 \<le> procs undecided (pcs[i := pc'])" "procs undecided (pcs[i := pc']) \<le> int (length pcs)"
    using procs_le [of undecided "pcs[i := pc']"] by (simp_all add: procs_nonneg)
  then have "procs undecided (pcs[i := pc']) - int (length pcs) \<le> sint (sh_wait s')"
    using step(2) counted inside(3) by (auto simp: counted_def procs_update)
  moreover have "int (sh_sem s') + procs (\<lambda>pc. pc = W_post) (pcs[i := pc']) + sint (sh_wait s') =
      procs waiting (pcs[i := pc'])"
    using step(1) counted inside(3) by (simp add: counted_def procs_update)
  ultimately show ?thesis using counted step(3)
    by (auto simp: counted_def inside(2) dest!: procs_update_mem)
qed (use assms(5) in \<open>auto intro!: counted_call\<close>)

lemma counted_reachable:
  "reachable m E P n w \<Longrightarrow> S_error \<notin> E \<Longrightarrow> mtx_semaphore m \<noteq> 0 \<Longrightarrow> n < 2 ^ 29 \<Longrightarrow> counted w"
proof (induction rule: reachable.induct)
  case start
  have "procs Q (replicate n Idle) = 0" if "\<not> Q Idle" for Q
    using that by (induction n) (simp_all add: procs_def)
  then show ?case by (auto simp: counted_def init_def waiting_def)
next
  case (next_step w w')
  then show ?case using counted_step [of m E P w w'] reachable_length [of m E P n w] by simp
qed

subsection \<open>No wake-up is lost\<close>

text \<open>A process that, when the lock is free, will try to get it or wake another one up\<close>

fun active :: "pc \<Rightarrow> bool" where
  "active Idle \<longleftrightarrow> False"
| "active Held \<longleftrightarrow> False"
| "active L_sem \<longleftrightarrow> False"
| "active L_sub \<longleftrightarrow> False"
| "active U_cas \<longleftrightarrow> False"
| "active (F_cas pid) \<longleftrightarrow> False"
| "active _ \<longleftrightarrow> True"

definition awake :: "world \<Rightarrow> bool" where
  "awake w \<longleftrightarrow>
     (sh_lock (fst w) = 0 \<and> L_sem \<in> set (snd w) \<longrightarrow>
        0 < sh_sem (fst w) \<or> (\<exists>pc\<in>set (snd w). active pc))"

lemma proc_step_active:
  assumes "proc_step m r s pc = Some (s', pc')" and "mtx_semaphore m \<noteq> 0" and "sh_lock s' = 0"
  shows "active pc \<Longrightarrow> active pc' \<or> 0 < sh_sem s' \<or> pc = W_read \<and> pc' = Idle \<and> sint (sh_wait s) \<le> 0"
    and "pc' = L_sem \<Longrightarrow> pc = L_sem \<and> s' = s"
    and "sh_lock s \<noteq> 0 \<Longrightarrow> active pc'"
    and "sh_sem s \<le> sh_sem s' \<or> active pc'"
  using assms
  by (cases pc; auto simp: atomic_defs Let_def SEM_VALUE_MAX_def split: if_splits sem_result.splits)+


lemma awake_call:
  assumes "awake (s, pcs)" "i < length pcs" "pcs ! i \<in> {Idle, Held}" "pc' \<noteq> L_sem"
  shows "awake (s, pcs[i := pc'])"
proof -
  have "\<exists>pc\<in>set (pcs[i := pc']). active pc" if "pc \<in> set pcs" "active pc" for pc
  proof -
    have "pc \<noteq> pcs ! i" using that(2) assms(3) by auto
    then have "pc \<in> set (pcs[i := pc'])" using that(1) assms(2)
      by (metis in_set_conv_nth length_list_update nth_list_update_neq)
    then show ?thesis using that(2) by blast
  qed
  then show ?thesis using assms(1,4) by (auto simp: awake_def dest!: procs_update_mem)
qed

lemma set_update_keep: "pc \<in> set pcs \<Longrightarrow> pc \<noteq> pcs ! i \<Longrightarrow> pc \<in> set (pcs[i := pc'])"
  by (metis in_set_conv_nth length_list_update nth_list_update_neq)

lemma sleeper_has_wakeup:
  assumes "counted (s, pcs)" "L_sem \<in> set pcs" "sint (sh_wait s) \<le> 0"
  shows "0 < sh_sem s \<or> W_post \<in> set pcs"
proof -
  have "0 < procs waiting pcs" using assms(2) by (auto simp: procs_pos waiting_def)
  then have "0 < int (sh_sem s) \<or> 0 < procs (\<lambda>pc. pc = W_post) pcs"
    using assms(1,3) by (auto simp: counted_def)
  then show ?thesis by (auto simp: procs_pos)
qed

lemma awake_step:
  assumes "step m E P w w'" and "mtx_semaphore m \<noteq> 0" and "counted w" "awake w"
  shows "awake w'"
  using assms(1)
proof cases
  case (inside i pcs r s s' pc')
  show ?thesis
  proof (cases "sh_lock s' = 0 \<and> L_sem \<in> set (pcs[i := pc'])")
    case False
    then show ?thesis using inside(2) by (auto simp: awake_def)
  next
    case True
    note act = proc_step_active [OF inside(5) assms(2) True [THEN conjunct1]]
    have new: "pc' \<in> set (pcs[i := pc'])" using inside(3) by (rule set_update_memI)
    have sleeper: "L_sem \<in> set pcs"
    proof (cases "pc' = L_sem")
      case True
      then show ?thesis using act(2) inside(3) by (metis nth_mem)
    next
      case False
      then show ?thesis using True by (auto dest: procs_update_mem)
    qed
    consider "active pc'" | "sh_lock s = 0" "sh_sem s \<le> sh_sem s'" "\<not> active pc'"
      using act(3,4) by blast
    then have "0 < sh_sem s' \<or> (\<exists>pc\<in>set (pcs[i := pc']). active pc)"
    proof cases
      case 1
      then show ?thesis using new by blast
    next
      case 2
      then consider "0 < sh_sem s" | pc where "pc \<in> set pcs" "active pc" "pc \<noteq> pcs ! i"
        | "active (pcs ! i)"
        using assms(4) sleeper inside(1) by (auto simp: awake_def)
      then show ?thesis
      proof cases
        case 1
        then show ?thesis using 2 by simp
      next
        case (2 pc)
        then show ?thesis using set_update_keep by metis
      next
        case 3
        then consider "0 < sh_sem s'" | "pcs ! i = W_read" "sint (sh_wait s) \<le> 0"
          using act(1) \<open>\<not> active pc'\<close> by auto
        then show ?thesis
        proof cases
          case 2
          then have "0 < sh_sem s \<or> W_post \<in> set pcs"
            using sleeper_has_wakeup sleeper assms(3) inside(1) by simp
          moreover have "W_post \<in> set (pcs[i := pc'])" if "W_post \<in> set pcs"
            using set_update_keep that 2(1) by (metis pc.distinct)
          ultimately show ?thesis using \<open>sh_sem s \<le> sh_sem s'\<close> by fastforce
        qed blast
      qed
    qed
    then show ?thesis using inside(2) by (simp add: awake_def)
  qed
qed (use assms(4) in \<open>auto intro!: awake_call\<close>)

lemma awake_reachable:
  "reachable m E P n w \<Longrightarrow> S_error \<notin> E \<Longrightarrow> mtx_semaphore m \<noteq> 0 \<Longrightarrow> n < 2 ^ 29 \<Longrightarrow> awake w"
proof (induction rule: reachable.induct)
  case start
  then show ?case by (simp add: awake_def init_def)
next
  case (next_step w w')
  then show ?case using awake_step [of m E P w w'] counted_reachable [of m E P n w] by simp
qed


subsection \<open>Progress\<close>

text \<open>A process runs alone for some steps.\<close>

fun solo :: "ngx_shmtx \<Rightarrow> nat \<Rightarrow> shared \<Rightarrow> pc \<Rightarrow> (shared \<times> pc) option" where
  "solo m 0 s pc = Some (s, pc)"
| "solo m (Suc k) s pc =
     (case proc_step m S_ok s pc of None \<Rightarrow> None | Some (s', pc') \<Rightarrow> solo m k s' pc')"

lemma run_append: "run m (is @ js) w = Option.bind (run m is w) (run m js)"
  by (induction m "is" w rule: run.induct) (auto split: option.split)

lemma run_solo:
  "i < length pcs \<Longrightarrow> solo m k s (pcs ! i) = Some (s', pc') \<Longrightarrow>
    run m (replicate k i) (s, pcs) = Some (s', pcs[i := pc'])"
  by (induction k arbitrary: s pcs) (auto split: option.splits)

text \<open>Whoever tries to get a free lock alone gets it.\<close>

fun trying :: "pc \<Rightarrow> bool" where
  "trying W_read \<longleftrightarrow> False"
| "trying (W_cas w) \<longleftrightarrow> False"
| "trying W_post \<longleftrightarrow> False"
| "trying pc \<longleftrightarrow> active pc"

lemma cas_free: "sh_lock s = 0 \<Longrightarrow> cmp_set_lock s 0 1 = (s\<lparr>sh_lock := 1\<rparr>, True)"
  by (simp add: atomic_defs)

fun attempts :: "ngx_shmtx \<Rightarrow> pc \<Rightarrow> nat" where
  "attempts m L_test0 = Suc (Suc 0)"
| "attempts m L_cas0 = Suc 0"
| "attempts m (L_loop n) =
     (if n < mtx_spin m then Suc (Suc (Suc 0)) else Suc (Suc (Suc (Suc (Suc 0)))))"
| "attempts m (L_test n) = Suc (Suc 0)"
| "attempts m (L_cas n) = Suc 0"
| "attempts m L_add = Suc (Suc (Suc (Suc 0)))"
| "attempts m L_test2 = Suc (Suc (Suc 0))"
| "attempts m L_cas2 = Suc (Suc 0)"
| "attempts m L_yield = Suc (Suc (Suc 0))"
| "attempts m T_test = Suc (Suc 0)"
| "attempts m _ = Suc 0"

lemma solo_acquires:
  assumes "trying pc" "sh_lock s = 0" "mtx_semaphore m \<noteq> 0"
  shows "attempts m pc \<le> 5 \<and> (\<exists>s'. solo m (attempts m pc) s pc = Some (s', Held))"
  using assms by (cases pc) (simp_all add: cas_free add_wait_def)

lemma solo_sleeper:
  assumes "sh_lock s = 0" "0 < sh_sem s"
  shows "\<exists>s'. solo m 3 s L_sem = Some (s', Held)"
  using assms by (simp add: numeral_3_eq_3 cas_free)

lemma run_sleeper:
  assumes "i < length pcs" "pcs ! i = L_sem" "sh_lock s = 0" "0 < sh_sem s"
  shows "\<exists>s' pcs'. run m (replicate 3 i) (s, pcs) = Some (s', pcs') \<and> Held \<in> set pcs'"
proof -
  obtain s' where "solo m 3 s L_sem = Some (s', Held)" using solo_sleeper [OF assms(3,4)] by blast
  then show ?thesis using run_solo [of i pcs m 3 s s' Held] assms(1,2) by (auto intro: set_update_memI)
qed

text \<open>A process about to post wakes the sleeper up.\<close>

lemma run_waker:
  assumes "i < length pcs" "pcs ! i = L_sem" "sh_lock s = 0" "j < length pcs" "i \<noteq> j"
    and "solo m k s (pcs ! j) = Some (s', pc')" "sh_lock s' = 0" "0 < sh_sem s'"
  shows "\<exists>s'' pcs'. run m (replicate k j @ replicate 3 i) (s, pcs) = Some (s'', pcs') \<and> Held \<in> set pcs'"
  using run_solo [OF assms(4,6)] run_sleeper [of i "pcs[j := pc']" s' m] assms
  by (simp add: run_append)

lemma solo_post: "\<exists>s' pc'. solo m 1 s W_post = Some (s', pc') \<and> sh_lock s' = sh_lock s \<and> 0 < sh_sem s'"
  by (simp add: SEM_VALUE_MAX_def)

lemma solo_wakeup:
  assumes "0 < sint (sh_wait s)" "mtx_semaphore m \<noteq> 0" and "pc = W_read \<or> (\<exists>w. pc = W_cas w)"
  shows "\<exists>k\<le>4. \<exists>s' pc'. solo m k s pc = Some (s', pc') \<and> sh_lock s' = sh_lock s \<and> 0 < sh_sem s'"
proof -
  have cas: "\<exists>s'. solo m 2 s (W_cas (sh_wait s)) = Some (s', Idle) \<and> sh_lock s' = sh_lock s \<and> 0 < sh_sem s'"
    by (simp add: numeral_2_eq_2 ngx_atomic_cmp_set_def SEM_VALUE_MAX_def)
  have read: "solo m (Suc k) s W_read = solo m k s (W_cas (sh_wait s))" for k
    using assms(1,2) by simp
  have retry: "solo m (Suc k) s (W_cas w) = solo m k s W_read" if "w \<noteq> sh_wait s" for k w
    using that by (simp add: ngx_atomic_cmp_set_def)
  consider "pc = W_read" | "pc = W_cas (sh_wait s)" | w where "pc = W_cas w" "w \<noteq> sh_wait s"
    using assms(3) by blast
  then have "\<exists>k\<le>4. solo m k s pc = solo m 2 s (W_cas (sh_wait s))"
  proof cases
    case 1
    show ?thesis by (rule exI [of _ "Suc 2"]) (simp only: 1 read, simp)
  next
    case 2
    show ?thesis by (rule exI [of _ 2]) (simp only: 2, simp)
  next
    case 3
    show ?thesis by (rule exI [of _ "Suc (Suc 2)"]) (simp only: 3(1) retry [OF 3(2)] read, simp)
  qed
  then show ?thesis using cas by metis
qed

text \<open>
  \<open>served m s pcs\<close>: a few steps lead to a process inside the mutex.  A posted semaphore and a process
  about to post it are such situations.
\<close>

definition served :: "ngx_shmtx \<Rightarrow> shared \<Rightarrow> pc list \<Rightarrow> bool" where
  "served m s pcs \<longleftrightarrow>
     (\<exists>is s' pcs'. length is \<le> 7 \<and> run m is (s, pcs) = Some (s', pcs') \<and> Held \<in> set pcs')"

lemma served_sem:
  assumes "i < length pcs" "pcs ! i = L_sem" "sh_lock s = 0" "0 < sh_sem s" shows "served m s pcs"
  using run_sleeper [OF assms, of m] unfolding served_def by (intro exI [of _ "replicate 3 i"]) simp

lemma served_waker:
  assumes "i < length pcs" "pcs ! i = L_sem" "sh_lock s = 0"
    and "j < length pcs" "pcs ! j \<noteq> L_sem" "solo m k s (pcs ! j) = Some (s', pc')"
    and "sh_lock s' = sh_lock s" "0 < sh_sem s'" "k \<le> 4"
  shows "served m s pcs"
proof -
  have "i \<noteq> j" using assms(2,5) by auto
  then show ?thesis
    using run_waker [OF assms(1-4) _ assms(6)] assms(3,7-9) unfolding served_def
    by (intro exI [of _ "replicate k j @ replicate 3 i"]) simp
qed

lemma served_post:
  assumes "i < length pcs" "pcs ! i = L_sem" "sh_lock s = 0" "W_post \<in> set pcs" shows "served m s pcs"
proof -
  obtain j where j: "j < length pcs" "pcs ! j = W_post" using assms(4) by (auto simp: in_set_conv_nth)
  obtain s' pc' where "solo m 1 s W_post = Some (s', pc')" "sh_lock s' = sh_lock s" "0 < sh_sem s'"
    using solo_post by blast
  then show ?thesis using served_waker [OF assms(1-3), of j m 1 s' pc'] j by (simp del: solo.simps)
qed

lemma served_trying:
  assumes "sh_lock s = 0" "mtx_semaphore m \<noteq> 0" "j < length pcs" "trying (pcs ! j)" shows "served m s pcs"
proof -
  obtain k s' where "k \<le> 5" "solo m k s (pcs ! j) = Some (s', Held)"
    using solo_acquires [OF assms(4,1,2)] by blast
  then show ?thesis using run_solo [OF assms(3), of m k s s' Held] assms(3) unfolding served_def
    by (intro exI [of _ "replicate k j"]) (auto intro: set_update_memI)
qed

lemma progress:
  assumes "counted (s, pcs)" "awake (s, pcs)" "mtx_semaphore m \<noteq> 0"
    and "sh_lock s = 0" "L_sem \<in> set pcs"
  shows "served m s pcs"
proof -
  obtain i where i: "i < length pcs" "pcs ! i = L_sem" using assms(5) by (auto simp: in_set_conv_nth)
  consider "0 < sh_sem s" | j where "j < length pcs" "active (pcs ! j)"
    using assms(2,4,5) by (auto simp: awake_def in_set_conv_nth)
  then show ?thesis
  proof cases
    case 1
    then show ?thesis by (rule served_sem [OF i assms(4)])
  next
    case (2 j)
    then consider (trying) "trying (pcs ! j)" | (post) "W_post \<in> set pcs"
      | (wake) "pcs ! j = W_read \<or> (\<exists>w. pcs ! j = W_cas w)"
      by (cases "pcs ! j") (auto dest: nth_mem)
    then show ?thesis
    proof cases
      case trying
      then show ?thesis by (rule served_trying [OF assms(4,3) 2(1)])
    next
      case post
      then show ?thesis by (rule served_post [OF i assms(4)])
    next
      case wake
      show ?thesis
      proof (cases "0 < sint (sh_wait s)")
        case True
        then obtain k s' pc' where "k \<le> 4" "solo m k s (pcs ! j) = Some (s', pc')"
          "sh_lock s' = sh_lock s" "0 < sh_sem s'"
          using solo_wakeup [OF True assms(3) wake] by blast
        then show ?thesis using served_waker [OF i assms(4) 2(1), of m k s' pc'] wake by auto
      next
        case False
        then show ?thesis
          using sleeper_has_wakeup [OF assms(1,5)] served_sem [OF i assms(4)] served_post [OF i assms(4)] by auto
      qed
    qed
  qed
qed


subsection \<open>Forced unlocking\<close>

text \<open>
  \<open>ngx_shmtx_force_unlock\<close> compares the lock with the pid of its argument, but a lock that is held has
  the value 1 whoever holds it: the function changes nothing for any other pid, and with the pid 1 it opens
  the lock of whoever has it.
\<close>

lemma force_unlock_useless:
  "sh_lock s = 1 \<Longrightarrow> pid \<noteq> 1 \<Longrightarrow> proc_step m r s (F_cas pid) = Some (s, Idle)"
  by (simp add: atomic_defs)

lemma force_unlock_pid_1:
  "sh_lock s = 1 \<Longrightarrow> \<exists>pc'. proc_step m r s (F_cas 1) = Some (s\<lparr>sh_lock := 0\<rparr>, pc')"
  by (simp add: atomic_defs)

subsection \<open>Properties\<close>

lemma two_holders:
  assumes "i < length pcs" "j < length pcs" "P (pcs ! i)" "P (pcs ! j)" "procs P pcs \<le> 1" "\<not> P Idle"
  shows "i = j"
proof (rule ccontr)
  assume "i \<noteq> j"
  then have "0 < procs P (pcs[i := Idle])" using assms procs_pos_nth [of j "pcs[i := Idle]" P] by simp
  then show False using assms by (simp add: procs_update)
qed

text \<open>
  C8: Mutual exclusion.  In every interleaving of any number of processes that lock, try to lock and
  unlock, and force an unlock with pids other than 1, at most one process has the lock, whatever
  \<open>sem_wait\<close> returns and whether there is a semaphore or not; while one has it the lock word is 1.
  A forced unlock for the pid 1 is excluded: it opens the lock of whoever has it
  (\<open>force_unlock_pid_1\<close>).
\<close>

theorem ngx_shmtx_mutual_exclusion:
  assumes "reachable m E P n (s, pcs)" "1 \<notin> P"
    and "i < n" "j < n" "holder (pcs ! i)" "holder (pcs ! j)"
  shows "i = j \<and> sh_lock s = 1"
proof -
  have "exclusive (s, pcs)" "length pcs = n"
    using exclusive_reachable [OF assms(1,2)] reachable_length [OF assms(1)] by simp_all
  moreover from this have "0 < procs holder pcs" using assms(3,5) procs_pos_nth by simp
  ultimately show ?thesis using two_holders [of i pcs j holder] assms(3-6)
    by (auto simp: exclusive_def)
qed

text \<open>An execution of two processes: the first gets the lock, the second goes to sleep.\<close>

definition mtx0 :: ngx_shmtx where
  "mtx0 = fst (ngx_shmtx_create True
     \<lparr>mtx_lock = 0, mtx_wait = 0, mtx_semaphore = 0, mtx_sem = False, mtx_spin = 0\<rparr> 0x1000)"

lemma reachable_run:
  "reachable m E P n w \<Longrightarrow> run m is w = Some w' \<Longrightarrow> S_ok \<in> E \<Longrightarrow> reachable m E P n w'"
proof (induction m "is" w rule: run.induct)
  case (2 m i "is" s pcs)
  then obtain s' pc' where step: "i < length pcs" "proc_step m S_ok s (pcs ! i) = Some (s', pc')"
    and rest: "run m is (s', pcs[i := pc']) = Some w'"
    by (auto split: if_splits option.splits)
  from step "2.prems"(3) have "step m E P (s, pcs) (s', pcs[i := pc'])" by (intro step.inside)
  then have "reachable m E P n (s', pcs[i := pc'])" using "2.prems"(1) by (rule reachable.next_step [rotated])
  then show ?case using "2.IH" [OF step refl] rest "2.prems"(3) by simp
qed simp

lemma asleep_reachable:
  "reachable mtx0 {S_ok} P 2 (\<lparr>sh_lock = 1, sh_wait = 1, sh_sem = 0\<rparr>, [Held, L_sem])"
proof -
  have "step mtx0 {S_ok} P (init 2) (fst (init 2), [L_test0, Idle])"
    using step.call_lock [of 0 "[Idle, Idle]" mtx0 "{S_ok}" P "fst (init 2)"]
    by (simp add: init_def numeral_2_eq_2)
  moreover have "step mtx0 {S_ok} P (fst (init 2), [L_test0, Idle]) (fst (init 2), [L_test0, L_test0])"
    using step.call_lock [of 1 "[L_test0, Idle]" mtx0 "{S_ok}" P "fst (init 2)"] by simp
  ultimately have "reachable mtx0 {S_ok} P 2 (fst (init 2), [L_test0, L_test0])"
    by (meson reachable.start reachable.next_step)
  moreover have "run mtx0 ([0, 0] @ replicate 26 1) (fst (init 2), [L_test0, L_test0]) =
      Some (\<lparr>sh_lock = 1, sh_wait = 1, sh_sem = 0\<rparr>, [Held, L_sem])"
    by code_simp
  ultimately show ?thesis by (rule reachable_run) simp_all
qed

text \<open>
  The first process inside, the second asleep, with forced unlocks for the pid 42 possible: the state is
  reachable, and the first process is the only one that has the lock.
\<close>

lemma ngx_shmtx_mutual_exclusion_witness:
  "\<exists>s. reachable mtx0 {S_ok} {42} 2 (s, [Held, L_sem]) \<and> sh_lock s = 1 \<and>
    {j. j < 2 \<and> holder ([Held, L_sem] ! j)} = {0}"
proof (intro exI conjI)
  let ?s = "\<lparr>sh_lock = 1, sh_wait = 1, sh_sem = 0\<rparr> :: shared"
  show r: "reachable mtx0 {S_ok} {42} 2 (?s, [Held, L_sem])" by (rule asleep_reachable)
  have first: "i = 0 \<and> sh_lock ?s = 1" if "i < 2" "holder ([Held, L_sem] ! i)" for i
    using ngx_shmtx_mutual_exclusion [OF r, of i 0] that by simp
  show "sh_lock ?s = 1" using first [of 0] by simp
  show "{j. j < 2 \<and> holder ([Held, L_sem] ! j)} = {0}" using first by auto
qed

text \<open>
  C9: No wake-up is lost.  In every interleaving of fewer than \<open>2 ^ 29\<close> processes in which
  \<open>sem_wait\<close> fails with \<open>EINTR\<close> only: whenever the lock is free and a process sleeps in
  \<open>ngx_shmtx_lock\<close>, the processes already inside the functions can reach, by at most seven steps and
  without any new call, a state in which one of them has got the lock.
\<close>

theorem ngx_shmtx_no_lost_wakeup:
  assumes "reachable m E P n (s, pcs)" "S_error \<notin> E" "mtx_semaphore m \<noteq> 0" "n < 2 ^ 29"
    and "sh_lock s = 0" "L_sem \<in> set pcs"
  shows "\<exists>is s' pcs'. length is \<le> 7 \<and> run m is (s, pcs) = Some (s', pcs') \<and> Held \<in> set pcs'"
  using progress [OF counted_reachable [OF assms(1-4)] awake_reachable [OF assms(1-4)] assms(3,5,6)]
  unfolding served_def .


lemma ngx_shmtx_no_lost_wakeup_witness:
  "\<exists>is s' pcs'. length is \<le> 7 \<and>
    run mtx0 is (\<lparr>sh_lock = 0, sh_wait = 1, sh_sem = 0\<rparr>, [W_read, L_sem]) = Some (s', pcs') \<and>
    Held \<in> set pcs'"
proof (rule ngx_shmtx_no_lost_wakeup)
  have "step mtx0 {S_ok} {} (\<lparr>sh_lock = 1, sh_wait = 1, sh_sem = 0\<rparr>, [Held, L_sem])
      (\<lparr>sh_lock = 1, sh_wait = 1, sh_sem = 0\<rparr>, [U_cas, L_sem])"
    using step.call_unlock [of 0 "[Held, L_sem]" mtx0 "{S_ok}" "{}"] by simp
  then have "reachable mtx0 {S_ok} {} 2 (\<lparr>sh_lock = 1, sh_wait = 1, sh_sem = 0\<rparr>, [U_cas, L_sem])"
    by (rule reachable.next_step [OF asleep_reachable])
  moreover have "run mtx0 [0] (\<lparr>sh_lock = 1, sh_wait = 1, sh_sem = 0\<rparr>, [U_cas, L_sem]) =
      Some (\<lparr>sh_lock = 0, sh_wait = 1, sh_sem = 0\<rparr>, [W_read, L_sem])"
    by code_simp
  ultimately show "reachable mtx0 {S_ok} {} 2 (\<lparr>sh_lock = 0, sh_wait = 1, sh_sem = 0\<rparr>, [W_read, L_sem])"
    by (rule reachable_run) simp
qed (simp_all add: mtx0_def ngx_shmtx_create_def Let_def)

end
