(* ===== verification/Shmem.thy ===== *)
theory Shmem imports Shmtx begin

text \<open>
  The shared memory region of \<open>src/ngx/ngx_shmem.c\<close>.  The kernel's two calls are parameters over an
  abstract kernel state: \<open>mmap\<close> gives the address of a fresh anonymous shared mapping of a size or
  \<open>MAP_FAILED\<close>, \<open>munmap\<close> gives 0 or -1.  The log lines are left out.
\<close>

text \<open>\<open>ngx_shm_t\<close>; the name is its length and its address.\<close>

record ngx_shm =
  shm_addr :: u64
  shm_size :: u64
  shm_name :: "u64 \<times> u64"
  shm_exists :: u64

definition MAP_FAILED :: u64 where "MAP_FAILED = - 1"

definition ngx_shm_alloc :: "('k \<Rightarrow> u64 \<Rightarrow> u64 \<times> 'k) \<Rightarrow> 'k \<Rightarrow> ngx_shm \<Rightarrow> int \<times> 'k \<times> ngx_shm" where
  "ngx_shm_alloc mmap k shm =
     (let (addr, k) = mmap k (shm_size shm);
          shm = shm\<lparr>shm_addr := addr\<rparr>
      in if shm_addr shm = MAP_FAILED then (NGX_ERROR, k, shm) else (NGX_OK, k, shm))"

definition ngx_shm_free :: "('k \<Rightarrow> u64 \<Rightarrow> u64 \<Rightarrow> int \<times> 'k) \<Rightarrow> 'k \<Rightarrow> ngx_shm \<Rightarrow> 'k" where
  "ngx_shm_free munmap k shm = snd (munmap k (shm_addr shm) (shm_size shm))"

text \<open>
  With a kernel that takes back what it gave, a region that was allocated and freed leaves the kernel
  state as it was; the size and the name of the region are not changed by the allocation.
\<close>

lemma ngx_shm_alloc_free:
  assumes "\<And>k n a k'. mmap k n = (a, k') \<Longrightarrow> a \<noteq> MAP_FAILED \<Longrightarrow> munmap k' a n = (0, k)"
    and "ngx_shm_alloc mmap k shm = (NGX_OK, k', shm')"
  shows "ngx_shm_free munmap k' shm' = k" "shm' = shm\<lparr>shm_addr := shm_addr shm'\<rparr>"
    "shm_addr shm' \<noteq> MAP_FAILED"
proof -
  obtain a k1 where m: "mmap k (shm_size shm) = (a, k1)" by force
  then have r: "a \<noteq> MAP_FAILED" "k' = k1" "shm' = shm\<lparr>shm_addr := a\<rparr>"
    using assms(2) by (auto simp: ngx_shm_alloc_def Let_def NGX_OK_def NGX_ERROR_def split: if_splits)
  then show "shm' = shm\<lparr>shm_addr := shm_addr shm'\<rparr>" "shm_addr shm' \<noteq> MAP_FAILED" by simp_all
  show "ngx_shm_free munmap k' shm' = k" using r assms(1) [OF m r(1)] by (simp add: ngx_shm_free_def)
qed

text \<open>A failed allocation is reported, and the region then has the address \<open>MAP_FAILED\<close>.\<close>

lemma ngx_shm_alloc_error:
  "ngx_shm_alloc mmap k shm = (NGX_ERROR, k', shm') \<longleftrightarrow>
     mmap k (shm_size shm) = (MAP_FAILED, k') \<and> shm' = shm\<lparr>shm_addr := MAP_FAILED\<rparr>"
  by (auto simp: ngx_shm_alloc_def Let_def NGX_OK_def NGX_ERROR_def split: prod.splits)

end
