(* ===== verification/Ngxlist.thy ===== *)
theory Ngxlist imports Palloc begin

text \<open>
  The list of \<open>ngx/ngx_list.c\<close> and \<open>ngx/ngx_list.h\<close>: a chain of parts, each with room for the same
  number of elements in pool memory.  \<open>ls_parts\<close> are the parts in the order of their \<open>next\<close> pointers,
  the first of them being the \<open>part\<close> inside the \<open>ngx_list_t\<close> and the last the one the field \<open>last\<close>
  points to.  As for arrays \<open>lp_slots\<close> is what the element slots of a part hold, and \<open>fresh\<close> what newly
  obtained memory reads as.
\<close>

record 'a ngx_list_part =
  lp_self :: u64
  lp_elts :: u64
  lp_nelts :: u64
  lp_slots :: "'a list"

record 'a ngx_list =
  ls_parts :: "'a ngx_list_part list"
  ls_size :: u64
  ls_nalloc :: u64

definition sizeof_list :: u64 where "sizeof_list = 56"
definition sizeof_list_part :: u64 where "sizeof_list_part = 24"
definition offset_list_part :: u64 where "offset_list_part = 8"

subsection \<open>Operations\<close>

definition ngx_list_init ::
  "calloc_fn \<Rightarrow> sysheap \<Rightarrow> ngx_pool \<Rightarrow> u64 \<Rightarrow> u64 \<Rightarrow> u64 \<Rightarrow> 'a \<Rightarrow>
     int \<times> 'a ngx_list \<times> sysheap \<times> ngx_pool" where
  "ngx_list_init f h p self n sz fresh =
     (let (m, h1, p1) = ngx_palloc f h p (n * sz) in
      if m = 0 then (NGX_ERROR, \<lparr>ls_parts = [], ls_size = 0, ls_nalloc = 0\<rparr>, h1, p1)
      else (NGX_OK,
            \<lparr>ls_parts = [\<lparr>lp_self = self + offset_list_part, lp_elts = m, lp_nelts = 0,
                          lp_slots = replicate (unat n) fresh\<rparr>],
             ls_size = sz, ls_nalloc = n\<rparr>, h1, p1))"

definition ngx_list_create ::
  "calloc_fn \<Rightarrow> sysheap \<Rightarrow> ngx_pool \<Rightarrow> u64 \<Rightarrow> u64 \<Rightarrow> 'a \<Rightarrow>
     'a ngx_list option \<times> sysheap \<times> ngx_pool" where
  "ngx_list_create f h p n sz fresh =
     (let (self, h1, p1) = ngx_palloc f h p sizeof_list in
      if self = 0 then (None, h1, p1)
      else
        let (rc, l, h2, p2) = ngx_list_init f h1 p1 self n sz fresh in
        if rc \<noteq> NGX_OK then (None, h2, p2) else (Some l, h2, p2))"

text \<open>\<open>elt = last->elts + l->size * last->nelts; last->nelts++\<close>\<close>

definition take_elt :: "'a ngx_list \<Rightarrow> u64 \<times> 'a ngx_list" where
  "take_elt l =
     (let q = last (ls_parts l) in
      (lp_elts q + ls_size l * lp_nelts q,
       l\<lparr>ls_parts := butlast (ls_parts l) @ [q\<lparr>lp_nelts := lp_nelts q + 1\<rparr>]\<rparr>))"

text \<open>The address of the new element, 0 for NULL, and the heap, the pool and the list afterwards.\<close>

definition ngx_list_push ::
  "calloc_fn \<Rightarrow> sysheap \<Rightarrow> ngx_pool \<Rightarrow> 'a ngx_list \<Rightarrow> 'a \<Rightarrow>
     u64 \<times> sysheap \<times> ngx_pool \<times> 'a ngx_list" where
  "ngx_list_push f h p l fresh =
     (if lp_nelts (last (ls_parts l)) = ls_nalloc l then
        let (self, h1, p1) = ngx_palloc f h p sizeof_list_part in
        if self = 0 then (0, h1, p1, l)
        else
          let (m, h2, p2) = ngx_palloc f h1 p1 (ls_nalloc l * ls_size l) in
          if m = 0 then (0, h2, p2, l)
          else
            let (e, l') = take_elt (l\<lparr>ls_parts := ls_parts l @
                  [\<lparr>lp_self = self, lp_elts = m, lp_nelts = 0,
                    lp_slots = replicate (unat (ls_nalloc l)) fresh\<rparr>]\<rparr>)
            in (e, h2, p2, l')
      else let (e, l') = take_elt l in (e, h, p, l'))"

subsection \<open>The elements and their addresses\<close>

definition part_list :: "'a ngx_list_part \<Rightarrow> 'a list" where
  "part_list q = take (unat (lp_nelts q)) (lp_slots q)"

definition list_list :: "'a ngx_list \<Rightarrow> 'a list" where
  "list_list l = concat (map part_list (ls_parts l))"

definition part_addrs :: "u64 \<Rightarrow> 'a ngx_list_part \<Rightarrow> nat list" where
  "part_addrs sz q = map (\<lambda>i. unat (lp_elts q) + unat sz * i) [0..<unat (lp_nelts q)]"

definition list_addrs :: "'a ngx_list \<Rightarrow> nat list" where
  "list_addrs l = concat (map (part_addrs (ls_size l)) (ls_parts l))"

text \<open>Storing through the pointer a push has returned\<close>

definition store_elt :: "'a ngx_list \<Rightarrow> 'a \<Rightarrow> 'a ngx_list" where
  "store_elt l x =
     (let q = last (ls_parts l) in
      l\<lparr>ls_parts := butlast (ls_parts l) @
          [q\<lparr>lp_slots := (lp_slots q)[unat (lp_nelts q) - 1 := x]\<rparr>]\<rparr>)"

subsection \<open>The invariant\<close>

definition part_region :: "'a ngx_list \<Rightarrow> 'a ngx_list_part \<Rightarrow> nat set" where
  "part_region l q = span (lp_elts q) (ls_nalloc l * ls_size l)"

text \<open>
  The memory of a list besides the \<open>ngx_list_t\<close>, in the order it was allocated: the elements of
  the first part, then every further part with its elements
\<close>

definition regions :: "'a ngx_list \<Rightarrow> nat set list" where
  "regions l = part_region l (hd (ls_parts l)) #
     concat (map (\<lambda>q. [span (lp_self q) sizeof_list_part, part_region l q]) (tl (ls_parts l)))"

definition part_ok :: "'a ngx_list \<Rightarrow> 'a ngx_list_part \<Rightarrow> bool" where
  "part_ok l q \<longleftrightarrow> lp_elts q \<noteq> 0 \<and> length (lp_slots q) = unat (ls_nalloc l) \<and>
     unat (lp_nelts q) \<le> unat (ls_nalloc l) \<and>
     unat (lp_elts q) + unat (ls_size l) * unat (ls_nalloc l) < 2 ^ 64"

definition disjoint_sets :: "nat set list \<Rightarrow> bool" where
  "disjoint_sets = sorted_wrt (\<lambda>A B. A \<inter> B = {})"

definition list_ok :: "nat set \<Rightarrow> 'a ngx_list \<Rightarrow> bool" where
  "list_ok U l \<longleftrightarrow> ls_parts l \<noteq> [] \<and> 0 < unat (ls_size l) \<and> 0 < unat (ls_nalloc l) \<and>
     list_all (part_ok l) (ls_parts l) \<and>
     list_all (\<lambda>q. lp_nelts q = ls_nalloc l) (butlast (ls_parts l)) \<and>
     \<Union> (set (regions l)) \<subseteq> U \<and> disjoint_sets (regions l)"

lemma regions_snoc:
  "ls_parts l \<noteq> [] \<Longrightarrow> regions (l\<lparr>ls_parts := ls_parts l @ [q]\<rparr>) =
    regions l @ [span (lp_self q) sizeof_list_part, part_region l q]"
  by (cases "ls_parts l") (simp_all add: regions_def part_region_def)

lemma regions_last:
  "ls_parts l = ps @ [q] \<Longrightarrow> lp_self q' = lp_self q \<Longrightarrow> lp_elts q' = lp_elts q \<Longrightarrow>
    regions (l\<lparr>ls_parts := ps @ [q']\<rparr>) = regions l"
  by (cases ps) (simp_all add: regions_def part_region_def)

lemma part_ok_cong [simp]: "part_ok (l\<lparr>ls_parts := ps\<rparr>) = part_ok l"
  by (simp add: part_ok_def fun_eq_iff)

lemma list_ok_size:
  assumes "list_ok U l"
  shows "unat (ls_nalloc l * ls_size l) = unat (ls_nalloc l) * unat (ls_size l)"
proof -
  obtain q where "part_ok l q" using assms by (cases "ls_parts l") (auto simp: list_ok_def)
  then show ?thesis by (subst unat_mult_u64) (auto simp: part_ok_def mult.commute)
qed

lemma slot_addr:
  assumes "part_ok l q" "unat i \<le> unat (ls_nalloc l)"
  shows "unat (lp_elts q + ls_size l * i) = unat (lp_elts q) + unat (ls_size l) * unat i"
proof -
  have "unat (ls_size l) * unat i \<le> unat (ls_size l) * unat (ls_nalloc l)" using assms(2) by simp
  then have lt: "unat (lp_elts q) + unat (ls_size l) * unat i < 2 ^ 64"
    using assms(1) unfolding part_ok_def by linarith
  then have "unat (ls_size l * i) = unat (ls_size l) * unat i" by (subst unat_mult_u64) auto
  then show ?thesis using lt by (subst unat_add_u64) auto
qed

subsection \<open>Taking a slot of the last part\<close>

lemma take_elt_snoc:
  "ls_parts l = ps @ [q] \<Longrightarrow>
    take_elt l = (lp_elts q + ls_size l * lp_nelts q, l\<lparr>ls_parts := ps @ [q\<lparr>lp_nelts := lp_nelts q + 1\<rparr>]\<rparr>)"
  by (simp add: take_elt_def Let_def)

lemma take_elt_post:
  assumes ok: "list_ok U l" and parts: "ls_parts l = ps @ [q]" and free: "lp_nelts q \<noteq> ls_nalloc l"
    and take: "take_elt l = (e, l')"
  shows "list_ok U l'" "regions l' = regions l" "e \<noteq> 0"
    "list_list (store_elt l' x) = list_list l @ [x]"
    "list_addrs l' = list_addrs l @ [unat e]"
    "ls_size l' = ls_size l" "ls_nalloc l' = ls_nalloc l"
    "{unat e ..< unat e + unat (ls_size l)} \<subseteq> part_region l q"
proof -
  define q' where "q' = q\<lparr>lp_nelts := lp_nelts q + 1\<rparr>"
  have l': "l' = l\<lparr>ls_parts := ps @ [q']\<rparr>" and e: "e = lp_elts q + ls_size l * lp_nelts q"
    using take by (simp_all add: take_elt_snoc [OF parts] q'_def)
  have q: "part_ok l q" using ok by (simp add: list_ok_def parts)
  have less: "unat (lp_nelts q) < unat (ls_nalloc l)"
    using q free by (simp add: part_ok_def word_unat_eq_iff)
  then have n: "unat (lp_nelts q') = Suc (unat (lp_nelts q))"
    using unat_lt_u64 [of "ls_nalloc l"] by (simp add: q'_def unat_add_u64)
  have ue: "unat e = unat (lp_elts q) + unat (ls_size l) * unat (lp_nelts q)"
    using slot_addr [OF q] less by (simp add: e)
  show regs: "regions l' = regions l" unfolding l' by (rule regions_last [OF parts]) (simp_all add: q'_def)
  have "part_ok l q'" using q n less by (simp add: part_ok_def q'_def)
  then show "list_ok U l'" using ok regs parts by (simp add: list_ok_def l')
  show "ls_size l' = ls_size l" "ls_nalloc l' = ls_nalloc l" by (simp_all add: l')
  have "unat (ls_size l) * Suc (unat (lp_nelts q)) \<le> unat (ls_size l) * unat (ls_nalloc l)"
    using less by (intro mult_le_mono2) simp
  then show "{unat e ..< unat e + unat (ls_size l)} \<subseteq> part_region l q"
    using list_ok_size [OF ok] by (auto simp: part_region_def span_def ue mult.commute)
  show "e \<noteq> 0" using ue q by (auto simp: part_ok_def unat_eq_0 [symmetric])
  have "part_list (q'\<lparr>lp_slots := (lp_slots q')[unat (lp_nelts q') - 1 := x]\<rparr>) = part_list q @ [x]"
    using less q n by (simp add: part_list_def part_ok_def q'_def take_Suc_conv_app_nth)
  then show "list_list (store_elt l' x) = list_list l @ [x]"
    by (simp add: list_list_def store_elt_def l' parts Let_def)
  have "part_addrs (ls_size l) q' = part_addrs (ls_size l) q @ [unat e]"
    using n ue by (simp add: part_addrs_def q'_def)
  then show "list_addrs l' = list_addrs l @ [unat e]" by (simp add: list_addrs_def l' parts)
qed

subsection \<open>A new part\<close>

lemma disjoint_sets_snoc2:
  "disjoint_sets (As @ [B, C]) \<longleftrightarrow>
    disjoint_sets As \<and> B \<inter> C = {} \<and> (\<forall>A\<in>set As. A \<inter> B = {} \<and> A \<inter> C = {})"
  by (auto simp: disjoint_sets_def sorted_wrt_append)

lemma add_part_post:
  assumes ok: "list_ok U l" and full: "lp_nelts (last (ls_parts l)) = ls_nalloc l"
    and q: "lp_elts q \<noteq> 0" "lp_nelts q = 0" "length (lp_slots q) = unat (ls_nalloc l)"
      "unat (lp_elts q) + unat (ls_nalloc l * ls_size l) < 2 ^ 64"
    and new: "span (lp_self q) sizeof_list_part \<inter> U = {}" "part_region l q \<inter> U = {}"
      "part_region l q \<inter> span (lp_self q) sizeof_list_part = {}"
      "U \<subseteq> V" "span (lp_self q) sizeof_list_part \<subseteq> V" "part_region l q \<subseteq> V"
  shows "list_ok V (l\<lparr>ls_parts := ls_parts l @ [q]\<rparr>)"
    "list_list (l\<lparr>ls_parts := ls_parts l @ [q]\<rparr>) = list_list l"
    "list_addrs (l\<lparr>ls_parts := ls_parts l @ [q]\<rparr>) = list_addrs l"
proof -
  have ne: "ls_parts l \<noteq> []" and U: "\<Union> (set (regions l)) \<subseteq> U" using ok by (auto simp: list_ok_def)
  have "part_ok l q" using q list_ok_size [OF ok] by (simp add: part_ok_def mult.commute)
  moreover have "list_all (\<lambda>q. lp_nelts q = ls_nalloc l) (ls_parts l)"
    using ok full ne by (cases "ls_parts l" rule: rev_cases) (auto simp: list_ok_def)
  moreover have "disjoint_sets (regions (l\<lparr>ls_parts := ls_parts l @ [q]\<rparr>))"
    using ok U new unfolding regions_snoc [OF ne] disjoint_sets_snoc2 list_ok_def by blast
  moreover have "\<Union> (set (regions (l\<lparr>ls_parts := ls_parts l @ [q]\<rparr>))) \<subseteq> V"
    using U new unfolding regions_snoc [OF ne] by auto
  ultimately show "list_ok V (l\<lparr>ls_parts := ls_parts l @ [q]\<rparr>)"
    using ok ne by (simp add: list_ok_def)
  show "list_list (l\<lparr>ls_parts := ls_parts l @ [q]\<rparr>) = list_list l"
    "list_addrs (l\<lparr>ls_parts := ls_parts l @ [q]\<rparr>) = list_addrs l"
    using q(2) by (simp_all add: list_list_def list_addrs_def part_list_def part_addrs_def)
qed


lemma list_ok_mono: "list_ok U l \<Longrightarrow> U \<subseteq> V \<Longrightarrow> list_ok V l"
  by (auto simp: list_ok_def)

subsection \<open>Properties\<close>

definition list_memory :: "'a ngx_list \<Rightarrow> nat set" where
  "list_memory l = \<Union> (set (regions l))"

text \<open>What a push that does not return NULL promises\<close>

definition list_push_post ::
  "sysheap \<Rightarrow> ngx_pool \<Rightarrow> 'a ngx_list \<Rightarrow> 'a \<Rightarrow> u64 \<Rightarrow> sysheap \<Rightarrow> ngx_pool \<Rightarrow> 'a ngx_list \<Rightarrow> bool" where
  "list_push_post h p l x e h' p' l' \<longleftrightarrow> list_ok (pool_used (live h') p') l' \<and>
     list_list (store_elt l' x) = list_list l @ [x] \<and> list_addrs l' = list_addrs l @ [unat e] \<and>
     {unat e ..< unat e + unat (ls_size l)} \<subseteq> list_memory l' \<and>
     list_memory l' \<inter> (pool_used (live h) p - list_memory l) = {} \<and>
     pool_used (live h) p \<subseteq> pool_used (live h') p'"

lemma push_new_part:
  assumes f: "calloc_ok f" and h: "heap_ok h" and p: "pool_ok (live h) p"
    and l: "list_ok (pool_used (live h) p) l" and full: "lp_nelts (last (ls_parts l)) = ls_nalloc l"
    and self: "ngx_palloc f h p sizeof_list_part = (self, h1, p1)" "self \<noteq> 0"
    and elts: "ngx_palloc f h1 p1 (ls_nalloc l * ls_size l) = (m, h2, p2)" "m \<noteq> 0"
    and take: "take_elt (l\<lparr>ls_parts := ls_parts l @ [\<lparr>lp_self = self, lp_elts = m, lp_nelts = 0,
      lp_slots = replicate (unat (ls_nalloc l)) fresh\<rparr>]\<rparr>) = (e, l')"
  shows "heap_ok h2 \<and> pool_ok (live h2) p2 \<and> e \<noteq> 0 \<and> list_push_post h p l x e h2 p2 l'"
proof -
  define q where "q = \<lparr>lp_self = self, lp_elts = m, lp_nelts = 0,
    lp_slots = replicate (unat (ls_nalloc l)) fresh\<rparr>"
  define l1 where "l1 = l\<lparr>ls_parts := ls_parts l @ [q]\<rparr>"
  have 1: "heap_ok h1" "pool_ok (live h1) p1" "pool_used (live h) p \<subseteq> pool_used (live h1) p1"
    "span self sizeof_list_part \<inter> pool_used (live h) p = {}"
    "span self sizeof_list_part \<subseteq> pool_used (live h1) p1"
    using alloc_post_palloc [OF f h p self(1)] self(2) by (auto simp: alloc_post_def)
  have 2: "heap_ok h2" "pool_ok (live h2) p2" "pool_used (live h1) p1 \<subseteq> pool_used (live h2) p2"
    "part_region l q \<inter> pool_used (live h1) p1 = {}" "part_region l q \<subseteq> pool_used (live h2) p2"
    using alloc_post_palloc [OF f 1(1,2) elts(1)] elts(2)
    by (auto simp: alloc_post_def part_region_def q_def)
  have add: "list_ok (pool_used (live h2) p2) l1" "list_list l1 = list_list l" "list_addrs l1 = list_addrs l"
    using 1 2 palloc_no_wrap [OF f 1(1,2) elts] elts(2) unfolding l1_def
    by (intro add_part_post [OF l full]; auto simp: q_def)+
  have nz: "0 \<noteq> ls_nalloc l" using l by (auto simp: list_ok_def)
  note slot = take_elt_post [of "pool_used (live h2) p2" l1 "ls_parts l" q e l']
  have mem: "list_memory l1 = list_memory l \<union> span self sizeof_list_part \<union> part_region l q"
    using l by (auto simp: list_memory_def l1_def regions_snoc list_ok_def q_def)
  have "list_push_post h p l x e h2 p2 l' \<and> e \<noteq> 0"
    using slot add take nz mem 1(3-5) 2(3-5)
    by (auto simp: list_push_post_def list_memory_def l1_def q_def part_region_def)
  then show ?thesis using 2(1,2) by simp
qed

lemma list_create_post:
  assumes f: "calloc_ok f" and h: "heap_ok h" and p: "pool_ok (live h) p"
    and s: "sz \<noteq> 0" "n \<noteq> 0" "unat sz * unat n < 2 ^ 64"
    and r: "ngx_list_create f h p n sz fresh = (Some l, h', p')"
  shows "heap_ok h' \<and> pool_ok (live h') p' \<and> list_ok (pool_used (live h') p') l \<and> list_list l = []"
proof -
  obtain self h1 p1 where 1: "ngx_palloc f h p sizeof_list = (self, h1, p1)" by (metis prod_cases3)
  obtain m h2 p2 where 2: "ngx_palloc f h1 p1 (n * sz) = (m, h2, p2)" by (metis prod_cases3)
  have m: "m \<noteq> 0" and st: "h' = h2" "p' = p2"
    and l: "l = \<lparr>ls_parts = [\<lparr>lp_self = self + offset_list_part, lp_elts = m, lp_nelts = 0,
      lp_slots = replicate (unat n) fresh\<rparr>], ls_size = sz, ls_nalloc = n\<rparr>"
    using r 1 2 by (auto simp: ngx_list_create_def ngx_list_init_def NGX_OK_def NGX_ERROR_def
      Let_def split: if_splits)
  have ok1: "heap_ok h1" "pool_ok (live h1) p1"
    using alloc_post_palloc [OF f h p 1] by (auto simp: alloc_post_def)
  have ok2: "heap_ok h2" "pool_ok (live h2) p2" "span m (n * sz) \<subseteq> pool_used (live h2) p2"
    using alloc_post_palloc [OF f ok1 2] m by (auto simp: alloc_post_def)
  have "unat (n * sz) = unat sz * unat n" using s(3) by (subst unat_mult_u64) (auto simp: mult.commute)
  then have "unat m + unat sz * unat n < 2 ^ 64" using palloc_no_wrap [OF f ok1 2 m] by simp
  then show ?thesis using ok2 m s
    by (simp add: st l list_ok_def part_ok_def regions_def part_region_def disjoint_sets_def
        list_list_def part_list_def unat_gt_0)
qed

text \<open>A list with room for one 16-byte element in every part, with one element in it, in the 256-byte pool\<close>

definition list_run :: "nat ngx_list \<times> sysheap \<times> ngx_pool" where
  "list_run = (case ngx_list_create bump_calloc (snd pool256) (fst pool256) 1 16 0 of
     (Some l, h, p) \<Rightarrow> (case ngx_list_push bump_calloc h p l 0 of (e, h', p', l') \<Rightarrow> (store_elt l' 5, h', p')))"

lemma store_elt_ok: "list_ok U l \<Longrightarrow> list_ok U (store_elt l x)"
proof -
  assume ok: "list_ok U l"
  then obtain ps q where parts: "ls_parts l = ps @ [q]"
    by (cases "ls_parts l" rule: rev_cases) (auto simp: list_ok_def)
  define q' where "q' = q\<lparr>lp_slots := (lp_slots q)[unat (lp_nelts q) - 1 := x]\<rparr>"
  have l': "store_elt l x = l\<lparr>ls_parts := ps @ [q']\<rparr>" by (simp add: store_elt_def parts q'_def Let_def)
  have "regions (l\<lparr>ls_parts := ps @ [q']\<rparr>) = regions l"
    by (rule regions_last [OF parts]) (simp_all add: q'_def)
  moreover have "part_ok l q'" using ok by (simp add: list_ok_def parts part_ok_def q'_def)
  ultimately show ?thesis using ok by (simp add: list_ok_def l' parts)
qed

text \<open>
  With no room in a part (\<open>nalloc = 0\<close>) a part that holds one element is never full again: every
  further push steps on through memory that is not the list's.
\<close>

lemma push_without_room:
  assumes "ls_nalloc l = 0" "lp_nelts (last (ls_parts l)) \<noteq> 0"
  shows "fst (ngx_list_push f h p l fresh) =
      lp_elts (last (ls_parts l)) + ls_size l * lp_nelts (last (ls_parts l)) \<and>
    fst (snd (ngx_list_push f h p l fresh)) = h"
  using assms by (simp add: ngx_list_push_def take_elt_def Let_def)

text \<open>
  C21: A push to a list either returns NULL and leaves the list as it is, or gives the address of a new
  element at its end: storing there appends to the elements of the list, no element moves (their
  addresses stay what they were, unlike in an array), the element lies in memory of the list, and what
  the list has grown by was not handed out to anyone before.
\<close>

theorem ngx_list_push_correct:
  assumes "calloc_ok f" "heap_ok h" "pool_ok (live h) p" "list_ok (pool_used (live h) p) l"
    and "ngx_list_push f h p l fresh = (e, h', p', l')"
  shows "heap_ok h' \<and> pool_ok (live h') p' \<and>
    (if e = 0 then l' = l
     else list_ok (pool_used (live h') p') l' \<and>
       list_list (store_elt l' x) = list_list l @ [x] \<and> list_addrs l' = list_addrs l @ [unat e] \<and>
       {unat e ..< unat e + unat (ls_size l)} \<subseteq> list_memory l' \<and>
       list_memory l' \<inter> (pool_used (live h) p - list_memory l) = {} \<and>
       pool_used (live h) p \<subseteq> pool_used (live h') p')"
proof -
  have ne: "ls_parts l \<noteq> []" using assms(4) by (simp add: list_ok_def)
  then obtain ps q where parts: "ls_parts l = ps @ [q]" by (cases "ls_parts l" rule: rev_cases) auto
  show ?thesis
  proof (cases "lp_nelts q = ls_nalloc l")
    case False
    obtain e1 l1 where take: "take_elt l = (e1, l1)" by fastforce
    have "part_region l q \<subseteq> list_memory l"
      unfolding list_memory_def regions_def using parts by (cases ps) auto
    then show ?thesis
      using take_elt_post [OF assms(4) parts False take] assms(2,3,5) False take parts
      by (auto simp: ngx_list_push_def list_memory_def)
  next
    case True
    obtain self h1 p1 where 1: "ngx_palloc f h p sizeof_list_part = (self, h1, p1)"
      by (metis prod_cases3)
    obtain m h2 p2 where 2: "ngx_palloc f h1 p1 (ls_nalloc l * ls_size l) = (m, h2, p2)"
      by (metis prod_cases3)
    have ok1: "heap_ok h1" "pool_ok (live h1) p1"
      using alloc_post_palloc [OF assms(1-3) 1] by (auto simp: alloc_post_def)
    then have ok2: "heap_ok h2" "pool_ok (live h2) p2"
      using alloc_post_palloc [OF assms(1) _ _ 2] by (auto simp: alloc_post_def)
    show ?thesis
    proof (cases "self = 0 \<or> m = 0")
      case null: True
      then show ?thesis using assms(5) True parts 1 2 ok1 ok2
        by (auto simp: ngx_list_push_def split: if_splits)
    next
      case False
      then have "take_elt (l\<lparr>ls_parts := ls_parts l @ [\<lparr>lp_self = self, lp_elts = m, lp_nelts = 0,
          lp_slots = replicate (unat (ls_nalloc l)) fresh\<rparr>]\<rparr>) = (e, l')" and "h' = h2" "p' = p2"
        using assms(5) True parts 1 2 by (auto simp: ngx_list_push_def split: prod.splits)
      with push_new_part [OF assms(1-4) _ 1 _ 2 _ this(1), of x] False True parts
      show ?thesis by (simp add: list_push_post_def)
    qed
  qed
qed


lemma list_run_ok:
  "heap_ok (fst (snd list_run))" "pool_ok (live (fst (snd list_run))) (snd (snd list_run))"
  "list_ok (pool_used (live (fst (snd list_run))) (snd (snd list_run))) (fst list_run)"
proof -
  obtain o1 h p where c: "ngx_list_create bump_calloc (snd pool256) (fst pool256) 1 16 (0::nat) = (o1, h, p)"
    by (metis prod_cases3)
  have "fst (ngx_list_create bump_calloc (snd pool256) (fst pool256) 1 16 (0::nat)) \<noteq> None" by code_simp
  then obtain l where o1: "o1 = Some l" using c by auto
  obtain e h' p' l' where u: "ngx_list_push bump_calloc h p l 0 = (e, h', p', l')" by (metis prod_cases4)
  have run: "list_run = (store_elt l' 5, h', p')" by (simp add: list_run_def c o1 u)
  have ok: "heap_ok h" "pool_ok (live h) p" "list_ok (pool_used (live h) p) l"
    using list_create_post [OF bump_calloc_ok pool256_ok _ _ _ c [unfolded o1]] by simp_all
  obtain q where "ls_parts l = [] @ [q]" "lp_nelts q \<noteq> ls_nalloc l"
    using c o1 by (auto simp: ngx_list_create_def ngx_list_init_def NGX_OK_def NGX_ERROR_def Let_def
        split: prod.splits if_splits)
  moreover from this have "h' = h" "p' = p" "take_elt l = (e, l')"
    using u by (auto simp: ngx_list_push_def split: prod.splits)
  ultimately show "heap_ok (fst (snd list_run))" "pool_ok (live (fst (snd list_run))) (snd (snd list_run))"
    "list_ok (pool_used (live (fst (snd list_run))) (snd (snd list_run))) (fst list_run)"
    using ok take_elt_post(1) [OF ok(3)] by (simp_all add: run store_elt_ok)
qed

lemma ngx_list_push_correct_witness:
  "let (l, h, p) = list_run; (e, h', p', l') = ngx_list_push bump_calloc h p l 0
   in e = 0x10b0 \<and> list_list (store_elt l' 7) = [5, 7] \<and> list_addrs l' = [4232, 4272]"
proof -
  obtain l h p where r: "list_run = (l, h, p)" by (metis prod_cases3)
  obtain e h' p' l' where u: "ngx_list_push bump_calloc h p l 0 = (e, h', p', l')" by (metis prod_cases4)
  have "(let (l, h, p) = list_run in fst (ngx_list_push bump_calloc h p l 0)) = 0x10b0"
    "list_list (fst list_run) = [5]" by code_simp+
  then have e: "e = 0x10b0" and five: "list_list l = [5]" by (simp_all add: r u)
  have ok: "heap_ok h" "pool_ok (live h) p" "list_ok (pool_used (live h) p) l"
    using list_run_ok by (simp_all add: r)
  have "(\<lambda>q. (lp_elts q, lp_nelts q)) (hd (ls_parts (fst list_run))) = (0x1088, 1)"
    "length (ls_parts (fst list_run)) = 1" "ls_size (fst list_run) = 16" by code_simp+
  then have "list_addrs l = [4232]"
    by (cases "ls_parts l") (simp_all add: r list_addrs_def part_addrs_def)
  then show ?thesis
    using ngx_list_push_correct [OF bump_calloc_ok ok u] e five by (simp add: r u)
qed

end
