(* ===== verification/Rbtree.thy ===== *)
theory Rbtree imports Prelude "HOL-Library.Monad_Syntax" begin

text \<open>
  The red-black tree of \<open>ngx/ngx_rbtree.c\<close> and \<open>ngx/ngx_rbtree.h\<close>, as the code has it: nodes in a heap
  linked by \<open>left\<close>, \<open>right\<close> and \<open>parent\<close> pointers, one black sentinel node for every empty subtree.
  A heap maps the addresses of the allocated nodes to their contents; a load from or a store to any
  other address, NULL (0) among them, makes the result \<open>None\<close>.  The loops are partial functions:
  a loop that does not end is \<open>None\<close> too.  What the functions do to the tree is proved in the
  theories \<open>Rbheap\<close>, \<open>Rbinsert\<close> and \<open>Rbdelete\<close>.
\<close>

record ngx_rbtree_node =
  rb_key :: u64
  rb_left :: u64
  rb_right :: u64
  rb_parent :: u64
  rb_color :: u8
  rb_data :: u8

text \<open>
  A node embedded at the start of a larger structure is a record that extends \<open>ngx_rbtree_node\<close>: the cast
  between the two pointers is the identity.
\<close>

type_synonym 'a rbheap = "u64 \<Rightarrow> 'a ngx_rbtree_node_scheme option"

record 'a ngx_rbtree =
  t_root :: u64
  t_sentinel :: u64
  t_insert :: "'a rbheap \<Rightarrow> u64 \<Rightarrow> u64 \<Rightarrow> u64 \<Rightarrow> 'a rbheap option"

subsection \<open>Loads and stores\<close>

definition ld :: "'a rbheap \<Rightarrow> ('a ngx_rbtree_node_scheme \<Rightarrow> 'b) \<Rightarrow> u64 \<Rightarrow> 'b option" where
  "ld h f p = map_option f (h p)"

definition st ::
  "'a rbheap \<Rightarrow> u64 \<Rightarrow> ('a ngx_rbtree_node_scheme \<Rightarrow> 'a ngx_rbtree_node_scheme) \<Rightarrow> 'a rbheap option" where
  "st h p f = (case h p of None \<Rightarrow> None | Some n \<Rightarrow> Some (h(p \<mapsto> f n)))"

definition set_left :: "u64 \<Rightarrow> 'a ngx_rbtree_node_scheme \<Rightarrow> 'a ngx_rbtree_node_scheme" where
  "set_left v n = n\<lparr>rb_left := v\<rparr>"
definition set_right :: "u64 \<Rightarrow> 'a ngx_rbtree_node_scheme \<Rightarrow> 'a ngx_rbtree_node_scheme" where
  "set_right v n = n\<lparr>rb_right := v\<rparr>"
definition set_parent :: "u64 \<Rightarrow> 'a ngx_rbtree_node_scheme \<Rightarrow> 'a ngx_rbtree_node_scheme" where
  "set_parent v n = n\<lparr>rb_parent := v\<rparr>"
definition set_color :: "u8 \<Rightarrow> 'a ngx_rbtree_node_scheme \<Rightarrow> 'a ngx_rbtree_node_scheme" where
  "set_color v n = n\<lparr>rb_color := v\<rparr>"

text \<open>The macros on colors\<close>

definition ngx_rbt_red :: "'a rbheap \<Rightarrow> u64 \<Rightarrow> 'a rbheap option" where
  "ngx_rbt_red h p = st h p (set_color 1)"

definition ngx_rbt_black :: "'a rbheap \<Rightarrow> u64 \<Rightarrow> 'a rbheap option" where
  "ngx_rbt_black h p = st h p (set_color 0)"

definition ngx_rbt_is_red :: "'a rbheap \<Rightarrow> u64 \<Rightarrow> bool option" where
  "ngx_rbt_is_red h p = ld h (\<lambda>n. rb_color n \<noteq> 0) p"

definition ngx_rbt_is_black :: "'a rbheap \<Rightarrow> u64 \<Rightarrow> bool option" where
  "ngx_rbt_is_black h p = map_option Not (ngx_rbt_is_red h p)"

definition ngx_rbt_copy_color :: "'a rbheap \<Rightarrow> u64 \<Rightarrow> u64 \<Rightarrow> 'a rbheap option" where
  "ngx_rbt_copy_color h p q = do { c \<leftarrow> ld h rb_color q; st h p (set_color c) }"

definition ngx_rbtree_sentinel_init :: "'a rbheap \<Rightarrow> u64 \<Rightarrow> 'a rbheap option" where
  "ngx_rbtree_sentinel_init h p = ngx_rbt_black h p"

definition ngx_rbtree_init ::
  "'a rbheap \<Rightarrow> u64 \<Rightarrow> ('a rbheap \<Rightarrow> u64 \<Rightarrow> u64 \<Rightarrow> u64 \<Rightarrow> 'a rbheap option) \<Rightarrow>
     ('a rbheap \<times> 'a ngx_rbtree) option" where
  "ngx_rbtree_init h s i =
     do { h \<leftarrow> ngx_rbtree_sentinel_init h s;
          Some (h, \<lparr>t_root = s, t_sentinel = s, t_insert = i\<rparr>) }"

subsection \<open>Rotations\<close>

text \<open>
  \<open>temp\<close> takes the place of \<open>node\<close> in the root or in the parent, which the code tests for one of its
  children.  The result is the heap and the root; the root is a field of the tree, outside the nodes.
\<close>

definition relink_left :: "'a rbheap \<Rightarrow> u64 \<Rightarrow> u64 \<Rightarrow> u64 \<Rightarrow> ('a rbheap \<times> u64) option" where
  "relink_left h root node temp =
     (if node = root then Some (h, temp)
      else do {
        np \<leftarrow> ld h rb_parent node;
        npl \<leftarrow> ld h rb_left np;
        h \<leftarrow> (if node = npl then st h np (set_left temp) else st h np (set_right temp));
        Some (h, root) })"

definition relink_right :: "'a rbheap \<Rightarrow> u64 \<Rightarrow> u64 \<Rightarrow> u64 \<Rightarrow> ('a rbheap \<times> u64) option" where
  "relink_right h root node temp =
     (if node = root then Some (h, temp)
      else do {
        np \<leftarrow> ld h rb_parent node;
        npr \<leftarrow> ld h rb_right np;
        h \<leftarrow> (if node = npr then st h np (set_right temp) else st h np (set_left temp));
        Some (h, root) })"

definition ngx_rbtree_left_rotate ::
  "'a rbheap \<Rightarrow> u64 \<Rightarrow> u64 \<Rightarrow> u64 \<Rightarrow> ('a rbheap \<times> u64) option" where
  "ngx_rbtree_left_rotate h root sentinel node =
     do {
       temp \<leftarrow> ld h rb_right node;
       tl \<leftarrow> ld h rb_left temp;
       h \<leftarrow> st h node (set_right tl);
       tl \<leftarrow> ld h rb_left temp;
       h \<leftarrow> (if tl \<noteq> sentinel then st h tl (set_parent node) else Some h);
       np \<leftarrow> ld h rb_parent node;
       h \<leftarrow> st h temp (set_parent np);
       (h, root) \<leftarrow> relink_left h root node temp;
       h \<leftarrow> st h temp (set_left node);
       h \<leftarrow> st h node (set_parent temp);
       Some (h, root)
     }"

definition ngx_rbtree_right_rotate ::
  "'a rbheap \<Rightarrow> u64 \<Rightarrow> u64 \<Rightarrow> u64 \<Rightarrow> ('a rbheap \<times> u64) option" where
  "ngx_rbtree_right_rotate h root sentinel node =
     do {
       temp \<leftarrow> ld h rb_left node;
       tr \<leftarrow> ld h rb_right temp;
       h \<leftarrow> st h node (set_left tr);
       tr \<leftarrow> ld h rb_right temp;
       h \<leftarrow> (if tr \<noteq> sentinel then st h tr (set_parent node) else Some h);
       np \<leftarrow> ld h rb_parent node;
       h \<leftarrow> st h temp (set_parent np);
       (h, root) \<leftarrow> relink_right h root node temp;
       h \<leftarrow> st h temp (set_right node);
       h \<leftarrow> st h node (set_parent temp);
       Some (h, root)
     }"

subsection \<open>Insertion\<close>

text \<open>
  The three functions a tree may have as its \<open>insert\<close> walk down with one loop; they differ in the test
  \<open>node < temp\<close>, the argument \<open>below\<close> here.  The loop gives the last node and which of its pointers \<open>p\<close>
  points to.
\<close>

definition child :: "'a rbheap \<Rightarrow> bool \<Rightarrow> u64 \<Rightarrow> u64 option" where
  "child h b p = ld h (if b then rb_left else rb_right) p"

partial_function (option) descend ::
  "('a rbheap \<Rightarrow> u64 \<Rightarrow> u64 \<Rightarrow> bool option) \<Rightarrow> 'a rbheap \<Rightarrow> u64 \<Rightarrow> u64 \<Rightarrow> u64 \<Rightarrow>
     (u64 \<times> bool) option" where
  "descend below h temp node sentinel =
     do {
       b \<leftarrow> below h node temp;
       c \<leftarrow> child h b temp;
       if c = sentinel then Some (temp, b) else descend below h c node sentinel
     }"

definition attach :: "'a rbheap \<Rightarrow> u64 \<times> bool \<Rightarrow> u64 \<Rightarrow> u64 \<Rightarrow> 'a rbheap option" where
  "attach h p node sentinel =
     do {
       let (temp, b) = p;
       h \<leftarrow> st h temp (if b then set_left node else set_right node);
       h \<leftarrow> st h node (set_parent temp);
       h \<leftarrow> st h node (set_left sentinel);
       h \<leftarrow> st h node (set_right sentinel);
       ngx_rbt_red h node
     }"

definition insert_by ::
  "('a rbheap \<Rightarrow> u64 \<Rightarrow> u64 \<Rightarrow> bool option) \<Rightarrow> 'a rbheap \<Rightarrow> u64 \<Rightarrow> u64 \<Rightarrow> u64 \<Rightarrow> 'a rbheap option" where
  "insert_by below h temp node sentinel =
     do { p \<leftarrow> descend below h temp node sentinel; attach h p node sentinel }"

definition value_less :: "'a rbheap \<Rightarrow> u64 \<Rightarrow> u64 \<Rightarrow> bool option" where
  "value_less h node temp =
     do { nk \<leftarrow> ld h rb_key node; tk \<leftarrow> ld h rb_key temp; Some (nk < tk) }"

definition timer_less :: "'a rbheap \<Rightarrow> u64 \<Rightarrow> u64 \<Rightarrow> bool option" where
  "timer_less h node temp =
     do { nk \<leftarrow> ld h rb_key node; tk \<leftarrow> ld h rb_key temp; Some (sint (nk - tk) < 0) }"

definition ngx_rbtree_insert_value :: "'a rbheap \<Rightarrow> u64 \<Rightarrow> u64 \<Rightarrow> u64 \<Rightarrow> 'a rbheap option" where
  "ngx_rbtree_insert_value = insert_by value_less"

definition ngx_rbtree_insert_timer_value :: "'a rbheap \<Rightarrow> u64 \<Rightarrow> u64 \<Rightarrow> u64 \<Rightarrow> 'a rbheap option" where
  "ngx_rbtree_insert_timer_value = insert_by timer_less"

text \<open>One round of the re-balancing loop: the parent is a left child, then a right child.\<close>

definition insert_fix_left ::
  "'a rbheap \<Rightarrow> u64 \<Rightarrow> u64 \<Rightarrow> u64 \<Rightarrow> ('a rbheap \<times> u64 \<times> u64) option" where
  "insert_fix_left h root sentinel node =
     do {
       p \<leftarrow> ld h rb_parent node;
       g \<leftarrow> ld h rb_parent p;
       temp \<leftarrow> ld h rb_right g;
       r \<leftarrow> ngx_rbt_is_red h temp;
       if r then do {
         h \<leftarrow> ngx_rbt_black h p;
         h \<leftarrow> ngx_rbt_black h temp;
         h \<leftarrow> ngx_rbt_red h g;
         Some (h, root, g) }
       else do {
         pr \<leftarrow> ld h rb_right p;
         (h, root, node) \<leftarrow>
           (if node = pr then do {
              (h, root) \<leftarrow> ngx_rbtree_left_rotate h root sentinel p;
              Some (h, root, p) }
            else Some (h, root, node));
         p \<leftarrow> ld h rb_parent node;
         h \<leftarrow> ngx_rbt_black h p;
         g \<leftarrow> ld h rb_parent p;
         h \<leftarrow> ngx_rbt_red h g;
         (h, root) \<leftarrow> ngx_rbtree_right_rotate h root sentinel g;
         Some (h, root, node) }
     }"

definition insert_fix_right ::
  "'a rbheap \<Rightarrow> u64 \<Rightarrow> u64 \<Rightarrow> u64 \<Rightarrow> ('a rbheap \<times> u64 \<times> u64) option" where
  "insert_fix_right h root sentinel node =
     do {
       p \<leftarrow> ld h rb_parent node;
       g \<leftarrow> ld h rb_parent p;
       temp \<leftarrow> ld h rb_left g;
       r \<leftarrow> ngx_rbt_is_red h temp;
       if r then do {
         h \<leftarrow> ngx_rbt_black h p;
         h \<leftarrow> ngx_rbt_black h temp;
         h \<leftarrow> ngx_rbt_red h g;
         Some (h, root, g) }
       else do {
         pl \<leftarrow> ld h rb_left p;
         (h, root, node) \<leftarrow>
           (if node = pl then do {
              (h, root) \<leftarrow> ngx_rbtree_right_rotate h root sentinel p;
              Some (h, root, p) }
            else Some (h, root, node));
         p \<leftarrow> ld h rb_parent node;
         h \<leftarrow> ngx_rbt_black h p;
         g \<leftarrow> ld h rb_parent p;
         h \<leftarrow> ngx_rbt_red h g;
         (h, root) \<leftarrow> ngx_rbtree_left_rotate h root sentinel g;
         Some (h, root, node) }
     }"

partial_function (option) insert_fixup ::
  "'a rbheap \<Rightarrow> u64 \<Rightarrow> u64 \<Rightarrow> u64 \<Rightarrow> ('a rbheap \<times> u64) option" where
  "insert_fixup h root sentinel node =
     (if node = root then Some (h, root)
      else do {
        p \<leftarrow> ld h rb_parent node;
        r \<leftarrow> ngx_rbt_is_red h p;
        if \<not> r then Some (h, root)
        else do {
          g \<leftarrow> ld h rb_parent p;
          gl \<leftarrow> ld h rb_left g;
          (h, root, node) \<leftarrow>
            (if p = gl then insert_fix_left h root sentinel node
             else insert_fix_right h root sentinel node);
          insert_fixup h root sentinel node } })"

definition ngx_rbtree_insert ::
  "'a rbheap \<Rightarrow> 'a ngx_rbtree \<Rightarrow> u64 \<Rightarrow> ('a rbheap \<times> 'a ngx_rbtree) option" where
  "ngx_rbtree_insert h T node =
     (if t_root T = t_sentinel T then do {
        h \<leftarrow> st h node (set_parent 0);
        h \<leftarrow> st h node (set_left (t_sentinel T));
        h \<leftarrow> st h node (set_right (t_sentinel T));
        h \<leftarrow> ngx_rbt_black h node;
        Some (h, T\<lparr>t_root := node\<rparr>) }
      else do {
        h \<leftarrow> t_insert T h (t_root T) node (t_sentinel T);
        (h, root) \<leftarrow> insert_fixup h (t_root T) (t_sentinel T) node;
        h \<leftarrow> ngx_rbt_black h root;
        Some (h, T\<lparr>t_root := root\<rparr>) })"

subsection \<open>Deletion\<close>

partial_function (option) ngx_rbtree_min :: "'a rbheap \<Rightarrow> u64 \<Rightarrow> u64 \<Rightarrow> u64 option" where
  "ngx_rbtree_min h node sentinel =
     do {
       l \<leftarrow> ld h rb_left node;
       if l \<noteq> sentinel then ngx_rbtree_min h l sentinel else Some node
     }"

text \<open>The node that leaves its place, \<open>subst\<close>, and the child that takes it, \<open>temp\<close>.\<close>

definition find_subst :: "'a rbheap \<Rightarrow> u64 \<Rightarrow> u64 \<Rightarrow> (u64 \<times> u64) option" where
  "find_subst h sentinel node =
     do {
       nl \<leftarrow> ld h rb_left node;
       nr \<leftarrow> ld h rb_right node;
       if nl = sentinel then Some (node, nr)
       else if nr = sentinel then Some (node, nl)
       else do {
         subst \<leftarrow> ngx_rbtree_min h nr sentinel;
         sl \<leftarrow> ld h rb_left subst;
         if sl \<noteq> sentinel then Some (subst, sl)
         else do { sr \<leftarrow> ld h rb_right subst; Some (subst, sr) } }
     }"

text \<open>The stores the source marks as debugging\<close>

definition clear_node :: "'a rbheap \<Rightarrow> u64 \<Rightarrow> 'a rbheap option" where
  "clear_node h node =
     do {
       h \<leftarrow> st h node (set_left 0);
       h \<leftarrow> st h node (set_right 0);
       h \<leftarrow> st h node (set_parent 0);
       st h node (\<lambda>n. n\<lparr>rb_key := 0\<rparr>)
     }"

text \<open>\<open>subst\<close> takes the links, the color and the neighbours of \<open>node\<close>.\<close>

definition replace_node ::
  "'a rbheap \<Rightarrow> u64 \<Rightarrow> u64 \<Rightarrow> u64 \<Rightarrow> u64 \<Rightarrow> ('a rbheap \<times> u64) option" where
  "replace_node h root sentinel node subst =
     do {
       v \<leftarrow> ld h rb_left node;
       h \<leftarrow> st h subst (set_left v);
       v \<leftarrow> ld h rb_right node;
       h \<leftarrow> st h subst (set_right v);
       v \<leftarrow> ld h rb_parent node;
       h \<leftarrow> st h subst (set_parent v);
       h \<leftarrow> ngx_rbt_copy_color h subst node;
       (h, root) \<leftarrow> relink_left h root node subst;
       sl \<leftarrow> ld h rb_left subst;
       h \<leftarrow> (if sl \<noteq> sentinel then st h sl (set_parent subst) else Some h);
       sr \<leftarrow> ld h rb_right subst;
       h \<leftarrow> (if sr \<noteq> sentinel then st h sr (set_parent subst) else Some h);
       Some (h, root)
     }"

text \<open>\<open>ngx_rbt_is_black(w->left) && ngx_rbt_is_black(w->right)\<close>\<close>

definition both_black :: "'a rbheap \<Rightarrow> u64 \<Rightarrow> bool option" where
  "both_black h w =
     do {
       l \<leftarrow> ld h rb_left w;
       lb \<leftarrow> ngx_rbt_is_black h l;
       if lb then do { r \<leftarrow> ld h rb_right w; ngx_rbt_is_black h r } else Some False }"

text \<open>
  One round of the fixup loop when \<open>temp\<close> is a left child: a red sibling is rotated away; then the
  sibling turns red, or a red child of it moves outside and the parent is rotated.  Then the same when
  \<open>temp\<close> is a right child.
\<close>

definition delete_sibling_left ::
  "'a rbheap \<Rightarrow> u64 \<Rightarrow> u64 \<Rightarrow> u64 \<Rightarrow> ('a rbheap \<times> u64 \<times> u64) option" where
  "delete_sibling_left h root sentinel temp =
     do {
       p \<leftarrow> ld h rb_parent temp;
       w \<leftarrow> ld h rb_right p;
       r \<leftarrow> ngx_rbt_is_red h w;
       if r then do {
         h \<leftarrow> ngx_rbt_black h w;
         p \<leftarrow> ld h rb_parent temp;
         h \<leftarrow> ngx_rbt_red h p;
         (h, root) \<leftarrow> ngx_rbtree_left_rotate h root sentinel p;
         p \<leftarrow> ld h rb_parent temp;
         w \<leftarrow> ld h rb_right p;
         Some (h, root, w) }
       else Some (h, root, w) }"

definition delete_nephew_left ::
  "'a rbheap \<Rightarrow> u64 \<Rightarrow> u64 \<Rightarrow> u64 \<Rightarrow> u64 \<Rightarrow> ('a rbheap \<times> u64 \<times> u64) option" where
  "delete_nephew_left h root sentinel temp w =
     do {
       wo \<leftarrow> ld h rb_right w;
       ob \<leftarrow> ngx_rbt_is_black h wo;
       if ob then do {
         wi \<leftarrow> ld h rb_left w;
         h \<leftarrow> ngx_rbt_black h wi;
         h \<leftarrow> ngx_rbt_red h w;
         (h, root) \<leftarrow> ngx_rbtree_right_rotate h root sentinel w;
         p \<leftarrow> ld h rb_parent temp;
         w \<leftarrow> ld h rb_right p;
         Some (h, root, w) }
       else Some (h, root, w) }"

definition delete_rotate_left ::
  "'a rbheap \<Rightarrow> u64 \<Rightarrow> u64 \<Rightarrow> u64 \<Rightarrow> u64 \<Rightarrow> ('a rbheap \<times> u64) option" where
  "delete_rotate_left h root sentinel temp w =
     do {
       p \<leftarrow> ld h rb_parent temp;
       h \<leftarrow> ngx_rbt_copy_color h w p;
       h \<leftarrow> ngx_rbt_black h p;
       wo \<leftarrow> ld h rb_right w;
       h \<leftarrow> ngx_rbt_black h wo;
       ngx_rbtree_left_rotate h root sentinel p }"

definition delete_fix_left ::
  "'a rbheap \<Rightarrow> u64 \<Rightarrow> u64 \<Rightarrow> u64 \<Rightarrow> ('a rbheap \<times> u64 \<times> u64) option" where
  "delete_fix_left h root sentinel temp =
     do {
       (h, root, w) \<leftarrow> delete_sibling_left h root sentinel temp;
       b \<leftarrow> both_black h w;
       if b then do {
         h \<leftarrow> ngx_rbt_red h w;
         p \<leftarrow> ld h rb_parent temp;
         Some (h, root, p) }
       else do {
         (h, root, w) \<leftarrow> delete_nephew_left h root sentinel temp w;
         (h, root) \<leftarrow> delete_rotate_left h root sentinel temp w;
         Some (h, root, root) } }"

definition delete_sibling_right ::
  "'a rbheap \<Rightarrow> u64 \<Rightarrow> u64 \<Rightarrow> u64 \<Rightarrow> ('a rbheap \<times> u64 \<times> u64) option" where
  "delete_sibling_right h root sentinel temp =
     do {
       p \<leftarrow> ld h rb_parent temp;
       w \<leftarrow> ld h rb_left p;
       r \<leftarrow> ngx_rbt_is_red h w;
       if r then do {
         h \<leftarrow> ngx_rbt_black h w;
         p \<leftarrow> ld h rb_parent temp;
         h \<leftarrow> ngx_rbt_red h p;
         (h, root) \<leftarrow> ngx_rbtree_right_rotate h root sentinel p;
         p \<leftarrow> ld h rb_parent temp;
         w \<leftarrow> ld h rb_left p;
         Some (h, root, w) }
       else Some (h, root, w) }"

definition delete_nephew_right ::
  "'a rbheap \<Rightarrow> u64 \<Rightarrow> u64 \<Rightarrow> u64 \<Rightarrow> u64 \<Rightarrow> ('a rbheap \<times> u64 \<times> u64) option" where
  "delete_nephew_right h root sentinel temp w =
     do {
       wo \<leftarrow> ld h rb_left w;
       ob \<leftarrow> ngx_rbt_is_black h wo;
       if ob then do {
         wi \<leftarrow> ld h rb_right w;
         h \<leftarrow> ngx_rbt_black h wi;
         h \<leftarrow> ngx_rbt_red h w;
         (h, root) \<leftarrow> ngx_rbtree_left_rotate h root sentinel w;
         p \<leftarrow> ld h rb_parent temp;
         w \<leftarrow> ld h rb_left p;
         Some (h, root, w) }
       else Some (h, root, w) }"

definition delete_rotate_right ::
  "'a rbheap \<Rightarrow> u64 \<Rightarrow> u64 \<Rightarrow> u64 \<Rightarrow> u64 \<Rightarrow> ('a rbheap \<times> u64) option" where
  "delete_rotate_right h root sentinel temp w =
     do {
       p \<leftarrow> ld h rb_parent temp;
       h \<leftarrow> ngx_rbt_copy_color h w p;
       h \<leftarrow> ngx_rbt_black h p;
       wo \<leftarrow> ld h rb_left w;
       h \<leftarrow> ngx_rbt_black h wo;
       ngx_rbtree_right_rotate h root sentinel p }"

definition delete_fix_right ::
  "'a rbheap \<Rightarrow> u64 \<Rightarrow> u64 \<Rightarrow> u64 \<Rightarrow> ('a rbheap \<times> u64 \<times> u64) option" where
  "delete_fix_right h root sentinel temp =
     do {
       (h, root, w) \<leftarrow> delete_sibling_right h root sentinel temp;
       b \<leftarrow> both_black h w;
       if b then do {
         h \<leftarrow> ngx_rbt_red h w;
         p \<leftarrow> ld h rb_parent temp;
         Some (h, root, p) }
       else do {
         (h, root, w) \<leftarrow> delete_nephew_right h root sentinel temp w;
         (h, root) \<leftarrow> delete_rotate_right h root sentinel temp w;
         Some (h, root, root) } }"

partial_function (option) delete_fixup ::
  "'a rbheap \<Rightarrow> u64 \<Rightarrow> u64 \<Rightarrow> u64 \<Rightarrow> ('a rbheap \<times> u64 \<times> u64) option" where
  "delete_fixup h root sentinel temp =
     (if temp = root then Some (h, root, temp)
      else do {
        b \<leftarrow> ngx_rbt_is_black h temp;
        if \<not> b then Some (h, root, temp)
        else do {
          p \<leftarrow> ld h rb_parent temp;
          pl \<leftarrow> ld h rb_left p;
          (h, root, temp) \<leftarrow>
            (if temp = pl then delete_fix_left h root sentinel temp
             else delete_fix_right h root sentinel temp);
          delete_fixup h root sentinel temp } })"

definition ngx_rbtree_delete ::
  "'a rbheap \<Rightarrow> 'a ngx_rbtree \<Rightarrow> u64 \<Rightarrow> ('a rbheap \<times> 'a ngx_rbtree) option" where
  "ngx_rbtree_delete h T node =
     do {
       let sentinel = t_sentinel T;
       let root = t_root T;
       (subst, temp) \<leftarrow> find_subst h sentinel node;
       if subst = root then do {
         h \<leftarrow> ngx_rbt_black h temp;
         h \<leftarrow> clear_node h node;
         Some (h, T\<lparr>t_root := temp\<rparr>) }
       else do {
         red \<leftarrow> ngx_rbt_is_red h subst;
         sp \<leftarrow> ld h rb_parent subst;
         spl \<leftarrow> ld h rb_left sp;
         h \<leftarrow> (if subst = spl then st h sp (set_left temp) else st h sp (set_right temp));
         (h, root) \<leftarrow>
           (if subst = node then do {
              sp \<leftarrow> ld h rb_parent subst;
              h \<leftarrow> st h temp (set_parent sp);
              Some (h, root) }
            else do {
              sp \<leftarrow> ld h rb_parent subst;
              h \<leftarrow> (if sp = node then st h temp (set_parent subst) else st h temp (set_parent sp));
              replace_node h root sentinel node subst });
         h \<leftarrow> clear_node h node;
         if red then Some (h, T\<lparr>t_root := root\<rparr>)
         else do {
           (h, root, temp) \<leftarrow> delete_fixup h root sentinel temp;
           h \<leftarrow> ngx_rbt_black h temp;
           Some (h, T\<lparr>t_root := root\<rparr>) } }
     }"

subsection \<open>The next node\<close>

partial_function (option) next_loop :: "'a rbheap \<Rightarrow> u64 \<Rightarrow> u64 \<Rightarrow> u64 option" where
  "next_loop h root node =
     do {
       parent \<leftarrow> ld h rb_parent node;
       if node = root then Some 0
       else do {
         pl \<leftarrow> ld h rb_left parent;
         if node = pl then Some parent else next_loop h root parent }
     }"

definition ngx_rbtree_next :: "'a rbheap \<Rightarrow> 'a ngx_rbtree \<Rightarrow> u64 \<Rightarrow> u64 option" where
  "ngx_rbtree_next h T node =
     do {
       r \<leftarrow> ld h rb_right node;
       if r \<noteq> t_sentinel T then ngx_rbtree_min h r (t_sentinel T)
       else next_loop h (t_root T) node
     }"

end
