(* ===== verification/Rbheap.thy ===== *)
theory Rbheap imports Rbtree begin

text \<open>
  What a heap of tree nodes means: the binary tree it represents, seen whole or from a node inside it
  (a context and a subtree), and what the rotations and colorings of theory \<open>Rbtree\<close> do to that tree.
\<close>

subsection \<open>Trees and contexts\<close>

text \<open>A node of the tree: left subtree, address, whether it is red, right subtree.\<close>

datatype rbtree = Lf | Nd rbtree u64 bool rbtree

fun addrs :: "rbtree \<Rightarrow> u64 list" where
  "addrs Lf = []"
| "addrs (Nd l a c r) = addrs l @ a # addrs r"

fun ptr :: "u64 \<Rightarrow> rbtree \<Rightarrow> u64" where
  "ptr s Lf = s"
| "ptr s (Nd l a c r) = a"

fun red :: "rbtree \<Rightarrow> bool" where
  "red Lf = False"
| "red (Nd l a c r) = c"

fun paint :: "bool \<Rightarrow> rbtree \<Rightarrow> rbtree" where
  "paint c Lf = Lf"
| "paint c (Nd l a _ r) = Nd l a c r"

text \<open>
  A step down to the left child (with the node, its color and its right subtree) or to the right child;
  the context of a node is the list of the steps that lead to it, the last one first.
\<close>

datatype frame = FL u64 bool rbtree | FR rbtree u64 bool

fun plug :: "frame list \<Rightarrow> rbtree \<Rightarrow> rbtree" where
  "plug [] t = t"
| "plug (FL a c r # k) t = plug k (Nd t a c r)"
| "plug (FR l a c # k) t = plug k (Nd l a c t)"

fun before :: "frame list \<Rightarrow> u64 list" where
  "before [] = []"
| "before (FL a c r # k) = before k"
| "before (FR l a c # k) = before k @ addrs l @ [a]"

fun after :: "frame list \<Rightarrow> u64 list" where
  "after [] = []"
| "after (FL a c r # k) = a # addrs r @ after k"
| "after (FR l a c # k) = after k"

lemma addrs_plug [simp]: "addrs (plug k t) = before k @ addrs t @ after k"
  by (induction k t rule: plug.induct) auto

lemma plug_append [simp]: "plug (k @ k') t = plug k' (plug k t)"
  by (induction k t rule: plug.induct) auto

lemma before_after_append [simp]: "before (k @ k') = before k' @ before k" "after (k @ k') = after k @ after k'"
  by (induction k rule: before.induct) auto

fun frame_addr :: "frame \<Rightarrow> u64" where
  "frame_addr (FL a c r) = a"
| "frame_addr (FR l a c) = a"

fun is_left :: "frame \<Rightarrow> bool" where
  "is_left (FL a c r) = True"
| "is_left (FR l a c) = False"

fun par :: "u64 \<Rightarrow> frame list \<Rightarrow> u64" where
  "par q [] = q"
| "par q (f # k) = frame_addr f"

subsection \<open>Representation in the heap\<close>

text \<open>\<open>q\<close>: the parent pointer of the root of the tree\<close>

definition cell ::
  "'a rbheap \<Rightarrow> u64 \<Rightarrow> u64 \<Rightarrow> u64 \<Rightarrow> bool \<Rightarrow> u64 \<Rightarrow> bool" where
  "cell h q l a c r \<longleftrightarrow>
     (\<exists>n. h a = Some n \<and> rb_parent n = q \<and> rb_left n = l \<and> rb_right n = r \<and> (rb_color n \<noteq> 0) = c)"

fun tree_at :: "'a rbheap \<Rightarrow> u64 \<Rightarrow> u64 \<Rightarrow> rbtree \<Rightarrow> bool" where
  "tree_at h s q Lf \<longleftrightarrow> True"
| "tree_at h s q (Nd l a c r) \<longleftrightarrow>
     cell h q (ptr s l) a c (ptr s r) \<and> tree_at h s a l \<and> tree_at h s a r"

text \<open>\<open>p\<close>: the pointer in the hole; \<open>q\<close>: the parent pointer of the root of the whole tree\<close>

fun ctx_at :: "'a rbheap \<Rightarrow> u64 \<Rightarrow> u64 \<Rightarrow> u64 \<Rightarrow> frame list \<Rightarrow> u64 \<Rightarrow> bool" where
  "ctx_at h s root q [] p \<longleftrightarrow> p = root"
| "ctx_at h s root q (FL a c r # k) p \<longleftrightarrow>
     cell h (par q k) p a c (ptr s r) \<and> tree_at h s a r \<and> ctx_at h s root q k a"
| "ctx_at h s root q (FR l a c # k) p \<longleftrightarrow>
     cell h (par q k) (ptr s l) a c p \<and> tree_at h s a l \<and> ctx_at h s root q k a"

definition sentinel_ok :: "'a rbheap \<Rightarrow> u64 \<Rightarrow> bool" where
  "sentinel_ok h s \<longleftrightarrow> (\<exists>n. h s = Some n \<and> rb_color n = 0)"

text \<open>The heap holds the tree \<open>plug k t\<close>, seen from the subtree \<open>t\<close>.\<close>

definition zipper :: "'a rbheap \<Rightarrow> u64 \<Rightarrow> u64 \<Rightarrow> u64 \<Rightarrow> frame list \<Rightarrow> rbtree \<Rightarrow> bool" where
  "zipper h s root q k t \<longleftrightarrow>
     sentinel_ok h s \<and> distinct (s # addrs (plug k t)) \<and>
     ctx_at h s root q k (ptr s t) \<and> tree_at h s (par q k) t"

lemma zipper_up [simp]:
  "zipper h s root q (FL a c r # k) t = zipper h s root q k (Nd t a c r)"
  "zipper h s root q (FR l a c # k) t = zipper h s root q k (Nd l a c t)"
  by (auto simp: zipper_def)

lemma zipper_plug: "zipper h s root q [] (plug k t) = zipper h s root q k t"
proof (induction k arbitrary: t)
  case (Cons f k) then show ?case by (cases f) auto
qed simp

text \<open>Updates elsewhere\<close>

lemma cell_upd [simp]: "a \<noteq> b \<Longrightarrow> cell (h(b := v)) q l a c r = cell h q l a c r"
  by (simp add: cell_def)

lemma tree_at_upd [simp]: "b \<notin> set (addrs t) \<Longrightarrow> tree_at (h(b := v)) s q t = tree_at h s q t"
  by (induction t arbitrary: q) auto

lemma ctx_at_upd [simp]:
  "b \<notin> set (before k) \<Longrightarrow> b \<notin> set (after k) \<Longrightarrow> ctx_at (h(b := v)) s root q k p = ctx_at h s root q k p"
  by (induction k arbitrary: p rule: before.induct) auto

lemma sentinel_ok_upd [simp]: "b \<noteq> s \<Longrightarrow> sentinel_ok (h(b := v)) s = sentinel_ok h s"
  by (simp add: sentinel_ok_def)

lemma ptr_in: "ptr s t \<in> insert s (set (addrs t))"
  by (cases t) auto

lemma ptr_neq [simp]:
  "p \<noteq> s \<Longrightarrow> p \<notin> set (addrs t) \<Longrightarrow> ptr s t \<noteq> p"
  "p \<noteq> s \<Longrightarrow> p \<notin> set (addrs t) \<Longrightarrow> p \<noteq> ptr s t"
  using ptr_in [of s t] by auto

subsection \<open>Relinking\<close>

text \<open>
  Only the links and colors of the nodes at \<open>A\<close> change: \<open>payload\<close> is all the rest of a node.
\<close>

definition payload :: "'a ngx_rbtree_node_scheme \<Rightarrow> 'a ngx_rbtree_node_scheme" where
  "payload n = n\<lparr>rb_left := 0, rb_right := 0, rb_parent := 0, rb_color := 0\<rparr>"

definition relinks :: "u64 set \<Rightarrow> 'a rbheap \<Rightarrow> 'a rbheap \<Rightarrow> bool" where
  "relinks A h h' \<longleftrightarrow>
     (\<forall>p. p \<notin> A \<longrightarrow> h' p = h p) \<and> (\<forall>p. map_option payload (h' p) = map_option payload (h p))"

lemma relinks_refl [simp]: "relinks A h h"
  by (simp add: relinks_def)

lemma relinks_trans [trans]: "relinks A h h' \<Longrightarrow> relinks A h' h'' \<Longrightarrow> relinks A h h''"
  by (simp add: relinks_def)

lemma relinks_mono: "relinks A h h' \<Longrightarrow> A \<subseteq> B \<Longrightarrow> relinks B h h'"
  by (auto simp: relinks_def)

lemma payload_set [simp]:
  "payload (set_left v n) = payload n" "payload (set_right v n) = payload n"
  "payload (set_parent v n) = payload n" "payload (set_color w n) = payload n"
  by (simp_all add: payload_def set_left_def set_right_def set_parent_def set_color_def)

lemma relinks_upd:
  "relinks A h h' \<Longrightarrow> p \<in> A \<Longrightarrow> h' p = Some n \<Longrightarrow> payload m = payload n \<Longrightarrow>
   relinks A h (h'(p \<mapsto> m))"
  by (auto simp: relinks_def) (metis option.simps(9))

lemma relinks_upd2:
  "h p = Some n \<Longrightarrow> h q = Some m \<Longrightarrow> p \<noteq> q \<Longrightarrow> p \<in> A \<Longrightarrow> q \<in> A \<Longrightarrow>
   payload n' = payload n \<Longrightarrow> payload m' = payload m \<Longrightarrow> relinks A h (h(p \<mapsto> n', q \<mapsto> m'))"
  by (simp add: relinks_def)

lemma st_Some [simp]: "h p = Some n \<Longrightarrow> st h p f = Some (h(p \<mapsto> f n))"
  by (simp add: st_def)

lemma ld_Some [simp]: "h p = Some n \<Longrightarrow> ld h f p = Some (f n)"
  by (simp add: ld_def)

lemma ld_upd [simp]: "ld (h(p \<mapsto> n)) f q = (if q = p then Some (f n) else ld h f q)"
  by (simp add: ld_def)

lemma set_fields [simp]:
  "rb_left (set_left v n) = v" "rb_right (set_left v n) = rb_right n"
  "rb_parent (set_left v n) = rb_parent n" "rb_color (set_left v n) = rb_color n"
  "rb_left (set_right v n) = rb_left n" "rb_right (set_right v n) = v"
  "rb_parent (set_right v n) = rb_parent n" "rb_color (set_right v n) = rb_color n"
  "rb_left (set_parent v n) = rb_left n" "rb_right (set_parent v n) = rb_right n"
  "rb_parent (set_parent v n) = v" "rb_color (set_parent v n) = rb_color n"
  "rb_left (set_color w n) = rb_left n" "rb_right (set_color w n) = rb_right n"
  "rb_parent (set_color w n) = rb_parent n" "rb_color (set_color w n) = w"
  by (simp_all add: set_left_def set_right_def set_parent_def set_color_def)


lemma ctx_at_root: "ctx_at h s root q (f # k) p \<Longrightarrow> root \<in> set (before (f # k)) \<union> set (after (f # k))"
proof (induction k arbitrary: f p)
  case (Cons f' k) then show ?case by (cases f) (fastforce+)
qed (auto elim!: ctx_at.elims)

subsection \<open>Rotations\<close>


text \<open>The stores to a neighbour: the parent pointer of a subtree, the pointer in the hole.\<close>

lemma tree_at_frame: "\<forall>p \<in> set (addrs t). h' p = h p \<Longrightarrow> tree_at h' s q t = tree_at h s q t"
  by (induction t arbitrary: q) (auto simp: cell_def)

lemma ctx_at_frame:
  "\<forall>a \<in> set (before k) \<union> set (after k). h' a = h a \<Longrightarrow>
   ctx_at h' s root q k p = ctx_at h s root q k p"
  by (induction k arbitrary: p rule: before.induct) (simp_all add: cell_def ball_Un tree_at_frame [of _ h' h])

lemma reparent:
  assumes "tree_at h s q0 t" "distinct (s # addrs t)"
  shows "\<exists>h'. (if ptr s t \<noteq> s then st h (ptr s t) (set_parent q) else Some h) = Some h' \<and>
    tree_at h' s q t \<and> relinks (set (addrs t)) h h'"
proof (cases t)
  case (Nd l a c r)
  then obtain n where n: "h a = Some n" "cell h q0 (ptr s l) a c (ptr s r)" using assms by (auto simp: cell_def)
  then have "cell (h(a \<mapsto> set_parent q n)) q (ptr s l) a c (ptr s r)" by (auto simp: cell_def)
  moreover have "relinks (set (addrs t)) h (h(a \<mapsto> set_parent q n))"
    using n Nd by (intro relinks_upd [of _ h h]) auto
  ultimately show ?thesis using assms n Nd by auto
qed simp

lemma relink_left_correct:
  assumes "ctx_at h s root q k p" "h p = Some n" "rb_parent n = par q k"
    and "distinct (s # p # before k @ after k)"
  shows "\<exists>h' root'. relink_left h root p p' = Some (h', root') \<and>
    ctx_at h' s root' q k p' \<and> relinks (set (before k @ after k)) h h'"
proof (cases k)
  case (Cons f k')
  have "root \<noteq> p" using ctx_at_root [of h s root q f k'] assms Cons by fastforce
  then show ?thesis using assms Cons
    by (cases f) (auto simp: relink_left_def cell_def intro!: relinks_upd)
qed (use assms in \<open>simp add: relink_left_def\<close>)


lemma relinks_outside: "relinks A h h' \<Longrightarrow> p \<notin> A \<Longrightarrow> h' p = h p"
  by (simp add: relinks_def)

lemma relinks_tree: "relinks A h h' \<Longrightarrow> A \<inter> set (addrs t) = {} \<Longrightarrow> tree_at h' s q t = tree_at h s q t"
  by (intro tree_at_frame) (auto simp: relinks_def)

lemma relinks_ctx:
  "relinks A h h' \<Longrightarrow> A \<inter> (set (before k) \<union> set (after k)) = {} \<Longrightarrow>
   ctx_at h' s root q k p = ctx_at h s root q k p"
  by (intro ctx_at_frame) (auto simp: relinks_def)

lemma relinks_sentinel: "relinks A h h' \<Longrightarrow> s \<notin> A \<Longrightarrow> sentinel_ok h' s = sentinel_ok h s"
  by (simp add: sentinel_ok_def relinks_def)

lemma left_rotate:
  assumes "zipper h s root q k (Nd t1 x c (Nd t2 y d t3))"
  shows "\<exists>h' root'. ngx_rbtree_left_rotate h root s x = Some (h', root') \<and>
    zipper h' s root' q k (Nd (Nd t1 x c t2) y d t3) \<and>
    relinks (set (addrs (plug k (Nd t1 x c (Nd t2 y d t3))))) h h'"
proof -
  have dist': "distinct (s # addrs (plug k (Nd (Nd t1 x c t2) y d t3)))"
    using assms by (auto simp: zipper_def)
  have dist: "distinct (s # x # y # addrs t1 @ addrs t2 @ addrs t3 @ before k @ after k)"
    using assms by (auto simp: zipper_def)
  then have neq: "x \<noteq> y" "y \<noteq> x" "x \<noteq> s" "y \<noteq> s"
    and notin: "x \<notin> set (addrs t1)" "x \<notin> set (addrs t2)" "x \<notin> set (addrs t3)" "x \<notin> set (before k)" "x \<notin> set (after k)"
    "y \<notin> set (addrs t1)" "y \<notin> set (addrs t2)" "y \<notin> set (addrs t3)" "y \<notin> set (before k)" "y \<notin> set (after k)"
    by auto
  obtain X Y where X: "h x = Some X" "rb_parent X = par q k" "rb_left X = ptr s t1" "rb_right X = y" "rb_color X \<noteq> 0 \<longleftrightarrow> c"
    and Y: "h y = Some Y" "rb_parent Y = x" "rb_left Y = ptr s t2" "rb_right Y = ptr s t3" "rb_color Y \<noteq> 0 \<longleftrightarrow> d"
    and t: "tree_at h s x t1" "tree_at h s y t2" "tree_at h s y t3"
    and k: "ctx_at h s root q k x" and s: "sentinel_ok h s"
    using assms by (auto simp: zipper_def cell_def)
  define h1 where "h1 = h(x \<mapsto> set_right (ptr s t2) X)"
  have "tree_at h1 s y t2" "distinct (s # addrs t2)" using t dist by (auto simp: h1_def)
  then obtain h2 where h2: "(if ptr s t2 \<noteq> s then st h1 (ptr s t2) (set_parent x) else Some h1) = Some h2"
    "tree_at h2 s x t2" and r2: "relinks (set (addrs t2)) h1 h2"
    using reparent by blast
  define h3 where "h3 = h2(y \<mapsto> set_parent (par q k) Y)"
  have h2_at: "h2 x = Some (set_right (ptr s t2) X)" "h2 y = Some Y"
    using relinks_outside [OF r2] dist X Y by (auto simp: h1_def)
  have "ctx_at h3 s root q k x"
  proof -
    have "ctx_at h2 s root q k x = ctx_at h1 s root q k x" using dist by (intro relinks_ctx [OF r2]) auto
    then show ?thesis using dist k by (simp add: h1_def h3_def)
  qed
  moreover have "h3 x = Some (set_right (ptr s t2) X)" using h2_at dist by (simp add: h3_def)
  moreover have "distinct (s # x # before k @ after k)" using dist by auto
  ultimately obtain h4 root' where h4: "relink_left h3 root x y = Some (h4, root')" "ctx_at h4 s root' q k y"
    and r4: "relinks (set (before k @ after k)) h3 h4"
    using relink_left_correct [of h3 s root q k x "set_right (ptr s t2) X" y] X by auto
  have h4_at: "h4 x = Some (set_right (ptr s t2) X)" "h4 y = Some (set_parent (par q k) Y)"
    using relinks_outside [OF r4] dist h2_at by (auto simp: h3_def)
  define h5 where "h5 = h4(y \<mapsto> set_left x (set_parent (par q k) Y), x \<mapsto> set_parent y (set_right (ptr s t2) X))"
  have "ngx_rbtree_left_rotate h root s x = Some (h5, root')"
    using X Y h2(1) [unfolded h1_def] h4(1) h4_at h2_at neq notin
    by (simp add: ngx_rbtree_left_rotate_def h3_def [symmetric] h5_def
        split del: if_split)
  moreover have "relinks (set (addrs (plug k (Nd t1 x c (Nd t2 y d t3))))) h h5"
  proof -
    let ?A = "set (addrs (plug k (Nd t1 x c (Nd t2 y d t3))))"
    have "relinks ?A h h1" using X by (auto simp: h1_def intro!: relinks_upd [of _ h h])
    also have "relinks ?A h1 h2" using r2 by (rule relinks_mono) auto
    also have "relinks ?A h2 h3" using h2_at by (auto simp: h3_def intro!: relinks_upd [of _ h2 h2])
    also have "relinks ?A h3 h4" using r4 by (rule relinks_mono) auto
    also have "relinks ?A h4 h5" using h4_at neq by (auto simp: h5_def intro!: relinks_upd2)
    finally show ?thesis .
  qed
  moreover have "zipper h5 s root' q k (Nd (Nd t1 x c t2) y d t3)"
  proof -
    have frame: "h4 p = h p" if "p \<notin> {x, y} \<union> set (addrs t2) \<union> set (before k @ after k)" for p
      using that relinks_outside [OF r2, of p] relinks_outside [OF r4, of p] by (simp add: h1_def h3_def)
    have "tree_at h4 s x t1" "tree_at h4 s y t3"
      using t tree_at_frame [of t1 h4 h s x] tree_at_frame [of t3 h4 h s y] dist frame by fastforce+
    moreover have "tree_at h4 s x t2"
      using h2(2) relinks_tree [OF r4, of t2 s x] dist notin by (auto simp: h3_def)
    moreover have "sentinel_ok h5 s" using s frame [of s] dist by (auto simp: h5_def sentinel_ok_def)
    moreover have "ctx_at h5 s root' q k y" using h4(2) notin by (simp add: h5_def)
    moreover have "tree_at h5 s (par q k) (Nd (Nd t1 x c t2) y d t3)"
      using calculation(1-3) X Y neq notin by (simp add: h5_def cell_def)
    ultimately show ?thesis using dist' by (simp only: zipper_def ptr.simps simp_thms)
  qed
  ultimately show ?thesis by blast
qed

end
