(* ===== verification/Rbmirror.thy ===== *)
theory Rbmirror imports Rbheap begin

text \<open>
  The mirror image of a heap, in which every node has its \<open>left\<close> and \<open>right\<close> exchanged.  The right
  rotation is the left rotation of the mirror image, and the cases of the two fixup loops for a right
  child are the mirror images of the cases for a left child.
\<close>

definition swap :: "'a ngx_rbtree_node_scheme \<Rightarrow> 'a ngx_rbtree_node_scheme" where
  "swap n = n\<lparr>rb_left := rb_right n, rb_right := rb_left n\<rparr>"

definition mir :: "'a rbheap \<Rightarrow> 'a rbheap" where
  "mir h = map_option swap \<circ> h"

fun mirror :: "rbtree \<Rightarrow> rbtree" where
  "mirror Lf = Lf"
| "mirror (Nd l a c r) = Nd (mirror r) a c (mirror l)"

fun mirror_frame :: "frame \<Rightarrow> frame" where
  "mirror_frame (FL a c r) = FR (mirror r) a c"
| "mirror_frame (FR l a c) = FL a c (mirror l)"

abbreviation mirror_ctx :: "frame list \<Rightarrow> frame list" where
  "mirror_ctx \<equiv> map mirror_frame"

lemma swap_fields [simp]:
  "rb_left (swap n) = rb_right n" "rb_right (swap n) = rb_left n"
  "rb_parent (swap n) = rb_parent n" "rb_color (swap n) = rb_color n" "swap (swap n) = n"
  by (simp_all add: swap_def)

lemma mir_mir [simp]: "mir (mir h) = h"
  by (auto simp: mir_def fun_eq_iff option.map_comp comp_def option.map_ident)

lemma mirror_mirror [simp]: "mirror (mirror t) = t"
  by (induction t) auto

lemma mirror_frame_frame [simp]: "mirror_frame (mirror_frame f) = f" "frame_addr (mirror_frame f) = frame_addr f"
  by (cases f; simp)+

lemma mirror_frame_comp [simp]: "mirror_frame \<circ> mirror_frame = id"
  by (simp add: fun_eq_iff)

lemma mir_eq [simp]: "mir h = mir h' \<longleftrightarrow> h = h'"
  by (metis mir_mir)

lemma mirror_ctx_ctx [simp]: "mirror_ctx (mirror_ctx k) = k" "par q (mirror_ctx k) = par q k"
  by (simp_all add: comp_def) (cases k; simp)

lemma mirror_shape [simp]: "ptr s (mirror t) = ptr s t" "red (mirror t) = red t"
  "addrs (mirror t) = rev (addrs t)" "mirror t = Lf \<longleftrightarrow> t = Lf"
  by (induction t) simp_all

lemma plug_mirror: "plug (mirror_ctx k) (mirror t) = mirror (plug k t)"
  by (induction k t rule: plug.induct) (simp_all flip: mirror.simps)

lemma cell_mir [simp]: "cell (mir h) q l a c r = cell h q r a c l"
  by (auto simp: cell_def mir_def)

lemma tree_at_mir [simp]: "tree_at (mir h) s q (mirror t) = tree_at h s q t"
  by (induction t arbitrary: q) auto

lemma ctx_at_mir [simp]: "ctx_at (mir h) s root q (mirror_ctx k) p = ctx_at h s root q k p"
  by (induction k arbitrary: p rule: before.induct) auto

lemma sentinel_ok_mir [simp]: "sentinel_ok (mir h) s = sentinel_ok h s"
  by (auto simp: sentinel_ok_def mir_def)

lemma zipper_mir [simp]: "zipper (mir h) s root q (mirror_ctx k) (mirror t) = zipper h s root q k t"
  by (auto simp: zipper_def plug_mirror simp del: addrs_plug)

lemma payload_swap: "payload (swap n) = payload n"
  by (simp add: payload_def swap_def)

lemma swap_eq [simp]: "swap m = swap n \<longleftrightarrow> m = n"
  by (metis swap_fields(5))

lemma map_option_swap [simp]: "map_option swap m = map_option swap n \<longleftrightarrow> m = n"
  by (cases m; cases n) auto

lemma relinks_mir [simp]: "relinks A (mir h) (mir h') = relinks A h h'"
  by (auto simp: relinks_def mir_def option.map_comp comp_def payload_swap)

subsection \<open>The operations\<close>

lemma ld_mir [simp]:
  "ld (mir h) rb_left p = ld h rb_right p" "ld (mir h) rb_right p = ld h rb_left p"
  "ld (mir h) rb_parent p = ld h rb_parent p" "ld (mir h) rb_color p = ld h rb_color p"
  "ld (mir h) (\<lambda>n. rb_color n \<noteq> 0) p = ld h (\<lambda>n. rb_color n \<noteq> 0) p"
  by (simp_all add: ld_def mir_def option.map_comp comp_def)

lemma st_mir [simp]:
  "st (mir h) p (set_left v) = map_option mir (st h p (set_right v))"
  "st (mir h) p (set_right v) = map_option mir (st h p (set_left v))"
  "st (mir h) p (set_parent v) = map_option mir (st h p (set_parent v))"
  "st (mir h) p (set_color w) = map_option mir (st h p (set_color w))"
  by (auto simp: st_def mir_def fun_eq_iff swap_def set_left_def set_right_def set_parent_def set_color_def
      split: option.split)

lemma bind_map: "Option.bind (map_option f m) g = Option.bind m (\<lambda>x. g (f x))"
  by (cases m) simp_all

lemma map_bind: "map_option f (Option.bind m k) = Option.bind m (\<lambda>x. map_option f (k x))"
  by (cases m) simp_all

lemma bind_if: "Option.bind (if b then m else m') k = (if b then Option.bind m k else Option.bind m' k)"
  by simp

lemma case_prod_bind: "Option.bind (case z of (x, y) \<Rightarrow> m x y) k = (case z of (x, y) \<Rightarrow> Option.bind (m x y) k)"
  by (cases z) simp

lemma bind_case_prod: "(case map_prod f g z of (x, y) \<Rightarrow> k x y) = (case z of (x, y) \<Rightarrow> k (f x) (g y))"
  by (cases z) simp

lemma map_if: "map_option f (if b then x else y) = (if b then map_option f x else map_option f y)"
  by simp

lemma map_case_prod: "map_option f (case_prod g z) = (case z of (x, y) \<Rightarrow> map_option f (g x y))"
  by (cases z) simp

lemmas mir_simps = bind_map map_bind bind_if case_prod_bind bind_case_prod map_if map_case_prod

lemma relink_mir: "relink_left (mir h) root x y = map_option (map_prod mir id) (relink_right h root x y)"
  by (simp add: relink_left_def relink_right_def mir_simps cong: if_cong split del: if_split)

lemma color_mir [simp]:
  "ngx_rbt_is_red (mir h) p = ngx_rbt_is_red h p" "ngx_rbt_is_black (mir h) p = ngx_rbt_is_black h p"
  "ngx_rbt_red (mir h) p = map_option mir (ngx_rbt_red h p)"
  "ngx_rbt_black (mir h) p = map_option mir (ngx_rbt_black h p)"
  "ngx_rbt_copy_color (mir h) p q = map_option mir (ngx_rbt_copy_color h p q)"
  by (simp_all add: ngx_rbt_is_red_def ngx_rbt_is_black_def ngx_rbt_red_def ngx_rbt_black_def
      ngx_rbt_copy_color_def mir_simps)

lemma left_rotate_mir:
  "ngx_rbtree_left_rotate (mir h) root s x = map_option (map_prod mir id) (ngx_rbtree_right_rotate h root s x)"
  by (simp add: ngx_rbtree_left_rotate_def ngx_rbtree_right_rotate_def relink_mir mir_simps
      cong: if_cong split del: if_split)


lemma right_rotate_mir:
  "ngx_rbtree_right_rotate (mir h) root s x = map_option (map_prod mir id) (ngx_rbtree_left_rotate h root s x)"
  using left_rotate_mir [of "mir h" root s x] by (simp add: option.map_comp comp_def map_prod_def split_beta option.map_ident)

lemma insert_fix_mir:
  "insert_fix_left (mir h) root s x = map_option (map_prod mir id) (insert_fix_right h root s x)"
  by (simp add: insert_fix_left_def insert_fix_right_def left_rotate_mir right_rotate_mir mir_simps
      cong: if_cong split del: if_split)

lemma delete_sibling_mir:
  "delete_sibling_left (mir h) root s x = map_option (map_prod mir id) (delete_sibling_right h root s x)"
  by (simp add: delete_sibling_left_def delete_sibling_right_def left_rotate_mir right_rotate_mir mir_simps
      cong: if_cong split del: if_split)

lemma delete_nephew_mir:
  "delete_nephew_left (mir h) root s x w = map_option (map_prod mir id) (delete_nephew_right h root s x w)"
  by (simp add: delete_nephew_left_def delete_nephew_right_def left_rotate_mir right_rotate_mir mir_simps
      cong: if_cong split del: if_split)

lemma delete_rotate_mir:
  "delete_rotate_left (mir h) root s x w = map_option (map_prod mir id) (delete_rotate_right h root s x w)"
  by (simp add: delete_rotate_left_def delete_rotate_right_def left_rotate_mir right_rotate_mir mir_simps
      cong: if_cong split del: if_split)

lemma right_rotate:
  assumes "zipper h s root q k (Nd (Nd t1 y d t2) x c t3)"
  shows "\<exists>h' root'. ngx_rbtree_right_rotate h root s x = Some (h', root') \<and>
    zipper h' s root' q k (Nd t1 y d (Nd t2 x c t3)) \<and>
    relinks (set (addrs (plug k (Nd t1 y d (Nd t2 x c t3))))) h h'"
proof -
  have "zipper (mir h) s root q (mirror_ctx k) (Nd (mirror t3) x c (Nd (mirror t2) y d (mirror t1)))"
    using assms by (simp flip: mirror.simps)
  from left_rotate [OF this] obtain h' root' where
    "ngx_rbtree_right_rotate h root s x = Some (h', root')"
    "zipper (mir h') s root' q (mirror_ctx k) (mirror (Nd t1 y d (Nd t2 x c t3)))"
    "relinks (set (addrs (plug (mirror_ctx k) (mirror (Nd t1 y d (Nd t2 x c t3)))))) (mir h) (mir h')"
    by (auto simp: left_rotate_mir)
  then show ?thesis by (simp only: zipper_mir relinks_mir plug_mirror mirror_shape set_rev) blast
qed

end
