(* ===== verification/Rbcolor.thy ===== *)
theory Rbcolor imports Rbmirror begin

text \<open>
  The red-black invariants, of a tree and of a context, and the loads and colorings of a node seen
  through a zipper.
\<close>

subsection \<open>Invariants\<close>

fun bh :: "rbtree \<Rightarrow> nat" where
  "bh Lf = 0"
| "bh (Nd l a c r) = bh l + (if c then 0 else 1)"

text \<open>Every path to a leaf has as many black nodes.\<close>

fun invh :: "rbtree \<Rightarrow> bool" where
  "invh Lf \<longleftrightarrow> True"
| "invh (Nd l a c r) \<longleftrightarrow> bh l = bh r \<and> invh l \<and> invh r"

text \<open>No red node has a red child.\<close>

fun invc :: "rbtree \<Rightarrow> bool" where
  "invc Lf \<longleftrightarrow> True"
| "invc (Nd l a c r) \<longleftrightarrow> (c \<longrightarrow> \<not> red l \<and> \<not> red r) \<and> invc l \<and> invc r"

definition rb :: "rbtree \<Rightarrow> bool" where
  "rb t \<longleftrightarrow> \<not> red t \<and> invc t \<and> invh t"

text \<open>The same of a context, for a subtree of the given color, of the given black height\<close>

fun cok :: "bool \<Rightarrow> frame list \<Rightarrow> bool" where
  "cok b [] \<longleftrightarrow> True"
| "cok b (FL a c r # k) \<longleftrightarrow> (c \<longrightarrow> \<not> b \<and> \<not> red r) \<and> invc r \<and> cok c k"
| "cok b (FR l a c # k) \<longleftrightarrow> (c \<longrightarrow> \<not> b \<and> \<not> red l) \<and> invc l \<and> cok c k"

fun hok :: "nat \<Rightarrow> frame list \<Rightarrow> bool" where
  "hok n [] \<longleftrightarrow> True"
| "hok n (FL a c r # k) \<longleftrightarrow> bh r = n \<and> invh r \<and> hok (n + (if c then 0 else 1)) k"
| "hok n (FR l a c # k) \<longleftrightarrow> bh l = n \<and> invh l \<and> hok (n + (if c then 0 else 1)) k"

lemma invc_plug [simp]: "invc (plug k t) \<longleftrightarrow> invc t \<and> cok (red t) k"
  by (induction k t rule: plug.induct) auto

lemma invh_plug [simp]: "invh (plug k t) \<longleftrightarrow> invh t \<and> hok (bh t) k"
  by (induction k t rule: plug.induct) auto

lemma cok_black: "cok b k \<Longrightarrow> cok False k"
  by (cases "(b, k)" rule: cok.cases) auto

lemma bh_mirror: "invh t \<Longrightarrow> bh (mirror t) = bh t"
  by (induction t) auto

lemma invh_mirror [simp]: "invh (mirror t) \<longleftrightarrow> invh t"
  by (induction t) (auto simp: bh_mirror)

lemma invc_mirror [simp]: "invc (mirror t) \<longleftrightarrow> invc t"
  by (induction t) auto

lemma red_plug: "red (plug (f # k) t) = red (plug (f # k) t')"
proof (induction k arbitrary: f t t')
  case Nil then show ?case by (cases f) auto
next
  case (Cons f' k)
  then show ?case by (cases f) auto
qed

lemma bh_paint: "\<not> red t \<Longrightarrow> t \<noteq> Lf \<Longrightarrow> bh t = Suc (bh (paint True t))"
  by (cases t) auto

lemma paint_props [simp]:
  "addrs (paint c t) = addrs t" "invh (paint c t) = invh t" "ptr s (paint c t) = ptr s t"
  "\<not> red (paint False t)"
  by (cases t; simp)+

lemma invc_paint: "invc t \<Longrightarrow> invc (paint False t)"
  by (cases t) auto

subsection \<open>Loads\<close>

lemma zipper_ld:
  assumes "zipper h s root q k (Nd l a c r)"
  shows "ld h rb_left a = Some (ptr s l)" "ld h rb_right a = Some (ptr s r)"
    "ld h rb_parent a = Some (par q k)" "ngx_rbt_is_red h a = Some c"
  using assms by (auto simp: zipper_def cell_def ngx_rbt_is_red_def)

lemma zipper_red: "zipper h s root q k t \<Longrightarrow> ngx_rbt_is_red h (ptr s t) = Some (red t)"
  by (cases t) (auto simp: zipper_def cell_def ngx_rbt_is_red_def sentinel_ok_def)

lemma zipper_root: "zipper h s root q k t \<Longrightarrow> k = [] \<Longrightarrow> root = ptr s t"
  by (simp add: zipper_def)

lemma zipper_not_root:
  assumes "zipper h s root q (f # k) (Nd l a c r)" shows "root \<noteq> a"
  using assms ctx_at_root [of h s root q f k a] by (auto simp: zipper_def simp del: zipper_up)

lemma zipper_dist: "zipper h s root q k t \<Longrightarrow> distinct (s # before k @ addrs t @ after k)"
  by (simp add: zipper_def)

lemma zipper_sentinel: "zipper h s root q k t \<Longrightarrow> sentinel_ok h s"
  by (simp add: zipper_def)

subsection \<open>Colorings\<close>

lemma zipper_color:
  assumes "zipper h s root q k (Nd l a c r)"
  shows "\<exists>h'. st h a (set_color v) = Some h' \<and> zipper h' s root q k (Nd l a (v \<noteq> 0) r) \<and>
    relinks (set (addrs (plug k (Nd l a c r)))) h h'"
proof -
  obtain n where n: "h a = Some n" "rb_parent n = par q k" "rb_left n = ptr s l" "rb_right n = ptr s r"
    and rest: "tree_at h s a l" "tree_at h s a r" "ctx_at h s root q k a" "sentinel_ok h s"
    and dist: "distinct (s # before k @ addrs l @ a # addrs r @ after k)"
    using assms by (auto simp: zipper_def cell_def)
  then have neq: "a \<noteq> s" "a \<notin> set (addrs l)" "a \<notin> set (addrs r)" "a \<notin> set (before k)" "a \<notin> set (after k)"
    by auto
  have "relinks (set (addrs (plug k (Nd l a c r)))) h (h(a \<mapsto> set_color v n))"
    using n by (intro relinks_upd [of _ h h]) auto
  moreover have "zipper (h(a \<mapsto> set_color v n)) s root q k (Nd l a (v \<noteq> 0) r)"
    using n rest dist neq by (simp add: zipper_def cell_def)
  ultimately show ?thesis using n by simp
qed

lemma zipper_black:
  assumes "zipper h s root q k t"
  shows "\<exists>h'. ngx_rbt_black h (ptr s t) = Some h' \<and> zipper h' s root q k (paint False t) \<and>
    relinks (insert s (set (addrs (plug k t)))) h h'"
proof (cases t)
  case Lf
  then obtain n where n: "h s = Some n" "rb_color n = 0" using assms by (auto simp: zipper_def sentinel_ok_def)
  have dist: "distinct (s # before k @ after k)" using zipper_dist [OF assms] Lf by simp
  then have "ctx_at (h(s \<mapsto> set_color 0 n)) s root q k s" "sentinel_ok (h(s \<mapsto> set_color 0 n)) s"
    using assms Lf by (auto simp: zipper_def sentinel_ok_def)
  moreover have "relinks (insert s (set (addrs (plug k t)))) h (h(s \<mapsto> set_color 0 n))"
    using n by (intro relinks_upd [of _ h h]) auto
  ultimately show ?thesis using n Lf dist by (simp add: ngx_rbt_black_def zipper_def)
next
  case (Nd l a c r)
  then show ?thesis using zipper_color [of h s root q k l a c r 0] assms
    by (auto simp: ngx_rbt_black_def elim: relinks_mono)
qed

lemma zipper_paint:
  assumes "zipper h s root q k (Nd l a c r)"
  shows "\<exists>h'. ngx_rbt_black h a = Some h' \<and> zipper h' s root q k (Nd l a False r) \<and>
      relinks (set (addrs (plug k (Nd l a c r)))) h h'"
    and "\<exists>h'. ngx_rbt_red h a = Some h' \<and> zipper h' s root q k (Nd l a True r) \<and>
      relinks (set (addrs (plug k (Nd l a c r)))) h h'"
  using zipper_color [OF assms, of 0] zipper_color [OF assms, of 1]
  by (simp_all add: ngx_rbt_black_def ngx_rbt_red_def)

end
