(* ===== verification/Rbdelfix.thy ===== *)
theory Rbdelfix imports Rbcolor begin

text \<open>
  The fixup loop of \<open>ngx_rbtree_delete\<close>: it starts with a subtree that lacks one black node and ends with
  a tree of the same order that has the red-black invariants once the last node is painted black.
\<close>

subsection \<open>The invariant\<close>

definition lacks :: "frame list \<Rightarrow> rbtree \<Rightarrow> bool" where
  "lacks k t \<longleftrightarrow> invh t \<and> invc (paint False t) \<and> cok False k \<and> hok (Suc (bh t)) k \<and>
     (k = [] \<or> \<not> red (plug k Lf))"

lemma cok_mirror [simp]: "cok b (mirror_ctx k) = cok b k"
  by (induction b k rule: cok.induct) auto

lemma hok_mirror [simp]: "hok n (mirror_ctx k) = hok n k"
  by (induction n k rule: hok.induct) (auto simp: bh_mirror)

lemma paint_mirror [simp]: "paint c (mirror t) = mirror (paint c t)"
  by (cases t) auto

lemma lacks_mirror [simp]: "lacks (mirror_ctx k) (mirror t) = lacks k t"
  using plug_mirror [of k Lf] by (auto simp: lacks_def bh_mirror)

lemma plug_mirror_addrs [simp]:
  "set (before (mirror_ctx k)) = set (after k)" "set (after (mirror_ctx k)) = set (before k)"
  by (induction k rule: before.induct) auto

text \<open>
  One round: the subtree lacks a black node further up, or is red and ends the loop, or the loop ends at
  the root.
\<close>

definition del_step ::
  "'a rbheap \<Rightarrow> u64 \<Rightarrow> u64 \<Rightarrow> frame list \<Rightarrow> rbtree \<Rightarrow> ('a rbheap \<times> u64 \<times> u64) option \<Rightarrow> bool" where
  "del_step h s q k t m \<longleftrightarrow>
     (\<exists>h' root' k' t'. m = Some (h', root', ptr s t') \<and> zipper h' s root' q k' t' \<and> t' \<noteq> Lf \<and>
        lacks k' t' \<and> (\<not> red t' \<longrightarrow> length k' < length k) \<and>
        addrs (plug k' t') = addrs (plug k t) \<and> relinks (set (addrs (plug k t))) h h') \<or>
     (\<exists>h' root' t'. m = Some (h', root', root') \<and> zipper h' s root' q [] t' \<and> invh t' \<and> invc t' \<and>
        addrs t' = addrs (plug k t) \<and> relinks (set (addrs (plug k t))) h h')"

subsection \<open>The parts of a round\<close>

text \<open>
  The parent pointer of \<open>temp\<close>; when \<open>temp\<close> is the sentinel, it is the one stored there, and stays.
\<close>

definition temp_at :: "'a rbheap \<Rightarrow> u64 \<Rightarrow> rbtree \<Rightarrow> u64 \<Rightarrow> bool" where
  "temp_at h s t p \<longleftrightarrow> ld h rb_parent (ptr s t) = Some p"

lemma temp_at_zipper:
  assumes "zipper h s root q k (Nd t p c w)" "temp_at h s t p"
    "zipper h' s root' q k' (plug k'' (Nd t p c' w'))" "relinks A h h'" "s \<notin> A"
  shows "ld h' rb_parent (ptr s t) = Some p"
proof (cases t)
  case Lf
  then show ?thesis using assms(2,5) relinks_outside [OF assms(4), of s] by (simp add: temp_at_def ld_def)
next
  case (Nd l a d r)
  have "zipper h' s root' q (k'' @ k') (Nd t p c' w')"
    using assms(3) zipper_plug [of h' s root' q k' "plug k'' (Nd t p c' w')"]
      zipper_plug [of h' s root' q "k'' @ k'" "Nd t p c' w'"] by simp
  then show ?thesis using zipper_ld(3) [of h' s root' q "FL p c' w' # k'' @ k'" l a d r] Nd by simp
qed

lemma delete_sibling_left_black:
  assumes "zipper h s root q k (Nd t p c w)" "temp_at h s t p" "\<not> red w"
  shows "delete_sibling_left h root s (ptr s t) = Some (h, root, ptr s w)"
  using zipper_ld [OF assms(1)] zipper_red [of h s root q "FR t p c # k" w] assms
  by (simp add: delete_sibling_left_def temp_at_def)

lemma delete_sibling_left_red:
  assumes z: "zipper h s root q k (Nd t p c (Nd wl y True wr))" and t: "temp_at h s t p"
  shows "\<exists>h' root'. delete_sibling_left h root s (ptr s t) = Some (h', root', ptr s wl) \<and>
    zipper h' s root' q k (Nd (Nd t p True wl) y False wr) \<and> ld h' rb_parent (ptr s t) = Some p \<and>
    relinks (set (addrs (plug k (Nd t p c (Nd wl y True wr))))) h h'"
proof -
  let ?A = "set (addrs (plug k (Nd t p c (Nd wl y True wr))))"
  have s: "s \<notin> ?A" using z by (simp add: zipper_def)
  obtain h1 where h1: "ngx_rbt_black h y = Some h1" "zipper h1 s root q (FR t p c # k) (Nd wl y False wr)"
    "relinks ?A h h1"
    using zipper_paint(1) [of h s root q "FR t p c # k" wl y True wr] z by auto
  obtain h2 where h2: "ngx_rbt_red h1 p = Some h2" "zipper h2 s root q k (Nd t p True (Nd wl y False wr))"
    "relinks ?A h1 h2"
    using zipper_paint(2) [of h1 s root q k t p c "Nd wl y False wr"] h1(2) by auto
  obtain h3 root' where h3: "ngx_rbtree_left_rotate h2 root s p = Some (h3, root')"
    "zipper h3 s root' q k (Nd (Nd t p True wl) y False wr)" "relinks ?A h2 h3"
    using left_rotate [OF h2(2)] by auto
  have r: "relinks ?A h h1" "relinks ?A h h2" "relinks ?A h h3"
    using h1(3) h2(3) h3(3) by (blast intro: relinks_trans)+
  have p1: "ld h1 rb_parent (ptr s t) = Some p"
    using temp_at_zipper [OF z t, of h1 root k "[]" c "Nd wl y False wr" ?A] h1(2) r s by simp
  have p3: "ld h3 rb_parent (ptr s t) = Some p"
    using temp_at_zipper [OF z t, of h3 root' k "[FL y False wr]" True wl ?A] h3(2) r s by simp
  have w: "ld h3 rb_right p = Some (ptr s wl)" using zipper_ld(2) [of h3 s root' q "FL y False wr # k"] h3(2) by auto
  have "ngx_rbt_is_red h y = Some True" using zipper_ld(4) [of h s root q "FR t p c # k"] z by auto
  then have "delete_sibling_left h root s (ptr s t) = Some (h3, root', ptr s wl)"
    using t zipper_ld(2) [OF z] h1(1) h2(1) h3(1) p1 p3 w by (simp add: delete_sibling_left_def temp_at_def)
  then show ?thesis using h3(2) p3 r(3) by blast
qed

lemma both_black_zipper:
  assumes "zipper h s root q k (Nd l y c r)"
  shows "both_black h y = Some (\<not> red l \<and> \<not> red r)"
  using zipper_ld [OF assms] zipper_red [of h s root q "FL y c r # k" l] zipper_red [of h s root q "FR l y c # k" r] assms
  by (simp add: both_black_def ngx_rbt_is_black_def)

lemma delete_nephew_left_red:
  assumes "zipper h s root q k (Nd t p c (Nd wl y d wr))" "red wr"
  shows "delete_nephew_left h root s (ptr s t) y = Some (h, root, y)"
  using zipper_ld(2) [of h s root q "FR t p c # k" wl y d wr] zipper_red [of h s root q "FR wl y d # FR t p c # k" wr] assms
  by (simp add: delete_nephew_left_def ngx_rbt_is_black_def)

lemma delete_nephew_left_black:
  assumes z: "zipper h s root q k (Nd t p c (Nd (Nd a x True b) y d wr))" and t: "temp_at h s t p" "\<not> red wr"
  shows "\<exists>h' root'. delete_nephew_left h root s (ptr s t) y = Some (h', root', x) \<and>
    zipper h' s root' q k (Nd t p c (Nd a x False (Nd b y True wr))) \<and> ld h' rb_parent (ptr s t) = Some p \<and>
    relinks (set (addrs (plug k (Nd t p c (Nd (Nd a x True b) y d wr))))) h h'"
proof -
  let ?A = "set (addrs (plug k (Nd t p c (Nd (Nd a x True b) y d wr))))"
  have s: "s \<notin> ?A" using z by (simp add: zipper_def)
  have wo: "ld h rb_right y = Some (ptr s wr)" "ld h rb_left y = Some x" "ngx_rbt_is_black h (ptr s wr) = Some True"
    using zipper_ld(1,2) [of h s root q "FR t p c # k" _ y] zipper_red [of h s root q "FR (Nd a x True b) y d # FR t p c # k" wr] z t(2)
    by (auto simp: ngx_rbt_is_black_def)
  obtain h1 where h1: "ngx_rbt_black h x = Some h1" "zipper h1 s root q (FL y d wr # FR t p c # k) (Nd a x False b)"
    "relinks ?A h h1"
    using zipper_paint(1) [of h s root q "FL y d wr # FR t p c # k" a x True b] z by auto
  obtain h2 where h2: "ngx_rbt_red h1 y = Some h2" "zipper h2 s root q (FR t p c # k) (Nd (Nd a x False b) y True wr)"
    "relinks ?A h1 h2"
    using zipper_paint(2) [of h1 s root q "FR t p c # k" "Nd a x False b" y d wr] h1(2) by auto
  obtain h3 root' where h3: "ngx_rbtree_right_rotate h2 root s y = Some (h3, root')"
    "zipper h3 s root' q (FR t p c # k) (Nd a x False (Nd b y True wr))" "relinks ?A h2 h3"
    using right_rotate [OF h2(2)] by auto
  have r: "relinks ?A h h3" using h1(3) h2(3) h3(3) by (blast intro: relinks_trans)
  have p3: "ld h3 rb_parent (ptr s t) = Some p"
    using temp_at_zipper [OF z t(1), of h3 root' k "[]" c "Nd a x False (Nd b y True wr)" ?A] h3(2) r s by simp
  have "ld h3 rb_right p = Some x" using zipper_ld(2) [of h3 s root' q k t p c] h3(2) by auto
  then have "delete_nephew_left h root s (ptr s t) y = Some (h3, root', x)"
    using wo h1(1) h2(1) h3(1) p3 by (simp add: delete_nephew_left_def)
  then show ?thesis using h3(2) p3 r by auto
qed

lemma delete_rotate_left_correct:
  assumes z: "zipper h s root q k (Nd t p c (Nd wl y d (Nd a x e b)))" and t: "temp_at h s t p"
  shows "\<exists>h' root'. delete_rotate_left h root s (ptr s t) y = Some (h', root') \<and>
    zipper h' s root' q k (Nd (Nd t p False wl) y c (Nd a x False b)) \<and>
    relinks (set (addrs (plug k (Nd t p c (Nd wl y d (Nd a x e b)))))) h h'"
proof -
  let ?A = "set (addrs (plug k (Nd t p c (Nd wl y d (Nd a x e b)))))"
  obtain v where v: "ld h rb_color p = Some v" "(v \<noteq> 0) = c"
    using zipper_ld(4) [OF z] by (auto simp: ngx_rbt_is_red_def ld_def)
  obtain h1 where h1: "ngx_rbt_copy_color h y p = Some h1"
    "zipper h1 s root q (FR t p c # k) (Nd wl y c (Nd a x e b))" "relinks ?A h h1"
    using zipper_color [of h s root q "FR t p c # k" wl y d "Nd a x e b" v] z v
    by (auto simp: ngx_rbt_copy_color_def)
  obtain h2 where h2: "ngx_rbt_black h1 p = Some h2" "zipper h2 s root q k (Nd t p False (Nd wl y c (Nd a x e b)))"
    "relinks ?A h1 h2"
    using zipper_paint(1) [of h1 s root q k t p c "Nd wl y c (Nd a x e b)"] h1(2) by auto
  have wo: "ld h2 rb_right y = Some x" using zipper_ld(2) [of h2 s root q "FR t p False # k"] h2(2) by auto
  obtain h3 where h3: "ngx_rbt_black h2 x = Some h3"
    "zipper h3 s root q (FR wl y c # FR t p False # k) (Nd a x False b)" "relinks ?A h2 h3"
    using zipper_paint(1) [of h2 s root q "FR wl y c # FR t p False # k" a x e b] h2(2) by auto
  obtain h4 root' where h4: "ngx_rbtree_left_rotate h3 root s p = Some (h4, root')"
    "zipper h4 s root' q k (Nd (Nd t p False wl) y c (Nd a x False b))" "relinks ?A h3 h4"
    using left_rotate [of h3 s root q k t p False wl y c "Nd a x False b"] h3(2) by auto
  have "relinks ?A h h4" using h1(3) h2(3) h3(3) h4(3) by (blast intro: relinks_trans)
  then show ?thesis using t h1(1) h2(1) wo h3(1) h4
    by (auto simp: delete_rotate_left_def temp_at_def)
qed


subsection \<open>A round\<close>

definition delete_rest_left ::
  "'a rbheap \<Rightarrow> u64 \<Rightarrow> u64 \<Rightarrow> u64 \<Rightarrow> u64 \<Rightarrow> ('a rbheap \<times> u64 \<times> u64) option" where
  "delete_rest_left h root s temp w =
     do {
       b \<leftarrow> both_black h w;
       if b then do {
         h \<leftarrow> ngx_rbt_red h w;
         p \<leftarrow> ld h rb_parent temp;
         Some (h, root, p) }
       else do {
         (h, root, w) \<leftarrow> delete_nephew_left h root s temp w;
         (h, root) \<leftarrow> delete_rotate_left h root s temp w;
         Some (h, root, root) } }"

lemma delete_fix_left_rest:
  "delete_fix_left h root s temp =
     do { (h, root, w) \<leftarrow> delete_sibling_left h root s temp; delete_rest_left h root s temp w }"
  by (simp add: delete_fix_left_def delete_rest_left_def)

lemma delete_rest_left_correct:
  assumes z: "zipper h s root q k (Nd t p c (Nd wl y False wr))" and t: "temp_at h s t p"
    and inv: "lacks (FL p c (Nd wl y False wr) # k) t" "\<not> red t"
  shows "(\<exists>h' t'. delete_rest_left h root s (ptr s t) y = Some (h', root, ptr s t') \<and>
      zipper h' s root q k t' \<and> t' \<noteq> Lf \<and> lacks k t' \<and> red t' = c \<and>
      addrs t' = addrs (Nd t p c (Nd wl y False wr)) \<and>
      relinks (set (addrs (plug k (Nd t p c (Nd wl y False wr))))) h h') \<or>
    (\<exists>h' root' t'. delete_rest_left h root s (ptr s t) y = Some (h', root', root') \<and>
      zipper h' s root' q k t' \<and> invh (plug k t') \<and> invc (plug k t') \<and>
      addrs t' = addrs (Nd t p c (Nd wl y False wr)) \<and>
      relinks (set (addrs (plug k (Nd t p c (Nd wl y False wr))))) h h')"
proof -
  let ?A = "set (addrs (plug k (Nd t p c (Nd wl y False wr))))"
  have bb: "both_black h y = Some (\<not> red wl \<and> \<not> red wr)"
    using both_black_zipper [of h s root q "FR t p c # k" wl y False wr] z by simp
  have ct: "invc t" using inv by (cases t) (auto simp: lacks_def)
  show ?thesis
  proof (cases "red wl \<or> red wr")
    case False
    obtain h' where h': "ngx_rbt_red h y = Some h'" "zipper h' s root q (FR t p c # k) (Nd wl y True wr)"
      "relinks ?A h h'"
      using zipper_paint(2) [of h s root q "FR t p c # k" wl y False wr] z by auto
    have "s \<notin> ?A" using z by (simp add: zipper_def)
    then have "ld h' rb_parent (ptr s t) = Some p"
      using temp_at_zipper [OF z t, of h' root k "[]" c "Nd wl y True wr" ?A] h' by simp
    then have "delete_rest_left h root s (ptr s t) y = Some (h', root, p)"
      using bb False h'(1) by (simp add: delete_rest_left_def)
    moreover have "lacks k (Nd t p c (Nd wl y True wr))"
      using inv ct False red_plug [of _ _ Lf] by (cases k) (auto simp: lacks_def dest: cok_black)
    ultimately show ?thesis using h'(2,3)
      by (intro disjI1 exI [of _ h'] exI [of _ "Nd t p c (Nd wl y True wr)"]) simp
  next
    case True
    have "\<exists>h1 root1 wl' y' d a x e b. delete_nephew_left h root s (ptr s t) y = Some (h1, root1, y') \<and>
      zipper h1 s root1 q k (Nd t p c (Nd wl' y' d (Nd a x e b))) \<and> temp_at h1 s t p \<and> relinks ?A h h1 \<and>
      addrs (Nd wl' y' d (Nd a x e b)) = addrs (Nd wl y False wr) \<and>
      invc wl' \<and> invc a \<and> invc b \<and> invh wl' \<and> invh a \<and> invh b \<and>
      bh wl' = bh t \<and> bh a = bh t \<and> bh b = bh t"
    proof (cases "red wr")
      case True
      then obtain a x e b where wr: "wr = Nd a x e b" by (cases wr) auto
      have "delete_nephew_left h root s (ptr s t) y = Some (h, root, y)"
        using delete_nephew_left_red [OF z] True by simp
      moreover have "invc wl \<and> invc a \<and> invc b \<and> invh wl \<and> invh a \<and> invh b \<and>
          bh wl = bh t \<and> bh a = bh t \<and> bh b = bh t"
        using inv(1) True wr by (simp add: lacks_def)
      ultimately show ?thesis using z t wr
        by (intro exI [of _ h] exI [of _ root] exI [of _ wl] exI [of _ y] exI [of _ False] exI [of _ a]
            exI [of _ x] exI [of _ e] exI [of _ b]) simp
    next
      case False
      then obtain a x b where wl: "wl = Nd a x True b" using \<open>red wl \<or> red wr\<close> by (cases wl) auto
      then obtain h' root' where "delete_nephew_left h root s (ptr s t) y = Some (h', root', x)"
        "zipper h' s root' q k (Nd t p c (Nd a x False (Nd b y True wr)))" "temp_at h' s t p" "relinks ?A h h'"
        using delete_nephew_left_black [of h s root q k t p c a x b y False wr] z t False
        by (auto simp: temp_at_def)
      moreover have "invc a \<and> invc (Nd b y True wr) \<and> invh a \<and> invh (Nd b y True wr) \<and> bh a = bh t \<and> bh b = bh t"
        using inv(1) wl False by (auto simp: lacks_def)
      moreover have "addrs (Nd a x False (Nd b y True wr)) = addrs (Nd wl y False wr)" using wl by simp
      ultimately show ?thesis
        by (intro exI [of _ h'] exI [of _ root'] exI [of _ a] exI [of _ x] exI [of _ False] exI [of _ b]
            exI [of _ y] exI [of _ True] exI [of _ wr]) simp
    qed
    then obtain h1 root1 wl' y' d a x e b where h1: "delete_nephew_left h root s (ptr s t) y = Some (h1, root1, y')"
      "zipper h1 s root1 q k (Nd t p c (Nd wl' y' d (Nd a x e b)))" "temp_at h1 s t p" "relinks ?A h h1"
      and addrs: "addrs (Nd wl' y' d (Nd a x e b)) = addrs (Nd wl y False wr)"
      and inv': "invc wl'" "invc a" "invc b" "invh wl'" "invh a" "invh b"
        "bh wl' = bh t" "bh a = bh t" "bh b = bh t" by blast
    let ?T = "Nd (Nd t p False wl') y' c (Nd a x False b)"
    have A: "addrs (Nd t p c (Nd wl' y' d (Nd a x e b))) = addrs (Nd t p c (Nd wl y False wr))" using addrs by simp
    obtain h2 root2 where h2: "delete_rotate_left h1 root1 s (ptr s t) y' = Some (h2, root2)"
      "zipper h2 s root2 q k ?T" "relinks ?A h1 h2"
      using delete_rotate_left_correct [OF h1(2,3)] unfolding addrs_plug A by blast
    have "delete_rest_left h root s (ptr s t) y = Some (h2, root2, root2)"
      using bb True h1(1) h2(1) by (auto simp: delete_rest_left_def)
    moreover have "invh (plug k ?T)" "invc (plug k ?T)"
      using inv inv' ct by (cases c; simp add: lacks_def)+
    moreover have "addrs ?T = addrs (Nd t p c (Nd wl y False wr))" using addrs by simp
    moreover have "relinks ?A h h2" using h1(4) h2(3) by (rule relinks_trans)
    ultimately show ?thesis using h2(2) by blast
  qed
qed


lemma del_step_up:
  "m = Some (h', root', ptr s t') \<Longrightarrow> zipper h' s root' q k' t' \<Longrightarrow> t' \<noteq> Lf \<Longrightarrow> lacks k' t' \<Longrightarrow>
   \<not> red t' \<longrightarrow> length k' < length k \<Longrightarrow> addrs (plug k' t') = addrs (plug k t) \<Longrightarrow>
   relinks (set (addrs (plug k t))) h h' \<Longrightarrow> del_step h s q k t m"
  unfolding del_step_def by blast

lemma del_step_end:
  "m = Some (h', root', root') \<Longrightarrow> zipper h' s root' q k' t' \<Longrightarrow> invh (plug k' t') \<Longrightarrow> invc (plug k' t') \<Longrightarrow>
   addrs (plug k' t') = addrs (plug k t) \<Longrightarrow> relinks (set (addrs (plug k t))) h h' \<Longrightarrow> del_step h s q k t m"
  unfolding del_step_def zipper_plug [of h' s root' q k' t', symmetric] by blast

lemma delete_rest_left_step:
  assumes z: "zipper h s root q k (Nd t p c (Nd wl y False wr))" "temp_at h s t p"
    and inv: "lacks (FL p c (Nd wl y False wr) # k) t" "\<not> red t"
    and up: "length k < length k0 \<or> c" "addrs (plug k (Nd t p c (Nd wl y False wr))) = addrs (plug k0 t0)"
    and r: "relinks (set (addrs (plug k0 t0))) h0 h"
  shows "del_step h0 s q k0 t0 (delete_rest_left h root s (ptr s t) y)"
proof -
  note r' = relinks_trans [OF r, folded up(2)]
  have plug: "addrs t' = addrs (Nd t p c (Nd wl y False wr)) \<Longrightarrow> addrs (plug k t') = addrs (plug k0 t0)" for t'
    using up(2) by simp
  show ?thesis
    using delete_rest_left_correct [OF z inv]
  proof (elim disjE exE conjE)
    fix h' t'
    assume "delete_rest_left h root s (ptr s t) y = Some (h', root, ptr s t')" "zipper h' s root q k t'"
      "t' \<noteq> Lf" "lacks k t'" "red t' = c" "addrs t' = addrs (Nd t p c (Nd wl y False wr))"
      "relinks (set (addrs (plug k (Nd t p c (Nd wl y False wr))))) h h'"
    then show ?thesis using up plug r' unfolding up(2) by (intro del_step_up [of _ h' root s t' q k]) auto
  next
    fix h' root' t'
    assume "delete_rest_left h root s (ptr s t) y = Some (h', root', root')" "zipper h' s root' q k t'"
      "invh (plug k t')" "invc (plug k t')" "addrs t' = addrs (Nd t p c (Nd wl y False wr))"
      "relinks (set (addrs (plug k (Nd t p c (Nd wl y False wr))))) h h'"
    then show ?thesis using plug r' unfolding up(2) by (intro del_step_end [of _ h' root' s q k t']) auto
  qed
qed

lemma delete_fix_left_correct:
  assumes z: "zipper h s root q (FL p c w # k) t" and t: "temp_at h s t p"
    and inv: "lacks (FL p c w # k) t" "\<not> red t"
  shows "del_step h s q (FL p c w # k) t (delete_fix_left h root s (ptr s t))"
proof -
  have zG: "zipper h s root q k (Nd t p c w)" using z by simp
  obtain wl y d wr where w: "w = Nd wl y d wr" using inv by (cases w) (auto simp: lacks_def)
  show ?thesis
  proof (cases d)
    case False
    then have "delete_fix_left h root s (ptr s t) = delete_rest_left h root s (ptr s t) y"
      using delete_sibling_left_black [OF zG t] w by (simp add: delete_fix_left_rest)
    then show ?thesis
      using delete_rest_left_step [of h s root q k t p c wl y wr "FL p c w # k" t h] zG t inv w False by simp
  next
    case True
    then obtain h1 root1 where h1: "delete_sibling_left h root s (ptr s t) = Some (h1, root1, ptr s wl)"
      "zipper h1 s root1 q k (Nd (Nd t p True wl) y False wr)" "ld h1 rb_parent (ptr s t) = Some p"
      "relinks (set (addrs (plug k (Nd t p c w)))) h h1"
      using delete_sibling_left_red [of h s root q k t p c wl y wr] zG t w by auto
    have wl: "\<not> red wl" "wl \<noteq> Lf" using inv w True by (auto simp: lacks_def)
    then obtain a x b where wle: "wl = Nd a x False b" by (cases wl) auto
    have "delete_fix_left h root s (ptr s t) = delete_rest_left h1 root1 s (ptr s t) x"
      using h1(1) wle by (simp add: delete_fix_left_rest)
    moreover have "lacks (FL p True (Nd a x False b) # FL y False wr # k) t"
      using inv w True wle red_plug [of _ _ "Nd Lf p c w" "Nd (Nd Lf p True (Nd a x False b)) y False wr"]
      by (cases k) (auto simp: lacks_def)
    ultimately show ?thesis
      using delete_rest_left_step [of h1 s root1 q "FL y False wr # k" t p True a x b "FL p c w # k" t h]
        h1 inv(2) w True wle by (simp add: temp_at_def)
  qed
qed


text \<open>The mirror image\<close>

lemma both_black_mir:
  assumes "zipper h s root q k (Nd l y c r)" shows "both_black (mir h) y = both_black h y"
proof -
  have "zipper (mir h) s root q (mirror_ctx k) (Nd (mirror r) y c (mirror l))"
    using assms by (simp flip: mirror.simps)
  then show ?thesis using both_black_zipper [OF assms] both_black_zipper by fastforce
qed

lemma delete_fix_mir:
  assumes "delete_sibling_right h root s x = Some (h1, root1, w)" "both_black (mir h1) w = both_black h1 w"
  shows "delete_fix_left (mir h) root s x = map_option (map_prod mir id) (delete_fix_right h root s x)"
  using assms
  by (simp add: delete_fix_left_def delete_fix_right_def delete_sibling_mir delete_nephew_mir delete_rotate_mir
      mir_simps cong: if_cong split del: if_split)

lemma del_step_mir:
  assumes "del_step (mir h) s q (mirror_ctx k) (mirror t) (map_option (map_prod mir id) m)"
  shows "del_step h s q k t m"
proof -
  have A: "set (addrs (plug (mirror_ctx k) (mirror t))) = set (addrs (plug k t))"
    by (simp only: plug_mirror mirror_shape set_rev)
  show ?thesis
    using assms [unfolded del_step_def A]
  proof (elim disjE exE conjE)
    fix h1 root' k1 t1
    assume a: "map_option (map_prod mir id) m = Some (h1, root', ptr s t1)" "zipper h1 s root' q k1 t1" "t1 \<noteq> Lf"
      "lacks k1 t1" "\<not> red t1 \<longrightarrow> length k1 < length (mirror_ctx k)"
      "addrs (plug k1 t1) = addrs (plug (mirror_ctx k) (mirror t))" "relinks (set (addrs (plug k t))) (mir h) h1"
    then obtain h' where m: "m = Some (h', root', ptr s (mirror t1))" "h1 = mir h'" by auto
    have "zipper h' s root' q (mirror_ctx k1) (mirror t1)"
      using a(2) m(2) zipper_mir [of h' s root' q "mirror_ctx k1" "mirror t1"] by simp
    moreover have "addrs (plug (mirror_ctx k1) (mirror t1)) = addrs (plug k t)"
      using a(6) by (simp add: plug_mirror del: addrs_plug)
    ultimately show ?thesis
      using m a by (intro del_step_up [of m h' root' s "mirror t1" q "mirror_ctx k1"]) (auto simp del: addrs_plug)
  next
    fix h1 root' t1
    assume a: "map_option (map_prod mir id) m = Some (h1, root', root')" "zipper h1 s root' q [] t1"
      "invh t1" "invc t1" "addrs t1 = addrs (plug (mirror_ctx k) (mirror t))"
      "relinks (set (addrs (plug k t))) (mir h) h1"
    then obtain h' where m: "m = Some (h', root', root')" "h1 = mir h'" by auto
    have "zipper h' s root' q [] (mirror t1)"
      using a(2) m(2) zipper_mir [of h' s root' q "[]" "mirror t1"] by simp
    moreover have "addrs (mirror t1) = addrs (plug k t)"
      using a(5) by (simp add: plug_mirror del: addrs_plug)
    ultimately show ?thesis
      using m a by (intro del_step_end [of m h' root' s q "[]" "mirror t1"]) (auto simp del: addrs_plug)
  qed
qed

lemma delete_fix_right_correct:
  assumes z: "zipper h s root q (FR w p c # k) t" and t: "temp_at h s t p"
    and inv: "lacks (FR w p c # k) t" "\<not> red t"
  shows "del_step h s q (FR w p c # k) t (delete_fix_right h root s (ptr s t))"
proof -
  have z': "zipper (mir h) s root q (mirror_ctx (FR w p c # k)) (mirror t)" using z by (simp only: zipper_mir)
  have t': "temp_at (mir h) s (mirror t) p" using t by (simp add: temp_at_def)
  have inv': "lacks (mirror_ctx (FR w p c # k)) (mirror t)" using inv(1) by (simp only: lacks_mirror)
  have zG: "zipper (mir h) s root q (mirror_ctx k) (Nd (mirror t) p c (mirror w))" using z' by simp
  obtain wl y d wr where w: "w = Nd wl y d wr" using inv by (cases w) (auto simp: lacks_def)
  have "\<exists>h1 root1 x k1 l c1 r. delete_sibling_right h root s (ptr s t) = Some (h1, root1, x) \<and>
      zipper h1 s root1 q k1 (Nd l x c1 r)"
  proof (cases d)
    case False
    then have "delete_sibling_right h root s (ptr s t) = Some (h, root, y)"
      using delete_sibling_left_black [OF zG t'] w by (auto simp: delete_sibling_mir)
    moreover have "zipper h s root q (FL p c t # k) (Nd wl y d wr)" using z w by simp
    ultimately show ?thesis by blast
  next
    case True
    then obtain h1 root1 where h1: "delete_sibling_left (mir h) root s (ptr s t) = Some (h1, root1, ptr s wr)"
      "zipper h1 s root1 q (mirror_ctx k) (Nd (Nd (mirror t) p True (mirror wr)) y False (mirror wl))"
      using delete_sibling_left_red [of "mir h" s root q "mirror_ctx k" "mirror t" p c "mirror wr" y "mirror wl"]
        zG t' w by auto
    then obtain h2 where h2: "delete_sibling_right h root s (ptr s t) = Some (h2, root1, ptr s wr)" "h1 = mir h2"
      by (auto simp: delete_sibling_mir)
    have "wr \<noteq> Lf" using inv w True by (auto simp: lacks_def)
    then obtain l x e r where wr: "wr = Nd l x e r" by (cases wr) auto
    have "zipper (mir h2) s root1 q (mirror_ctx k) (mirror (Nd wl y False (Nd wr p True t)))"
      using h1(2) h2(2) by simp
    then have "zipper h2 s root1 q (FL p True t # FR wl y False # k) (Nd l x e r)"
      unfolding zipper_mir using wr by simp
    then show ?thesis using h2(1) wr by fastforce
  qed
  then obtain h1 root1 x k1 l c1 r where "delete_sibling_right h root s (ptr s t) = Some (h1, root1, x)"
      "zipper h1 s root1 q k1 (Nd l x c1 r)" by blast
  then have "delete_fix_left (mir h) root s (ptr s t) = map_option (map_prod mir id) (delete_fix_right h root s (ptr s t))"
    using delete_fix_mir both_black_mir by blast
  then have "del_step (mir h) s q (mirror_ctx (FR w p c # k)) (mirror t)
      (map_option (map_prod mir id) (delete_fix_right h root s (ptr s t)))"
    using delete_fix_left_correct [of "mir h" s root q p c "mirror w" "mirror_ctx k" "mirror t"] z' t' inv' inv(2)
    by simp
  then show ?thesis by (rule del_step_mir)
qed

subsection \<open>The loop\<close>

fun sibling :: "frame \<Rightarrow> rbtree" where
  "sibling (FL a c r) = r"
| "sibling (FR l a c) = l"

lemma zipper_root_neq: "zipper h s root q (f # k) t \<Longrightarrow> root \<noteq> ptr s t"
  using ctx_at_root [of h s root q f k "ptr s t"] zipper_dist [of h s root q "f # k" t]
  by (cases t) (auto simp: zipper_def simp del: zipper_up)

lemma delete_fixup_stop:
  assumes z: "zipper h s root q k t" and k: "k = [] \<or> red t" and inv: "lacks k t"
  shows "delete_fixup h root s (ptr s t) = Some (h, root, ptr s t)" "rb (plug k (paint False t))"
proof -
  show "delete_fixup h root s (ptr s t) = Some (h, root, ptr s t)"
    using zipper_root [OF z] k zipper_root_neq [of h s root q _ _ t] z zipper_red [OF z]
    by (subst delete_fixup.simps) (cases k; auto simp: ngx_rbt_is_black_def)
  show "rb (plug k (paint False t))"
  proof (cases k)
    case (Cons f k')
    then have "bh (paint False t) = Suc (bh t)" using k by (cases t) auto
    then show ?thesis using inv Cons red_plug [of f k' Lf "paint False t"] by (simp add: lacks_def rb_def)
  qed (use inv in \<open>simp add: lacks_def rb_def\<close>)
qed

text \<open>One round of the loop, on the left and on the right.\<close>

lemma delete_fixup_round:
  assumes z: "zipper h s root q (f # k0) t" and temp: "temp_at h s t (frame_addr f)"
    and l: "lacks (f # k0) t" and "\<not> red t"
    and m: "m = (if is_left f then delete_fix_left h root s (ptr s t) else delete_fix_right h root s (ptr s t))"
  shows "delete_fixup h root s (ptr s t) = Option.bind m (\<lambda>(h, root, temp). delete_fixup h root s temp)"
    and "del_step h s q (f # k0) t m"
proof -
  have p: "ld h rb_parent (ptr s t) = Some (frame_addr f)" using temp by (simp add: temp_at_def)
  have black: "ngx_rbt_is_black h (ptr s t) = Some True"
    using zipper_red [OF z] assms(4) by (simp add: ngx_rbt_is_black_def)
  have left: "ld h rb_left (frame_addr f) = Some (if is_left f then ptr s t else ptr s (sibling f))"
    using z zipper_ld(1) [of h s root q k0] by (cases f) auto
  have "ptr s t \<noteq> ptr s (sibling f)" if "\<not> is_left f"
  proof -
    obtain l a d r where sib: "sibling f = Nd l a d r"
      using that l by (cases "sibling f"; cases f) (auto simp: lacks_def)
    then have "a \<noteq> s" "a \<notin> set (addrs t)" using zipper_dist [OF z] by (cases f; auto)+
    then show ?thesis using sib by simp
  qed
  then show "delete_fixup h root s (ptr s t) = Option.bind m (\<lambda>(h, root, temp). delete_fixup h root s temp)"
    using left zipper_root_neq [of h s root q f k0 t] z p black
    by (subst delete_fixup.simps) (auto simp: m)
  show "del_step h s q (f # k0) t m"
    using delete_fix_left_correct [of h s root q _ _ _ k0 t] delete_fix_right_correct [of h s root q _ _ _ k0 t]
      assms unfolding m by (cases f) auto
qed

lemma delete_fixup_correct:
  assumes "zipper h s root q k t" "k \<noteq> [] \<longrightarrow> temp_at h s t (par q k)" "lacks k t"
  shows "\<exists>h' root' k' t'. delete_fixup h root s (ptr s t) = Some (h', root', ptr s t') \<and>
    zipper h' s root' q k' t' \<and> rb (plug k' (paint False t')) \<and> addrs (plug k' t') = addrs (plug k t) \<and>
    relinks (set (addrs (plug k t))) h h'"
  using assms
proof (induction "length k" arbitrary: h root k t rule: less_induct)
  case less
  note z = less.prems(1)
  show ?case
  proof (cases "k = [] \<or> red t")
    case True
    then show ?thesis using delete_fixup_stop [OF z True less.prems(3)] z by auto
  next
    case False
    then obtain f k0 where k: "k = f # k0" by (cases k) auto
    define m where
      "m = (if is_left f then delete_fix_left h root s (ptr s t) else delete_fix_right h root s (ptr s t))"
    have temp: "temp_at h s t (frame_addr f)" using less.prems(2) k by simp
    note round = delete_fixup_round [of h s root q f k0 t, folded k, OF z temp less.prems(3) _ m_def]
    have loop: "delete_fixup h root s (ptr s t) = Option.bind m (\<lambda>(h, root, temp). delete_fixup h root s temp)"
      using round(1) False by blast
    have "del_step h s q k t m" using round(2) False by blast
    then show ?thesis unfolding del_step_def
    proof (elim disjE exE conjE)
      fix h1 root1 k1 t1
      assume m: "m = Some (h1, root1, ptr s t1)" and z1: "zipper h1 s root1 q k1 t1"
        and t1: "t1 \<noteq> Lf" "lacks k1 t1" "\<not> red t1 \<longrightarrow> length k1 < length k"
        and A: "addrs (plug k1 t1) = addrs (plug k t)" and r: "relinks (set (addrs (plug k t))) h h1"
      show ?thesis
      proof (cases "red t1")
        case True
        then show ?thesis using delete_fixup_stop [OF z1 _ t1(2)] loop m z1 A r by auto
      next
        case False
        then have "temp_at h1 s t1 (par q k1)"
          using z1 t1(1) zipper_ld(3) [of h1 s root1 q k1] by (cases t1) (auto simp: temp_at_def)
        then obtain h2 root2 k2 t2 where 2: "delete_fixup h1 root1 s (ptr s t1) = Some (h2, root2, ptr s t2)"
          "zipper h2 s root2 q k2 t2" "rb (plug k2 (paint False t2))" "addrs (plug k2 t2) = addrs (plug k1 t1)"
          "relinks (set (addrs (plug k1 t1))) h1 h2"
          using less.hyps [OF _ z1 _ t1(2)] False t1(3) by auto
        then have "relinks (set (addrs (plug k t))) h h2" using r unfolding A by (blast intro: relinks_trans)
        then show ?thesis using 2(1-4) loop m A by auto
      qed
    next
      fix h1 root1 t1
      assume m: "m = Some (h1, root1, root1)" and z1: "zipper h1 s root1 q [] t1"
        and t1: "invh t1" "invc t1" "addrs t1 = addrs (plug k t)" "relinks (set (addrs (plug k t))) h h1"
      have "lacks [] t1" using t1 by (simp add: lacks_def invc_paint)
      then show ?thesis using delete_fixup_stop [OF z1] zipper_root [OF z1] loop m z1 t1
        by (intro exI [of _ h1] exI [of _ root1] exI [of _ "[]"] exI [of _ t1]) simp
    qed
  qed
qed

end
