(* ===== verification/Rbinsert.thy ===== *)
theory Rbinsert imports Rbcolor begin

text \<open>
  Insertion into the red-black tree: the re-balancing loop ends with a tree of the same order that has
  the red-black invariants, and \<open>ngx_rbtree_insert\<close> with any of the insertion functions adds the node
  behind the nodes of smaller or equal keys.
\<close>

subsection \<open>The re-balancing loop\<close>

text \<open>The red node \<open>x\<close> below its red parent \<open>p\<close>, a left child.\<close>

definition red_pair :: "u64 \<Rightarrow> u64 \<Rightarrow> rbtree \<Rightarrow> bool" where
  "red_pair x p P \<longleftrightarrow> (\<exists>a b c. P = Nd (Nd a x True b) p True c \<or> P = Nd a p True (Nd b x True c))"

lemma red_pair_ld:
  assumes "zipper h s root q k (Nd P g c u)" "red_pair x p P"
  shows "ld h rb_parent x = Some p" "ld h rb_parent p = Some g" "ld h rb_left g = Some p"
    "ld h rb_right g = Some (ptr s u)" "ngx_rbt_is_red h (ptr s u) = Some (red u)"
proof -
  show "ngx_rbt_is_red h (ptr s u) = Some (red u)" "ld h rb_right g = Some (ptr s u)"
    using zipper_red [of h s root q "FR P g c # k" u] zipper_ld [OF assms(1)] assms(1) by simp_all
  obtain a b d where "P = Nd (Nd a x True b) p True d \<or> P = Nd a p True (Nd b x True d)"
    using assms(2) by (auto simp: red_pair_def)
  then show "ld h rb_parent x = Some p" "ld h rb_parent p = Some g" "ld h rb_left g = Some p"
    using zipper_ld(3) [of h s root q "FL p True d # FL g c u # k" a x True b]
      zipper_ld(3) [of h s root q "FR a p True # FL g c u # k" b x True d]
      zipper_ld(3) [of h s root q "FL g c u # k" _ p] zipper_ld(1) [OF assms(1)] assms(1)
    by auto
qed

lemma insert_fix_left_recolor:
  assumes z: "zipper h s root q k (Nd P g False u)" and P: "red_pair x p P" and u: "red u"
  shows "\<exists>h'. insert_fix_left h root s x = Some (h', root, g) \<and>
    zipper h' s root q k (Nd (paint False P) g True (paint False u)) \<and>
    relinks (set (addrs (plug k (Nd P g False u)))) h h'"
proof -
  let ?A = "set (addrs (plug k (Nd P g False u)))"
  obtain l c r where Pe: "P = Nd l p c r" using P by (auto simp: red_pair_def)
  obtain ul w wc ur where ue: "u = Nd ul w wc ur" using u by (cases u) auto
  obtain h1 where h1: "ngx_rbt_black h p = Some h1" "zipper h1 s root q (FL g False u # k) (Nd l p False r)"
    "relinks ?A h h1"
    using zipper_paint(1) [of h s root q "FL g False u # k" l p c r] z Pe by auto
  obtain h2 where h2: "ngx_rbt_black h1 w = Some h2"
    "zipper h2 s root q (FR (Nd l p False r) g False # k) (Nd ul w False ur)" "relinks ?A h1 h2"
    using zipper_paint(1) [of h1 s root q "FR (Nd l p False r) g False # k" ul w wc ur] h1(2) Pe ue by auto
  obtain h3 where h3: "ngx_rbt_red h2 g = Some h3"
    "zipper h3 s root q k (Nd (Nd l p False r) g True (Nd ul w False ur))" "relinks ?A h2 h3"
    using zipper_paint(2) [of h2 s root q k "Nd l p False r" g False "Nd ul w False ur"] h2(2) Pe ue by auto
  have "insert_fix_left h root s x = Some (h3, root, g)"
    using red_pair_ld [OF z P] h1(1) h2(1) h3(1) u ue by (simp add: insert_fix_left_def)
  moreover have "relinks ?A h h3" using h1(3) h2(3) h3(3) by (blast intro: relinks_trans)
  ultimately show ?thesis using h3(2) Pe ue by simp
qed

text \<open>The last two colorings and the right rotation, with the red nodes already in line\<close>

lemma insert_fix_left_line:
  assumes z: "zipper h s root q k (Nd (Nd (Nd a l True b) m True c) g False u)"
  shows "\<exists>h1 h2 h3 root'. ngx_rbt_black h m = Some h1 \<and> ld h1 rb_parent m = Some g \<and>
    ngx_rbt_red h1 g = Some h2 \<and> ngx_rbtree_right_rotate h2 root s g = Some (h3, root') \<and>
    zipper h3 s root' q k (Nd (Nd a l True b) m False (Nd c g True u)) \<and>
    relinks (set (addrs (plug k (Nd (Nd (Nd a l True b) m True c) g False u)))) h h3"
proof -
  let ?A = "set (addrs (plug k (Nd (Nd (Nd a l True b) m True c) g False u)))"
  let ?l = "Nd a l True b"
  obtain h1 where h1: "ngx_rbt_black h m = Some h1" "zipper h1 s root q (FL g False u # k) (Nd ?l m False c)"
    "relinks ?A h h1"
    using zipper_paint(1) [of h s root q "FL g False u # k" ?l m True c] z by auto
  obtain h2 where h2: "ngx_rbt_red h1 g = Some h2" "zipper h2 s root q k (Nd (Nd ?l m False c) g True u)"
    "relinks ?A h1 h2"
    using zipper_paint(2) [of h1 s root q k "Nd ?l m False c" g False u] h1(2) by auto
  obtain h3 root' where h3: "ngx_rbtree_right_rotate h2 root s g = Some (h3, root')"
    "zipper h3 s root' q k (Nd ?l m False (Nd c g True u))" "relinks ?A h2 h3"
    using right_rotate [OF h2(2)] by auto
  have "relinks ?A h h3" using h1(3) h2(3) h3(3) by (blast intro: relinks_trans)
  then show ?thesis using h1 h2 h3 zipper_ld(3) [OF h1(2)] by auto
qed

lemma insert_fix_left_rotate:
  assumes z: "zipper h s root q k (Nd P g False u)" and P: "red_pair x p P" and u: "\<not> red u"
  shows "\<exists>h' root' l m a b c. insert_fix_left h root s x = Some (h', root', l) \<and>
    zipper h' s root' q k (Nd (Nd a l True b) m False (Nd c g True u)) \<and>
    (P = Nd (Nd a l True b) m True c \<or> P = Nd a l True (Nd b m True c)) \<and>
    relinks (set (addrs (plug k (Nd P g False u)))) h h'"
proof -
  note ld = red_pair_ld [OF z P]
  obtain a b c where "P = Nd (Nd a x True b) p True c \<or> P = Nd a p True (Nd b x True c)"
    using P by (auto simp: red_pair_def)
  then show ?thesis
  proof
    assume Pe: "P = Nd (Nd a x True b) p True c"
    have "x \<noteq> s" "x \<notin> set (addrs c)" using zipper_dist [OF z] Pe by auto
    then have "x \<noteq> ptr s c" by simp
    moreover have "ld h rb_right p = Some (ptr s c)"
      using zipper_ld(2) [of h s root q "FL g False u # k"] z Pe by auto
    ultimately have "insert_fix_left h root s x = Some (h3, root', x)"
      if "ngx_rbt_black h p = Some h1" "ld h1 rb_parent p = Some g"
        "ngx_rbt_red h1 g = Some h2" "ngx_rbtree_right_rotate h2 root s g = Some (h3, root')" for h1 h2 h3 root'
      using ld u that by (simp add: insert_fix_left_def)
    then show ?thesis using insert_fix_left_line [of h s root q k a x b p c g u] z Pe by blast
  next
    assume Pe: "P = Nd a p True (Nd b x True c)"
    have right: "ld h rb_right p = Some x" using zipper_ld(2) [of h s root q "FL g False u # k"] z Pe by auto
    obtain h1 root1 where h1: "ngx_rbtree_left_rotate h root s p = Some (h1, root1)"
      "zipper h1 s root1 q (FL g False u # k) (Nd (Nd a p True b) x True c)"
      "relinks (set (addrs (plug k (Nd P g False u)))) h h1"
      using left_rotate [of h s root q "FL g False u # k" a p True b x True c] z Pe by auto
    then have z1: "zipper h1 s root1 q k (Nd (Nd (Nd a p True b) x True c) g False u)" by simp
    have par: "ld h1 rb_parent p = Some x"
      using zipper_ld(3) [of h1 s root1 q "FL x True c # FL g False u # k" a p True b] h1(2) by simp
    obtain h2 h3 h4 root' where h: "ngx_rbt_black h1 x = Some h2" "ld h2 rb_parent x = Some g"
      "ngx_rbt_red h2 g = Some h3" "ngx_rbtree_right_rotate h3 root1 s g = Some (h4, root')"
      "zipper h4 s root' q k (Nd (Nd a p True b) x False (Nd c g True u))"
      "relinks (set (addrs (plug k (Nd P g False u)))) h1 h4"
      using insert_fix_left_line [OF z1] Pe by auto
    have "insert_fix_left h root s x = Some (h4, root', p)"
      using ld u right h1(1) par h(1-4) by (simp add: insert_fix_left_def)
    moreover have "relinks (set (addrs (plug k (Nd P g False u)))) h h4"
      using h1(3) h(6) by (rule relinks_trans)
    ultimately show ?thesis using h(5) Pe by blast
  qed
qed


text \<open>The loop\<close>

definition rebalanced :: "rbtree \<Rightarrow> rbtree \<Rightarrow> bool" where
  "rebalanced t t' \<longleftrightarrow> addrs t' = addrs t \<and> invh t' \<and> invc (paint False t')"

lemma insert_fixup_right_step:
  assumes "zipper h s root q k (Nd u g False P)" "red_pair x p (mirror P)"
  shows "ld h rb_parent x = Some p" "ld h rb_parent p = Some g" "ld h rb_left g = Some (ptr s u)"
    "red u \<Longrightarrow> \<exists>h'. insert_fix_right h root s x = Some (h', root, g) \<and>
      zipper h' s root q k (Nd (paint False u) g True (paint False P)) \<and>
      relinks (set (addrs (plug k (Nd u g False P)))) h h'"
    "\<not> red u \<Longrightarrow> \<exists>h' root' l m a b c. insert_fix_right h root s x = Some (h', root', l) \<and>
      zipper h' s root' q k (Nd (Nd u g True c) m False (Nd b l True a)) \<and>
      (P = Nd c m True (Nd b l True a) \<or> P = Nd (Nd c m True b) l True a) \<and>
      relinks (set (addrs (plug k (Nd u g False P)))) h h'"
proof -
  have z: "zipper (mir h) s root q (mirror_ctx k) (Nd (mirror P) g False (mirror u))"
    using assms(1) by (simp flip: mirror.simps)
  have A: "set (addrs (plug (mirror_ctx k) (Nd (mirror P) g False (mirror u)))) = set (addrs (plug k (Nd u g False P)))"
    using plug_mirror [of k "Nd u g False P"] by (metis mirror.simps(2) mirror_shape(3) set_rev)
  show "ld h rb_parent x = Some p" "ld h rb_parent p = Some g" "ld h rb_left g = Some (ptr s u)"
    using red_pair_ld [OF z assms(2)] by simp_all
  {
    assume "red u"
    then obtain h1 where "insert_fix_left (mir h) root s x = Some (h1, root, g)"
      and z1: "zipper h1 s root q (mirror_ctx k) (Nd (paint False (mirror P)) g True (paint False (mirror u)))"
      and r1: "relinks (set (addrs (plug k (Nd u g False P)))) (mir h) h1"
      using insert_fix_left_recolor [OF z assms(2)] unfolding A by auto
    then obtain h' where h': "insert_fix_right h root s x = Some (h', root, g)" "h1 = mir h'"
      by (auto simp: insert_fix_mir)
    have "paint False (mirror t) = mirror (paint False t)" for t by (cases t) auto
    then have "zipper (mir h') s root q (mirror_ctx k) (mirror (Nd (paint False u) g True (paint False P)))"
      using z1 h'(2) by simp
    then show "\<exists>h'. insert_fix_right h root s x = Some (h', root, g) \<and>
      zipper h' s root q k (Nd (paint False u) g True (paint False P)) \<and>
      relinks (set (addrs (plug k (Nd u g False P)))) h h'"
      using h' r1 by (auto simp only: zipper_mir relinks_mir)
  next
    assume "\<not> red u"
    then obtain h1 root' l m a b c where "insert_fix_left (mir h) root s x = Some (h1, root', l)"
      and z1: "zipper h1 s root' q (mirror_ctx k) (Nd (Nd a l True b) m False (Nd c g True (mirror u)))"
      and P: "mirror P = Nd (Nd a l True b) m True c \<or> mirror P = Nd a l True (Nd b m True c)"
      and r1: "relinks (set (addrs (plug k (Nd u g False P)))) (mir h) h1"
      using insert_fix_left_rotate [OF z assms(2)] unfolding A by auto
    then obtain h' where h': "insert_fix_right h root s x = Some (h', root', l)" "h1 = mir h'"
      by (auto simp: insert_fix_mir)
    have "zipper (mir h') s root' q (mirror_ctx k)
        (mirror (Nd (Nd u g True (mirror c)) m False (Nd (mirror b) l True (mirror a))))"
      using z1 h'(2) by simp
    moreover have "P = Nd (mirror c) m True (Nd (mirror b) l True (mirror a)) \<or>
        P = Nd (Nd (mirror c) m True (mirror b)) l True (mirror a)"
      using P by (metis mirror.simps(2) mirror_mirror)
    ultimately show "\<exists>h' root' l m a b c. insert_fix_right h root s x = Some (h', root', l) \<and>
      zipper h' s root' q k (Nd (Nd u g True c) m False (Nd b l True a)) \<and>
      (P = Nd c m True (Nd b l True a) \<or> P = Nd (Nd c m True b) l True a) \<and>
      relinks (set (addrs (plug k (Nd u g False P)))) h h'"
      using h'(1) r1 unfolding zipper_mir h'(2) relinks_mir by blast
  }
qed

text \<open>
  One round: the loop goes on from the grandparent, now red, in a smaller context, or it ends with a
  black node in the place of the grandparent.
\<close>

definition similar :: "rbtree \<Rightarrow> rbtree \<Rightarrow> bool" where
  "similar t t' \<longleftrightarrow> addrs t' = addrs t \<and> bh t' = bh t \<and> invh t'"

definition fix_step :: "'a rbheap \<Rightarrow> u64 \<Rightarrow> u64 \<Rightarrow> u64 \<Rightarrow> u64 \<Rightarrow> frame list \<Rightarrow> rbtree \<Rightarrow> bool" where
  "fix_step h root s q x k t \<longleftrightarrow>
     (\<exists>h' l g r. insert_fixup h root s x = insert_fixup h' root s g \<and>
        zipper h' s root q k (Nd l g True r) \<and> invc (Nd l g True r) \<and> similar t (Nd l g True r) \<and>
        relinks (set (addrs (plug k t))) h h') \<or>
     (\<exists>h' root' t'. insert_fixup h root s x = Some (h', root') \<and>
        zipper h' s root' q k t' \<and> \<not> red t' \<and> invc t' \<and> similar t t' \<and>
        relinks (set (addrs (plug k t))) h h')"

lemma insert_fixup_black:
  assumes "zipper h s root q (f # k) (Nd l x c r)" "ngx_rbt_is_red h (frame_addr f) = Some False"
  shows "insert_fixup h root s x = Some (h, root)"
  using assms zipper_not_root [OF assms(1)] zipper_ld(3) [OF assms(1)] by (subst insert_fixup.simps) auto

lemma fix_step_left:
  assumes z: "zipper h s root q (f # FL g False u # k) (Nd l x True r)"
    and f: "cok False [f]" "\<not> cok True [f]" and inv: "invc (Nd l x True r)" "invc u"
      "invh (plug (f # [FL g False u]) (Nd l x True r))"
  shows "fix_step h root s q x k (plug (f # [FL g False u]) (Nd l x True r))"
proof -
  let ?P = "plug [f] (Nd l x True r)"
  have P: "red_pair x (frame_addr f) ?P" using f by (cases f) (auto simp: red_pair_def)
  have zG: "zipper h s root q k (Nd ?P g False u)" using z by (cases f) simp_all
  note ld = red_pair_ld [OF zG P]
  have red: "ngx_rbt_is_red h (frame_addr f) = Some True"
    using zipper_ld(4) [of h s root q "FL g False u # k" _ "frame_addr f" True] z f by (cases f) auto
  show ?thesis
  proof (cases "red u")
    case True
    then obtain h' where h': "insert_fix_left h root s x = Some (h', root, g)"
      "zipper h' s root q k (Nd (paint False ?P) g True (paint False u))"
      "relinks (set (addrs (plug k (Nd ?P g False u)))) h h'"
      using insert_fix_left_recolor [OF zG P] by blast
    have "insert_fixup h root s x = insert_fixup h' root s g"
      using ld red h'(1) zipper_not_root [OF z] by (subst insert_fixup.simps) simp
    moreover have "invc (Nd (paint False ?P) g True (paint False u))"
      using f inv by (cases f) (auto intro: invc_paint)
    moreover have "similar (plug (f # [FL g False u]) (Nd l x True r)) (Nd (paint False ?P) g True (paint False u))"
      using f inv True by (cases f; cases u) (auto simp: similar_def)
    ultimately show ?thesis unfolding fix_step_def
      using h'(2,3) by (intro disjI1 exI [of _ h'] exI [of _ g] exI conjI) (assumption | cases f; simp)+
  next
    case False
    then obtain h' root' l' m a b c where h': "insert_fix_left h root s x = Some (h', root', l')"
      "zipper h' s root' q k (Nd (Nd a l' True b) m False (Nd c g True u))"
      "?P = Nd (Nd a l' True b) m True c \<or> ?P = Nd a l' True (Nd b m True c)"
      "relinks (set (addrs (plug k (Nd ?P g False u)))) h h'"
      using insert_fix_left_rotate [OF zG P] by blast
    have z': "zipper h' s root' q (FL m False (Nd c g True u) # k) (Nd a l' True b)" using h'(2) by simp
    have "ngx_rbt_is_red h' m = Some False" using zipper_ld(4) [OF h'(2)] .
    then have "insert_fixup h' root' s l' = Some (h', root')" using insert_fixup_black [OF z'] by simp
    then have "insert_fixup h root s x = Some (h', root')"
      using ld red h'(1) zipper_not_root [OF z] by (subst insert_fixup.simps) simp
    moreover have "invc (Nd (Nd a l' True b) m False (Nd c g True u))"
      using f inv False h'(3) by (cases f) auto
    moreover have "similar (plug (f # [FL g False u]) (Nd l x True r)) (Nd (Nd a l' True b) m False (Nd c g True u))"
      using f inv h'(3) by (cases f) (auto simp: similar_def)
    ultimately show ?thesis unfolding fix_step_def
      using h'(2,4) by (intro disjI2 exI [of _ h'] exI [of _ root'] exI conjI) (assumption | cases f; simp)+
  qed
qed

lemma fix_step_right:
  assumes z: "zipper h s root q (f # FR u g False # k) (Nd l x True r)"
    and f: "cok False [f]" "\<not> cok True [f]" and inv: "invc (Nd l x True r)" "invc u"
      "invh (plug (f # [FR u g False]) (Nd l x True r))"
  shows "fix_step h root s q x k (plug (f # [FR u g False]) (Nd l x True r))"
proof -
  let ?P = "plug [f] (Nd l x True r)"
  have P: "red_pair x (frame_addr f) (mirror ?P)" using f by (cases f) (auto simp: red_pair_def)
  have zG: "zipper h s root q k (Nd u g False ?P)" using z by (cases f) simp_all
  note step = insert_fixup_right_step [OF zG P]
  have red: "ngx_rbt_is_red h (frame_addr f) = Some True"
    using zipper_ld(4) [of h s root q "FR u g False # k" _ "frame_addr f" True] z f by (cases f) auto
  have "frame_addr f \<noteq> s" "frame_addr f \<notin> set (addrs u)" using zipper_dist [OF z] by (cases f; auto)+
  then have gl: "frame_addr f \<noteq> ptr s u" by simp
  show ?thesis
  proof (cases "red u")
    case True
    then obtain h' where h': "insert_fix_right h root s x = Some (h', root, g)"
      "zipper h' s root q k (Nd (paint False u) g True (paint False ?P))"
      "relinks (set (addrs (plug k (Nd u g False ?P)))) h h'"
      using step(4) by blast
    have "insert_fixup h root s x = insert_fixup h' root s g"
      using step(1-3) gl red h'(1) zipper_not_root [OF z] by (subst insert_fixup.simps) simp
    moreover have "invc (Nd (paint False u) g True (paint False ?P))"
      using f inv by (cases f) (auto intro: invc_paint)
    moreover have "similar (plug (f # [FR u g False]) (Nd l x True r)) (Nd (paint False u) g True (paint False ?P))"
      using f inv True by (cases f; cases u) (auto simp: similar_def)
    ultimately show ?thesis unfolding fix_step_def
      using h'(2,3) by (intro disjI1 exI [of _ h'] exI [of _ g] exI conjI) (assumption | cases f; simp)+
  next
    case False
    then obtain h' root' l' m a b c where h': "insert_fix_right h root s x = Some (h', root', l')"
      "zipper h' s root' q k (Nd (Nd u g True c) m False (Nd b l' True a))"
      "?P = Nd c m True (Nd b l' True a) \<or> ?P = Nd (Nd c m True b) l' True a"
      "relinks (set (addrs (plug k (Nd u g False ?P)))) h h'"
      using step(5) by blast
    have z': "zipper h' s root' q (FR (Nd u g True c) m False # k) (Nd b l' True a)" using h'(2) by simp
    have "ngx_rbt_is_red h' m = Some False" using zipper_ld(4) [OF h'(2)] .
    then have "insert_fixup h' root' s l' = Some (h', root')" using insert_fixup_black [OF z'] by simp
    then have "insert_fixup h root s x = Some (h', root')"
      using step(1-3) gl red h'(1) zipper_not_root [OF z] by (subst insert_fixup.simps) simp
    moreover have "invc (Nd (Nd u g True c) m False (Nd b l' True a))"
      using f inv False h'(3) by (cases f) auto
    moreover have "similar (plug (f # [FR u g False]) (Nd l x True r)) (Nd (Nd u g True c) m False (Nd b l' True a))"
      using f inv h'(3) by (cases f) (auto simp: similar_def)
    ultimately show ?thesis unfolding fix_step_def
      using h'(2,4) by (intro disjI2 exI [of _ h'] exI [of _ root'] exI conjI) (assumption | cases f; simp)+
  qed
qed

lemma rebalancedI:
  assumes "invc t" "cok (red t) k" "similar t0 t" "invh (plug k t0)"
  shows "rebalanced (plug k t0) (plug k t)"
  using assms by (auto simp: rebalanced_def similar_def intro: invc_paint)

lemma fix_step_correct:
  assumes z: "zipper h s root q (f # f2 # k2) (Nd l x True r)" and c: "invc (Nd l x True r)"
    and k: "cok False (f # f2 # k2)" "\<not> cok True [f]" and i: "invh (plug (f # f2 # k2) (Nd l x True r))"
  shows "fix_step h root s q x k2 (plug [f, f2] (Nd l x True r))" and "cok False k2"
    and "invh (plug [f, f2] (Nd l x True r))" "hok (bh (plug [f, f2] (Nd l x True r))) k2"
proof -
  have "plug (f # f2 # k2) t = plug k2 (plug [f, f2] t)" for t using plug_append [of "[f, f2]" k2 t] by simp
  then have f: "cok False [f]" "cok False k2" and h: "invh (plug [f, f2] (Nd l x True r))"
      "hok (bh (plug [f, f2] (Nd l x True r))) k2"
    using k i by (cases f; cases f2; simp)+
  show "fix_step h root s q x k2 (plug [f, f2] (Nd l x True r))"
  proof (cases f2)
    case (FL g c u)
    then have "\<not> c" "invc u" using k by (cases f; auto)+
    then show ?thesis using fix_step_left [of h s root q f g u k2] z FL f(1) k(2) c h(1) by simp
  next
    case (FR u g c)
    then have "\<not> c" "invc u" using k by (cases f; auto)+
    then show ?thesis using fix_step_right [of h s root q f u g k2] z FR f(1) k(2) c h(1) by simp
  qed
  show "cok False k2" "invh (plug [f, f2] (Nd l x True r))" "hok (bh (plug [f, f2] (Nd l x True r))) k2"
    by (fact f h)+
qed

lemma insert_fixup_correct:
  assumes "zipper h s root q k (Nd l x True r)" "invc (Nd l x True r)" "cok False k"
    "\<forall>f k'. k = f # k' \<longrightarrow> \<not> red (plug k Lf)" "invh (plug k (Nd l x True r))"
  shows "\<exists>h' root' t'. insert_fixup h root s x = Some (h', root') \<and> zipper h' s root' q [] t' \<and>
    rebalanced (plug k (Nd l x True r)) t' \<and> relinks (set (addrs t')) h h'"
  using assms
proof (induction "length k" arbitrary: h root k l x r rule: less_induct)
  case less
  note z = less.prems(1)
  let ?x = "Nd l x True r"
  show ?case
  proof (cases k)
    case Nil
    then have "insert_fixup h root s x = Some (h, root)"
      using zipper_root [OF z] by (subst insert_fixup.simps) simp
    then show ?thesis using less.prems Nil rebalancedI [of ?x "[]" ?x] by (auto simp: similar_def)
  next
    case (Cons f k1)
    show ?thesis
    proof (cases "cok True [f]")
      case True
      then have "ngx_rbt_is_red h (frame_addr f) = Some False"
        using z Cons zipper_ld(4) [of h s root q k1 _ "frame_addr f" False] by (cases f) auto
      then have "insert_fixup h root s x = Some (h, root)" using insert_fixup_black z Cons by blast
      moreover have "rebalanced (plug k ?x) (plug k ?x)"
        using less.prems True Cons by (intro rebalancedI) (cases f; auto simp: similar_def)+
      ultimately show ?thesis using z zipper_plug [of h s root q k ?x] by auto
    next
      case False
      obtain f2 k2 where k1: "k1 = f2 # k2" using False Cons less.prems(3,4) by (cases k1; cases f) auto
      then have k: "k = f # f2 # k2" using Cons by simp
      let ?G = "plug [f, f2] ?x"
      have G: "plug k t = plug k2 (plug [f, f2] t)" for t using plug_append [of "[f, f2]" k2 t] k by simp
      note step = fix_step_correct [of h s root q f f2 k2 l x r, folded k, OF z less.prems(2,3) False less.prems(5)]
      from step(1)
      consider
        (go) h' l' g r' where "insert_fixup h root s x = insert_fixup h' root s g"
          "zipper h' s root q k2 (Nd l' g True r')" "invc (Nd l' g True r')" "similar ?G (Nd l' g True r')"
          "relinks (set (addrs (plug k2 ?G))) h h'"
      | (stop) h' root' t' where "insert_fixup h root s x = Some (h', root')"
          "zipper h' s root' q k2 t'" "\<not> red t'" "invc t'" "similar ?G t'"
          "relinks (set (addrs (plug k2 ?G))) h h'"
        unfolding fix_step_def by blast
      then show ?thesis
      proof cases
        case go
        have "\<forall>f' k'. k2 = f' # k' \<longrightarrow> \<not> red (plug k2 Lf)"
          using less.prems(4) k G [of Lf] red_plug by metis
        moreover have "invh (plug k2 (Nd l' g True r'))"
          using go(4) step(3,4) by (simp only: invh_plug similar_def)
        ultimately obtain h'' root' t' where t': "insert_fixup h' root s g = Some (h'', root')"
          "zipper h'' s root' q [] t'" "rebalanced (plug k2 (Nd l' g True r')) t'" "relinks (set (addrs t')) h' h''"
          using less.hyps [OF _ go(2,3) step(2)] k by auto
        have "addrs (plug k2 (Nd l' g True r')) = addrs (plug k ?x)"
          using go(4) unfolding G addrs_plug similar_def by simp
        then have "rebalanced (plug k ?x) t'" "addrs t' = addrs (plug k2 ?G)"
          using t'(3) G [of ?x] by (simp_all add: rebalanced_def del: addrs_plug)
        then show ?thesis using go(1,5) t'(1,2,4) relinks_trans by metis
      next
        case stop
        have "rebalanced (plug k2 ?G) (plug k2 t')"
        proof (rule rebalancedI)
          show "invh (plug k2 ?G)" using step(3,4) by (simp only: invh_plug)
        qed (use stop step(2) in simp_all)
        moreover from this have "addrs (plug k2 t') = addrs (plug k2 ?G)" by (simp add: rebalanced_def)
        ultimately show ?thesis using stop(1,2,6) zipper_plug [of h' s root' q k2 t'] unfolding G by metis
      qed
    qed
  qed
qed

end
