(* ===== verification/Rborder.thy ===== *)
theory Rborder imports Rbinsert begin

text \<open>
  The insertion functions of a tree as an interface: a client of \<open>ngx_rbtree_insert\<close> relies on a function
  that attaches a new node as a red leaf at the place its key has in the order of the tree.  The loop
  shared by the three functions of the source meets that contract for every test that compares keys.
\<close>

subsection \<open>The order of the nodes\<close>

definition rbtree_at :: "'a rbheap \<Rightarrow> 'a ngx_rbtree \<Rightarrow> rbtree \<Rightarrow> bool" where
  "rbtree_at h T t \<longleftrightarrow> (\<exists>q. zipper h (t_sentinel T) (t_root T) q [] t)"

abbreviation key_at :: "('a ngx_rbtree_node_scheme \<Rightarrow> 'k) \<Rightarrow> 'a rbheap \<Rightarrow> u64 \<Rightarrow> 'k" where
  "key_at kf h a \<equiv> kf (the (h a))"

definition ordered ::
  "('a ngx_rbtree_node_scheme \<Rightarrow> 'k :: linorder) \<Rightarrow> ('a ngx_rbtree_node_scheme \<Rightarrow> bool) \<Rightarrow> 'a rbheap \<Rightarrow> u64 list \<Rightarrow> bool" where
  "ordered kf ok h xs \<longleftrightarrow> sorted (map (key_at kf h) xs) \<and> (\<forall>a\<in>set xs. ok (the (h a)))"

text \<open>Insertion behind all elements of smaller or equal keys\<close>

definition insert_after :: "('b \<Rightarrow> 'k :: linorder) \<Rightarrow> 'b \<Rightarrow> 'b list \<Rightarrow> 'b list" where
  "insert_after f x xs = takeWhile (\<lambda>y. f y \<le> f x) xs @ x # dropWhile (\<lambda>y. f y \<le> f x) xs"

lemma insert_after_eq:
  assumes "\<forall>y\<in>set ys. f y \<le> f x" "\<forall>z\<in>set zs. f x < f z"
  shows "insert_after f x (ys @ zs) = ys @ x # zs"
  using assms by (cases zs) (auto simp: insert_after_def takeWhile_append dropWhile_append)

lemma sorted_insert_after:
  assumes "sorted (map f xs)" shows "sorted (map f (insert_after f x xs))"
proof -
  have "f x < f y" if "y \<in> set (dropWhile (\<lambda>y. f y \<le> f x) xs)" for y
    using assms that
  proof (induction xs)
    case (Cons z zs) then show ?case by (cases "f z \<le> f x") fastforce+
  qed simp
  moreover have "f z \<le> f x" if "z \<in> set (takeWhile (\<lambda>y. f y \<le> f x) xs)" for z
    using that by (auto dest: set_takeWhileD)
  moreover have "sorted (map f (takeWhile (\<lambda>y. f y \<le> f x) xs))" "sorted (map f (dropWhile (\<lambda>y. f y \<le> f x) xs))"
    using assms by (simp_all add: sorted_wrt_takeWhile sorted_wrt_dropWhile sorted_map)
  ultimately show ?thesis by (fastforce simp: insert_after_def sorted_append)
qed

lemma set_insert_after [simp]: "set (insert_after f x xs) = insert x (set xs)"
proof -
  have "set (takeWhile (\<lambda>y. f y \<le> f x) xs) \<union> set (dropWhile (\<lambda>y. f y \<le> f x) xs) = set xs"
    by (metis set_append takeWhile_dropWhile_id)
  then show ?thesis by (auto simp: insert_after_def)
qed

lemma relinks_payload: "relinks A h h' \<Longrightarrow> h a = Some n \<Longrightarrow> \<exists>n'. h' a = Some n' \<and> payload n' = payload n"
proof -
  assume "relinks A h h'" "h a = Some n"
  then have "map_option payload (h' a) = Some (payload n)" by (simp add: relinks_def)
  then show ?thesis by auto
qed

lemma tree_at_alloc: "tree_at h s q t \<Longrightarrow> a \<in> set (addrs t) \<Longrightarrow> h a \<noteq> None"
  by (induction t arbitrary: q) (auto simp: cell_def)

lemma zipper_alloc: "zipper h s root q [] t \<Longrightarrow> a \<in> set (addrs t) \<Longrightarrow> h a \<noteq> None"
  by (auto simp: zipper_def dest: tree_at_alloc)

subsection \<open>The contract\<close>

locale rb_inserter =
  fixes ins :: "'a rbheap \<Rightarrow> u64 \<Rightarrow> u64 \<Rightarrow> u64 \<Rightarrow> 'a rbheap option"
    and kf :: "'a ngx_rbtree_node_scheme \<Rightarrow> 'k :: linorder"
    and ok :: "'a ngx_rbtree_node_scheme \<Rightarrow> bool"
  assumes payload_key: "payload m = payload n \<Longrightarrow> kf m = kf n"
    and payload_ok: "payload m = payload n \<Longrightarrow> ok m = ok n"
    and attaches: "zipper h s root q [] t \<Longrightarrow> t \<noteq> Lf \<Longrightarrow> ordered kf ok h (addrs t) \<Longrightarrow>
      h x = Some n \<Longrightarrow> ok n \<Longrightarrow> x \<notin> set (s # addrs t) \<Longrightarrow>
      \<exists>h' k. ins h root x s = Some h' \<and> plug k Lf = t \<and> zipper h' s root q k (Nd Lf x True Lf) \<and>
        relinks (insert x (set (addrs t))) h h' \<and>
        (\<forall>a\<in>set (before k). key_at kf h a \<le> kf n) \<and> (\<forall>a\<in>set (after k). kf n < key_at kf h a)"
begin

lemma key_relinks: "relinks A h h' \<Longrightarrow> h a \<noteq> None \<Longrightarrow> key_at kf h' a = key_at kf h a"
  by (auto dest!: relinks_payload intro: payload_key)

lemma ok_relinks: "relinks A h h' \<Longrightarrow> h a \<noteq> None \<Longrightarrow> ok (the (h' a)) = ok (the (h a))"
  by (auto dest!: relinks_payload dest: payload_ok)

lemma ordered_relinks:
  assumes "relinks A h h'" "\<forall>a\<in>set xs. h a \<noteq> None"
  shows "ordered kf ok h' xs = ordered kf ok h xs"
proof -
  have m: "map (key_at kf h') xs = map (key_at kf h) xs" using key_relinks [OF assms(1)] assms(2) by auto
  have "\<forall>a\<in>set xs. ok (the (h' a)) = ok (the (h a))" using ok_relinks [OF assms(1)] assms(2) by blast
  then show ?thesis unfolding ordered_def m by auto
qed

text \<open>\<open>ngx_rbtree_insert\<close> with such a function\<close>

lemma insert_empty:
  assumes T: "rbtree_at h T Lf" and x: "h x = Some n" "ok n" "x \<noteq> t_sentinel T"
  shows "\<exists>h' root' t'. ngx_rbtree_insert h T x = Some (h', T\<lparr>t_root := root'\<rparr>) \<and>
    rbtree_at h' (T\<lparr>t_root := root'\<rparr>) t' \<and> rb t' \<and> ordered kf ok h' (addrs t') \<and>
    addrs t' = [x] \<and> relinks {x} h h'"
proof -
  have root: "t_root T = t_sentinel T" and s: "sentinel_ok h (t_sentinel T)"
    using T(1) by (auto simp: rbtree_at_def zipper_def)
  let ?n = "set_color 0 (set_right (t_sentinel T) (set_left (t_sentinel T) (set_parent 0 n)))"
  let ?h = "h(x \<mapsto> ?n)"
  have "ngx_rbtree_insert h T x = Some (?h, T\<lparr>t_root := x\<rparr>)"
    using root x(1) by (simp add: ngx_rbtree_insert_def ngx_rbt_black_def)
  moreover have "zipper ?h (t_sentinel T) x 0 [] (Nd Lf x False Lf)"
    using x s by (auto simp: zipper_def cell_def)
  then have "rbtree_at ?h (T\<lparr>t_root := x\<rparr>) (Nd Lf x False Lf)" by (auto simp: rbtree_at_def)
  moreover have "relinks {x} h ?h" using x by (intro relinks_upd [of _ h h]) auto
  moreover have "ok ?n" using payload_ok [of ?n n] x(2) by simp
  ultimately show ?thesis
    by (intro exI [of _ ?h] exI [of _ x] exI [of _ "Nd Lf x False Lf"])
      (simp add: rb_def ordered_def)
qed

lemma insert_correct:
  assumes T: "rbtree_at h T t" "t_insert T = ins" and t: "rb t" "ordered kf ok h (addrs t)"
    and x: "h x = Some n" "ok n" "x \<notin> set (t_sentinel T # addrs t)"
  shows "\<exists>h' root' t'. ngx_rbtree_insert h T x = Some (h', T\<lparr>t_root := root'\<rparr>) \<and>
    rbtree_at h' (T\<lparr>t_root := root'\<rparr>) t' \<and> rb t' \<and> ordered kf ok h' (addrs t') \<and>
    addrs t' = insert_after (key_at kf h) x (addrs t) \<and> relinks (insert x (set (addrs t))) h h'"
proof (cases "t = Lf")
  case True
  then show ?thesis using insert_empty [of h T x n] T(1) x by (simp add: insert_after_def)
next
  case False
  from T(1) obtain q where z: "zipper h (t_sentinel T) (t_root T) q [] t" by (auto simp: rbtree_at_def)
  from attaches [OF this False t(2) x] obtain h1 k where h1: "ins h (t_root T) x (t_sentinel T) = Some h1"
    "plug k Lf = t" "zipper h1 (t_sentinel T) (t_root T) q k (Nd Lf x True Lf)"
    "relinks (insert x (set (addrs t))) h h1"
    "\<forall>a\<in>set (before k). key_at kf h a \<le> kf n" "\<forall>a\<in>set (after k). kf n < key_at kf h a"
    by blast
  have k: "cok False k" "hok 0 k" "\<forall>f k'. k = f # k' \<longrightarrow> \<not> red (plug k Lf)"
    using t(1) unfolding rb_def h1(2) [symmetric] by auto
  then obtain h2 root' t2 where h2: "insert_fixup h1 (t_root T) (t_sentinel T) x = Some (h2, root')"
    "zipper h2 (t_sentinel T) root' q [] t2" "rebalanced (plug k (Nd Lf x True Lf)) t2"
    "relinks (set (addrs t2)) h1 h2"
    using insert_fixup_correct [OF h1(3)] by auto
  have addrs: "addrs t2 = before k @ x # after k" "addrs t = before k @ after k"
    using h2(3) addrs_plug [of k Lf] unfolding h1(2) by (simp_all add: rebalanced_def)
  then obtain l a c r where t2: "t2 = Nd l a c r" by (cases t2) auto
  then obtain h3 where h3: "ngx_rbt_black h2 root' = Some h3" "zipper h3 (t_sentinel T) root' q [] (paint False t2)"
    "relinks (set (addrs t2)) h2 h3"
    using zipper_paint(1) [of h2 "t_sentinel T" root' q "[]" l a c r] h2(2) zipper_root [OF h2(2)] by auto
  have root: "t_root T \<noteq> t_sentinel T"
    using False zipper_root [OF z] zipper_dist [OF z] by (cases t) auto
  have "ngx_rbtree_insert h T x = Some (h3, T\<lparr>t_root := root'\<rparr>)"
    using root T(2) h1(1) h2(1) h3(1) by (simp add: ngx_rbtree_insert_def)
  moreover have "rbtree_at h3 (T\<lparr>t_root := root'\<rparr>) (paint False t2)"
    using h3(2) by (auto simp: rbtree_at_def)
  moreover have "rb (paint False t2)" using h2(3) by (simp add: rb_def rebalanced_def)
  moreover have after: "addrs t2 = insert_after (key_at kf h) x (addrs t)"
    using insert_after_eq [of "before k" "key_at kf h" x "after k"] h1(5,6) x(1) addrs by simp
  moreover have A: "set (addrs t2) = insert x (set (addrs t))" using addrs by auto
  have r: "relinks (insert x (set (addrs t))) h h3"
    using h1(4) h2(4) h3(3) unfolding A by (blast intro: relinks_trans)
  moreover have "ordered kf ok h3 (addrs t2)"
  proof -
    have dom: "\<forall>a\<in>set (addrs t). h a \<noteq> None" using z zipper_alloc by fastforce
    then have "ordered kf ok h3 (addrs t2) = ordered kf ok h (addrs t2)"
      using ordered_relinks [OF r] A x(1) by auto
    also have "\<dots>" using t(2) x sorted_insert_after [of "key_at kf h" "addrs t" x]
      by (auto simp: ordered_def after)
    finally show ?thesis by simp
  qed
  ultimately show ?thesis
    by (intro exI [of _ h3] exI [of _ root'] exI [of _ "paint False t2"]) simp
qed

end


subsection \<open>The loop of the insertion functions\<close>

lemma child_ld: "child h True p = ld h rb_left p" "child h False p = ld h rb_right p"
  by (simp_all add: child_def)

lemma attach_correct:
  assumes z: "zipper h s root q (f # k) Lf" and x: "h x = Some n" "x \<notin> set (s # addrs (plug (f # k) Lf))"
  shows "\<exists>h'. attach h (frame_addr f, is_left f) x s = Some h' \<and>
    zipper h' s root q (f # k) (Nd Lf x True Lf) \<and> relinks (insert x (set (addrs (plug (f # k) Lf)))) h h'"
proof -
  obtain m where m: "h (frame_addr f) = Some m" using z by (cases f) (auto simp: zipper_def cell_def)
  let ?m = "(if is_left f then set_left x else set_right x) m"
  let ?n = "set_color 1 (set_right s (set_left s (set_parent (frame_addr f) n)))"
  let ?h = "h(frame_addr f \<mapsto> ?m, x \<mapsto> ?n)"
  have neq: "x \<noteq> frame_addr f" using x(2) by (cases f) auto
  then have "attach h (frame_addr f, is_left f) x s = Some ?h"
    using m x(1) by (simp add: attach_def ngx_rbt_red_def)
  moreover have "relinks (insert x (set (addrs (plug (f # k) Lf)))) h ?h"
    using m x(1) neq by (cases f) (auto intro!: relinks_upd2)
  moreover have "zipper ?h s root q (f # k) (Nd Lf x True Lf)"
    using z m x neq by (cases f) (auto simp: zipper_def cell_def simp del: zipper_up)
  ultimately show ?thesis by blast
qed

locale node_order =
  fixes below :: "'a rbheap \<Rightarrow> u64 \<Rightarrow> u64 \<Rightarrow> bool option"
    and kf :: "'a ngx_rbtree_node_scheme \<Rightarrow> 'k :: linorder"
    and ok :: "'a ngx_rbtree_node_scheme \<Rightarrow> bool"
  assumes key_payload: "payload m = payload n \<Longrightarrow> kf m = kf n"
    and ok_payload: "payload m = payload n \<Longrightarrow> ok m = ok n"
    and below_key: "h x = Some m \<Longrightarrow> h y = Some n \<Longrightarrow> ok m \<Longrightarrow> ok n \<Longrightarrow> below h x y = Some (kf m < kf n)"
begin

lemma descend_correct:
  assumes "zipper h s root q k t" "t \<noteq> Lf" "ordered kf ok h (addrs t)" "h x = Some n" "ok n"
    and "\<forall>a\<in>set (before k). key_at kf h a \<le> kf n" "\<forall>a\<in>set (after k). kf n < key_at kf h a"
  shows "\<exists>f k'. descend below h (ptr s t) x s = Some (frame_addr f, is_left f) \<and>
    plug (f # k') Lf = plug k t \<and>
    (\<forall>a\<in>set (before (f # k')). key_at kf h a \<le> kf n) \<and> (\<forall>a\<in>set (after (f # k')). kf n < key_at kf h a)"
  using assms
proof (induction t arbitrary: k)
  case (Nd l a c r)
  obtain m where m: "h a = Some m" using Nd.prems(1) by (auto simp: zipper_def cell_def)
  have keys: "\<forall>b\<in>set (addrs l). key_at kf h b \<le> kf m" "\<forall>b\<in>set (addrs r). kf m \<le> key_at kf h b"
    "ok m" "ordered kf ok h (addrs l)" "ordered kf ok h (addrs r)"
    using Nd.prems(3) m by (auto simp: ordered_def sorted_append)
  define f where "f = (if kf n < kf m then FL a c r else FR l a c)"
  define t where "t = (if kf n < kf m then l else r)"
  have step: "below h x a = Some (is_left f)" "child h (is_left f) a = Some (ptr s t)" "frame_addr f = a"
    using below_key [OF Nd.prems(4) m Nd.prems(5) keys(3)] zipper_ld [OF Nd.prems(1)]
    by (simp_all add: f_def t_def child_ld)
  have z: "zipper h s root q (f # k) t" and plug: "plug (f # k) t = plug k (Nd l a c r)"
    using Nd.prems(1) by (simp_all add: f_def t_def)
  have bounds: "\<forall>a\<in>set (before (f # k)). key_at kf h a \<le> kf n" "\<forall>a\<in>set (after (f # k)). kf n < key_at kf h a"
    using Nd.prems(6,7) keys(1,2) m by (auto simp: f_def intro: order_trans less_le_trans)
  show ?case
  proof (cases "t = Lf")
    case True
    then have "descend below h a x s = Some (frame_addr f, is_left f)"
      using step by (subst descend.simps) simp
    then show ?thesis using True plug bounds by (intro exI [of _ f] exI [of _ k]) simp
  next
    case False
    then have "ptr s t \<noteq> s" using zipper_dist [OF z] by (cases t) auto
    then have "descend below h a x s = descend below h (ptr s t) x s"
      using step by (subst descend.simps) simp
    moreover have "ordered kf ok h (addrs t)" using keys by (simp add: t_def)
    then have "\<exists>f' k'. descend below h (ptr s t) x s = Some (frame_addr f', is_left f') \<and>
        plug (f' # k') Lf = plug (f # k) t \<and>
        (\<forall>a\<in>set (before (f' # k')). key_at kf h a \<le> kf n) \<and> (\<forall>a\<in>set (after (f' # k')). kf n < key_at kf h a)"
      using Nd.IH z False Nd.prems(4,5) bounds unfolding t_def by (auto split: if_splits)
    ultimately show ?thesis using plug by simp
  qed
qed simp

end

sublocale node_order \<subseteq> rb_inserter "insert_by below" kf ok
proof
  fix h :: "'a rbheap" and s root q t x n
  assume z: "zipper h s root q [] t" and t: "t \<noteq> Lf" "ordered kf ok h (addrs t)"
    and x: "h x = Some n" "ok n" "x \<notin> set (s # addrs t)"
  obtain f k where f: "descend below h (ptr s t) x s = Some (frame_addr f, is_left f)" "plug (f # k) Lf = t"
    "\<forall>a\<in>set (before (f # k)). key_at kf h a \<le> kf n" "\<forall>a\<in>set (after (f # k)). kf n < key_at kf h a"
    using descend_correct [OF z t x(1,2)] by auto
  then have "zipper h s root q (f # k) Lf" using zipper_plug [of h s root q "f # k" Lf] z by simp
  then obtain h' where "attach h (frame_addr f, is_left f) x s = Some h'"
    "zipper h' s root q (f # k) (Nd Lf x True Lf)" "relinks (insert x (set (addrs t))) h h'"
    using attach_correct [of h s root q f k x n] x f(2) by auto
  then show "\<exists>h' k. insert_by below h root x s = Some h' \<and> plug k Lf = t \<and>
      zipper h' s root q k (Nd Lf x True Lf) \<and> relinks (insert x (set (addrs t))) h h' \<and>
      (\<forall>a\<in>set (before k). key_at kf h a \<le> kf n) \<and> (\<forall>a\<in>set (after k). kf n < key_at kf h a)"
    using f zipper_root [OF z] by (intro exI [of _ h'] exI [of _ "f # k"]) (simp add: insert_by_def)
qed (fact key_payload ok_payload)+

subsection \<open>The insertion functions of the source\<close>

lemma payload_keyD: "payload m = payload n \<Longrightarrow> rb_key m = rb_key n"
  by (metis (no_types, lifting) payload_def ngx_rbtree_node.select_convs(1) ngx_rbtree_node.update_convs
      ngx_rbtree_node.surjective)

interpretation value_order: node_order value_less rb_key "\<lambda>_. True"
  by unfold_locales (auto simp: value_less_def dest: payload_keyD)

text \<open>The difference of two timers as a signed number orders those within half the range after \<open>base\<close>.\<close>

lemma sint_diff_less_0:
  fixes x y :: u64
  assumes "x < 2 ^ 63" "y < 2 ^ 63" shows "sint (x - y) < 0 \<longleftrightarrow> x < y"
proof -
  have bounds: "uint x < 2 ^ 63" "uint y < 2 ^ 63" using assms by (simp_all add: word_less_def)
  moreover from this have "sint x = uint x" "sint y = uint y"
    by (simp_all add: sint_uint signed_take_bit_int_eq_self order_trans [OF _ uint_ge_0])
  moreover from bounds have "- (2 ^ 63) \<le> uint x - uint y" "uint x - uint y < 2 ^ 63"
    using uint_ge_0 [of x] uint_ge_0 [of y] by linarith+
  then have "signed_take_bit 63 (uint x - uint y) = uint x - uint y"
    by (rule signed_take_bit_int_eq_self)
  ultimately have "sint (x - y) = uint x - uint y" by (simp add: sint_word_diff)
  then show ?thesis by (simp add: word_less_def)
qed

interpretation timer_order: node_order timer_less "\<lambda>n. rb_key n - base" "\<lambda>n. rb_key n - base < 2 ^ 63" for base
proof
  fix h :: "'a rbheap" and x y m n
  assume "h x = Some m" "h y = Some n" "rb_key m - base < 2 ^ 63" "rb_key n - base < 2 ^ 63"
  then show "timer_less h x y = Some (rb_key m - base < rb_key n - base)"
    using sint_diff_less_0 [of "rb_key m - base" "rb_key n - base"] by (simp add: timer_less_def)
qed (auto dest: payload_keyD)

end
