(* ===== verification/Rbdelete.thy ===== *)
theory Rbdelete imports Rbdelfix Rborder begin

text \<open>
  Deletion from the red-black tree: the node goes, or its successor takes its place, and the fixup loop
  restores the invariants.  At the end, the walk to the next node.
\<close>

subsection \<open>Search for a node and for the smallest node\<close>

lemma in_plug: "a \<in> set (addrs t) \<Longrightarrow> \<exists>k l c r. t = plug k (Nd l a c r)"
proof (induction t)
  case (Nd l b c r)
  then consider "a = b" | k l' d r' where "l = plug k (Nd l' a d r')" | k l' d r' where "r = plug k (Nd l' a d r')"
    by auto
  then show ?case
  proof cases
    case 1 then show ?thesis by (intro exI [of _ "[]"]) simp
  next
    case (2 k l' d r')
    then show ?thesis using plug_append [of k "[FL b c r]" "Nd l' a d r'"] by (metis plug.simps(1,2))
  next
    case (3 k l' d r')
    then show ?thesis using plug_append [of k "[FR l b c]" "Nd l' a d r'"] by (metis plug.simps(1,3))
  qed
qed simp

lemma min_correct:
  assumes "zipper h s root q k t" "t \<noteq> Lf"
  shows "\<exists>k' y c r. ngx_rbtree_min h (ptr s t) s = Some y \<and> t = plug k' (Nd Lf y c r) \<and> before k' = []"
  using assms
proof (induction t arbitrary: k)
  case (Nd l a c r)
  note ld = zipper_ld [OF Nd.prems(1)]
  show ?case
  proof (cases l)
    case Lf
    then have "ngx_rbtree_min h a s = Some a" using ld by (subst ngx_rbtree_min.simps) simp
    then show ?thesis using Lf by (intro exI [of _ "[]"]) simp
  next
    case (Nd l1 b d r1)
    have z: "zipper h s root q (FL a c r # k) l" using Nd.prems(1) by simp
    obtain k' y e r' where y: "ngx_rbtree_min h (ptr s l) s = Some y" "l = plug k' (Nd Lf y e r')" "before k' = []"
      using Nd.IH(1) [OF z] Nd by blast
    have "b \<noteq> s" using zipper_dist [OF z] Nd by auto
    then have "ngx_rbtree_min h a s = ngx_rbtree_min h (ptr s l) s"
      using ld Nd by (subst ngx_rbtree_min.simps) simp
    then show ?thesis using y plug_append [of k' "[FL a c r]" "Nd Lf y e r'"]
      by (intro exI [of _ "k' @ [FL a c r]"]) auto
  qed
qed simp

subsection \<open>Heaps that differ in the links and in one node\<close>

definition relinks_except :: "u64 \<Rightarrow> u64 set \<Rightarrow> 'a rbheap \<Rightarrow> 'a rbheap \<Rightarrow> bool" where
  "relinks_except x A h h' \<longleftrightarrow> (\<forall>p. p \<notin> A \<longrightarrow> h' p = h p) \<and>
     (\<forall>p. p \<noteq> x \<longrightarrow> map_option payload (h' p) = map_option payload (h p))"

lemma relinks_exceptI: "relinks A h h' \<Longrightarrow> relinks_except x A h h'"
  by (simp add: relinks_def relinks_except_def)

lemma relinks_except_trans [trans]: "relinks_except x A h h' \<Longrightarrow> relinks_except x A h' h'' \<Longrightarrow> relinks_except x A h h''"
  by (simp add: relinks_except_def)

lemma relinks_except_upd: "x \<in> A \<Longrightarrow> relinks_except x A h (h(x := v))"
  by (auto simp: relinks_except_def)

lemma zipper_upd: "x \<notin> set (s # addrs (plug k t)) \<Longrightarrow> zipper (h(x := v)) s root q k t = zipper h s root q k t"
  by (simp add: zipper_def)

text \<open>The cleared node\<close>

definition cleared :: "'a ngx_rbtree_node_scheme \<Rightarrow> 'a ngx_rbtree_node_scheme" where
  "cleared n = n\<lparr>rb_left := 0, rb_right := 0, rb_parent := 0, rb_key := 0\<rparr>"

lemma clear_node_Some: "h x = Some n \<Longrightarrow> clear_node h x = Some (h(x \<mapsto> cleared n))"
  by (simp add: clear_node_def cleared_def set_left_def set_right_def set_parent_def)

subsection \<open>Unlinking a node with at most one child\<close>

lemma relink_left_Some:
  assumes "relink_left h root x y = Some (h', root')" "x \<noteq> root"
  shows "root' = root \<and> (\<exists>p l. ld h rb_parent x = Some p \<and> ld h rb_left p = Some l \<and>
    (if x = l then st h p (set_left y) else st h p (set_right y)) = Some h')"
  using assms by (auto simp: relink_left_def bind_eq_Some_conv split del: if_split)

lemma unlink:
  assumes z: "zipper h s root q (f # k) (Nd l x c r)" and u: "l = Lf \<and> u = r \<or> r = Lf \<and> u = l"
  shows "\<exists>h1 h2 n. relink_left h root x (ptr s u) = Some (h1, root) \<and> st h1 (ptr s u) (set_parent v) = Some h2 \<and>
    ctx_at h2 s root q (f # k) (ptr s u) \<and> tree_at h2 s v u \<and> sentinel_ok h2 s \<and>
    ld h2 rb_parent (ptr s u) = Some v \<and> h x = Some n \<and> h1 x = Some n \<and> h2 x = Some n \<and>
    relinks (insert s (set (addrs (plug (f # k) (Nd l x c r))))) h h2"
proof -
  let ?k = "f # k" and ?A = "insert s (set (addrs (plug (f # k) (Nd l x c r))))"
  obtain n where n: "h x = Some n" "rb_parent n = par q ?k"
    and t: "tree_at h s x u" "ctx_at h s root q ?k x" "sentinel_ok h s"
    using z u by (auto simp: zipper_def cell_def)
  have dist: "distinct (s # x # addrs u @ before ?k @ after ?k)" using zipper_dist [OF z] u by auto
  then have dist': "distinct (s # x # before ?k @ after ?k)" by auto
  obtain h1 root' where h1: "relink_left h root x (ptr s u) = Some (h1, root')" "ctx_at h1 s root' q ?k (ptr s u)"
    and r1: "relinks (set (before ?k @ after ?k)) h h1"
    using relink_left_correct [OF t(2) n dist'] by blast
  have root: "root' = root" using relink_left_Some [OF h1(1)] zipper_not_root [OF z] by auto
  have out: "p \<notin> set (before ?k @ after ?k) \<Longrightarrow> h1 p = h p" for p using relinks_outside [OF r1] .
  have t1: "tree_at h1 s x u" "sentinel_ok h1 s" "h1 x = Some n"
    using t relinks_tree [OF r1, of u s x] relinks_sentinel [OF r1] out [of x] n(1) dist by auto
  obtain m where m: "h1 (ptr s u) = Some m" using t1(1,2) by (cases u) (auto simp: cell_def sentinel_ok_def)
  let ?h2 = "h1(ptr s u \<mapsto> set_parent v m)"
  have u_in: "ptr s u \<noteq> x" "ptr s u \<notin> set (before ?k)" "ptr s u \<notin> set (after ?k)" "ptr s u \<in> ?A"
    using dist u by (cases u; auto)+
  have "ctx_at ?h2 s root q ?k (ptr s u)" using h1(2) u_in by (simp add: root del: before.simps after.simps)
  moreover have "tree_at ?h2 s v u" using t1(1) m dist by (cases u) (auto simp: cell_def)
  moreover have "sentinel_ok ?h2 s" using t1(2) m by (auto simp: sentinel_ok_def)
  moreover have "relinks ?A h ?h2"
    using relinks_mono [OF r1, of ?A] u_in(4) m by (intro relinks_upd [of ?A h h1]) auto
  ultimately show ?thesis using h1(1) root m n(1) t1(3) u_in(1) by (intro exI [of _ h1] exI [of _ ?h2]) simp
qed


subsection \<open>The successor in the place of the node\<close>

lemma replace_node_correct:
  assumes cell: "cell h (par q k) (ptr s l) x c (ptr s r)" and k: "ctx_at h s root q k x"
    and t: "tree_at h s ql l" "tree_at h s qr r" and y: "h y = Some n" and s: "sentinel_ok h s"
    and dist: "distinct (s # x # y # before k @ addrs l @ addrs r @ after k)"
  shows "\<exists>h' root'. replace_node h root s x y = Some (h', root') \<and> zipper h' s root' q k (Nd l y c r) \<and>
    relinks (insert y (set (before k @ addrs l @ addrs r @ after k))) h h'"
proof -
  let ?A = "insert y (set (before k @ addrs l @ addrs r @ after k))"
  have neq: "x \<noteq> y" "y \<noteq> x" "s \<noteq> y" "y \<noteq> s" "x \<noteq> s"
    and notin: "y \<notin> set (before k)" "y \<notin> set (after k)" "y \<notin> set (addrs l)" "y \<notin> set (addrs r)"
      "x \<notin> set (before k)" "x \<notin> set (after k)" "x \<notin> set (addrs l)" "x \<notin> set (addrs r)"
    and dist': "distinct (s # addrs l)" "distinct (s # addrs r)" "distinct (s # x # before k @ after k)"
    and disj: "set (addrs l) \<inter> set (addrs r) = {}" "set (before k @ after k) \<inter> set (addrs l) = {}"
      "set (before k @ after k) \<inter> set (addrs r) = {}"
    using dist by auto
  obtain X where X: "h x = Some X" "rb_parent X = par q k" "rb_left X = ptr s l" "rb_right X = ptr s r"
      "(rb_color X \<noteq> 0) = c"
    using cell by (auto simp: cell_def)
  define m where "m = set_color (rb_color X) (set_parent (par q k) (set_right (ptr s r) (set_left (ptr s l) n)))"
  define h1 where "h1 = h(y \<mapsto> m)"
  have h1: "h1 x = Some X" "h1 y = Some m" using X neq by (simp_all add: h1_def)
  have "ctx_at h1 s root q k x" using k notin by (simp add: h1_def)
  then obtain h2 root' where h2: "relink_left h1 root x y = Some (h2, root')" "ctx_at h2 s root' q k y"
    and r2: "relinks (set (before k @ after k)) h1 h2"
    using relink_left_correct [of h1 s root q k x X y] h1(1) X(2) dist'(3) by auto
  have out2: "p \<notin> set (before k @ after k) \<Longrightarrow> h2 p = h1 p" for p using relinks_outside [OF r2] .
  have "tree_at h2 s ql l" using t(1) relinks_tree [OF r2 disj(2)] notin by (simp add: h1_def)
  then obtain h3 where h3: "(if ptr s l \<noteq> s then st h2 (ptr s l) (set_parent y) else Some h2) = Some h3"
    "tree_at h3 s y l" and r3: "relinks (set (addrs l)) h2 h3"
    using reparent [OF _ dist'(1)] by blast
  have out3: "p \<notin> set (addrs l) \<Longrightarrow> h3 p = h2 p" for p using relinks_outside [OF r3] .
  have "tree_at h3 s qr r"
    using t(2) relinks_tree [OF r2 disj(3)] relinks_tree [OF r3 disj(1)] notin by (simp add: h1_def)
  then obtain h4 where h4: "(if ptr s r \<noteq> s then st h3 (ptr s r) (set_parent y) else Some h3) = Some h4"
    "tree_at h4 s y r" and r4: "relinks (set (addrs r)) h3 h4"
    using reparent [OF _ dist'(2)] by blast
  have out4: "p \<notin> set (addrs r) \<Longrightarrow> h4 p = h3 p" for p using relinks_outside [OF r4] .
  have at_y: "h2 y = Some m" "h3 y = Some m" "h4 y = Some m"
    using out2 [of y] out3 [of y] out4 [of y] notin h1(2) by simp_all
  have "replace_node h root s x y = Some (h4, root')"
    using X y neq h2(1) [unfolded h1_def m_def] h3(1) h4(1) at_y(1,2) [unfolded m_def]
    by (simp add: replace_node_def ngx_rbt_copy_color_def split del: if_split)
  moreover have "relinks ?A h h4"
  proof -
    have "relinks ?A h h1" using y by (auto simp: h1_def m_def intro!: relinks_upd [of _ h h])
    also have "relinks ?A h1 h2" using r2 by (rule relinks_mono) auto
    also have "relinks ?A h2 h3" using r3 by (rule relinks_mono) auto
    also have "relinks ?A h3 h4" using r4 by (rule relinks_mono) auto
    finally show ?thesis .
  qed
  moreover have "zipper h4 s root' q k (Nd l y c r)"
  proof -
    have "ctx_at h4 s root' q k y"
      using h2(2) relinks_ctx [OF r3, of k s root' q y] relinks_ctx [OF r4, of k s root' q y] disj(2,3) by auto
    moreover have "tree_at h4 s y l" using h3(2) relinks_tree [OF r4, of l] disj(1) by auto
    moreover have "sentinel_ok h4 s"
      using s out2 [of s] out3 [of s] out4 [of s] dist by (simp add: sentinel_ok_def h1_def)
    moreover have "cell h4 (par q k) (ptr s l) y c (ptr s r)"
      using at_y(3) X(5) by (simp add: cell_def m_def)
    moreover have "distinct (s # addrs (plug k (Nd l y c r)))" using dist by auto
    ultimately show ?thesis using h4(2) by (simp only: zipper_def tree_at.simps ptr.simps simp_thms)
  qed
  ultimately show ?thesis by blast
qed

subsection \<open>Balance\<close>

lemma remove_balance:
  assumes "rb (plug k (Nd l x c r))" "l = Lf \<and> u = r \<or> r = Lf \<and> u = l"
  shows "k \<noteq> [] \<Longrightarrow> c \<Longrightarrow> rb (plug k u)" "k \<noteq> [] \<Longrightarrow> \<not> c \<Longrightarrow> lacks k u" "rb (paint False u)"
proof -
  have u: "invh u" "invc u" "bh u = bh l" using assms by (auto simp: rb_def)
  then show "rb (paint False u)" by (simp add: rb_def invc_paint)
  assume "k \<noteq> []"
  then obtain f k' where k: "k = f # k'" by (cases k) auto
  note red_plug [of f k' "Nd l x c r"]
  then show "c \<Longrightarrow> rb (plug k u)" "\<not> c \<Longrightarrow> lacks k u"
    using assms u k by (auto simp: rb_def lacks_def invc_paint dest: cok_black)
qed

lemma rename_ctx:
  "cok b (k @ FR l y c # k') = cok b (k @ FR l x c # k')" "hok n (k @ FR l y c # k') = hok n (k @ FR l x c # k')"
  by (induction k arbitrary: b n rule: before.induct) auto


subsection \<open>\<open>ngx_rbtree_delete\<close>\<close>

text \<open>What the code does after the node is unlinked\<close>

definition rebalance :: "bool \<Rightarrow> 'a rbheap \<Rightarrow> u64 \<Rightarrow> u64 \<Rightarrow> u64 \<Rightarrow> ('a rbheap \<times> u64) option" where
  "rebalance b h root s temp =
     (if b then Some (h, root)
      else do {
        (h, root, temp) \<leftarrow> delete_fixup h root s temp;
        h \<leftarrow> ngx_rbt_black h temp;
        Some (h, root) })"

lemma rebalance_tree:
  "(if b then Some (h, T\<lparr>t_root := root\<rparr>)
    else do {
      (h, root, temp) \<leftarrow> delete_fixup h root s temp;
      h \<leftarrow> ngx_rbt_black h temp;
      Some (h, T\<lparr>t_root := root\<rparr>) }) =
   Option.bind (rebalance b h root s temp) (\<lambda>(h, root). Some (h, T\<lparr>t_root := root\<rparr>))"
  by (cases "delete_fixup h root s temp") (auto simp: rebalance_def split_beta split: Option.bind_split)

lemma rebalance_correct:
  assumes z: "zipper h s root q k u" and p: "ld h rb_parent (ptr s u) = Some (par q k)"
    and red: "b \<Longrightarrow> rb (plug k u)" and black: "\<not> b \<Longrightarrow> lacks k u"
  shows "\<exists>h' root' t'. rebalance b h root s (ptr s u) = Some (h', root') \<and> zipper h' s root' q [] t' \<and>
    rb t' \<and> addrs t' = addrs (plug k u) \<and> relinks (insert s (set (addrs (plug k u)))) h h'"
proof (cases b)
  case True
  have "zipper h s root q [] (plug k u)" using z zipper_plug by blast
  moreover have "rebalance b h root s (ptr s u) = Some (h, root)" using True by (simp add: rebalance_def)
  ultimately show ?thesis using assms(3) True by (intro exI [of _ h] exI [of _ root] exI [of _ "plug k u"]) simp
next
  case False
  then obtain h1 root1 k1 t1 where 1: "delete_fixup h root s (ptr s u) = Some (h1, root1, ptr s t1)"
    "zipper h1 s root1 q k1 t1" "rb (plug k1 (paint False t1))" "addrs (plug k1 t1) = addrs (plug k u)"
    "relinks (set (addrs (plug k u))) h h1"
    using delete_fixup_correct [OF z _ black] p by (auto simp: temp_at_def)
  obtain h2 where 2: "ngx_rbt_black h1 (ptr s t1) = Some h2" "zipper h2 s root1 q k1 (paint False t1)"
    "relinks (insert s (set (addrs (plug k1 t1)))) h1 h2"
    using zipper_black [OF 1(2)] by blast
  have "rebalance b h root s (ptr s u) = Some (h2, root1)" using False 1(1) 2(1) by (simp add: rebalance_def)
  moreover have "zipper h2 s root1 q [] (plug k1 (paint False t1))" using 2(2) zipper_plug by blast
  moreover have "addrs (plug k1 (paint False t1)) = addrs (plug k u)" using 1(4) by simp
  moreover have "relinks (insert s (set (addrs (plug k u)))) h h1" using 1(5) by (rule relinks_mono) auto
  then have "relinks (insert s (set (addrs (plug k u)))) h h2" using 2(3) unfolding 1(4) by (rule relinks_trans)
  ultimately show ?thesis using 1(3) by blast
qed

text \<open>The outcome of a deletion\<close>

definition deleted ::
  "'a rbheap \<Rightarrow> 'a ngx_rbtree \<Rightarrow> u64 list \<Rightarrow> u64 \<Rightarrow> ('a rbheap \<times> 'a ngx_rbtree) option \<Rightarrow> bool" where
  "deleted h T xs x m \<longleftrightarrow>
     (\<exists>h' root' t'. m = Some (h', T\<lparr>t_root := root'\<rparr>) \<and> rbtree_at h' (T\<lparr>t_root := root'\<rparr>) t' \<and> rb t' \<and>
        addrs t' = remove1 x xs \<and>
        (\<exists>n. h' x = Some (cleared n) \<and> map_option payload (h x) = Some (payload n)) \<and>
        relinks_except x (insert (t_sentinel T) (set xs)) h h')"

lemma deletedI:
  assumes "m = Some (h', T\<lparr>t_root := root'\<rparr>)" "zipper h' (t_sentinel T) root' q [] t'" "rb t'"
    "addrs t' = remove1 x xs" "h' x = Some (cleared n)" "map_option payload (h x) = Some (payload n)"
    "relinks_except x (insert (t_sentinel T) (set xs)) h h'"
  shows "deleted h T xs x m"
  using assms unfolding deleted_def rbtree_at_def by fastforce

lemma delete_root:
  assumes z: "zipper h (t_sentinel T) (t_root T) q [] (Nd l x c r)" and u: "l = Lf \<and> u = r \<or> r = Lf \<and> u = l"
    and subst: "find_subst h (t_sentinel T) x = Some (x, ptr (t_sentinel T) u)" and rb: "rb (paint False u)"
  shows "deleted h T (addrs (Nd l x c r)) x (ngx_rbtree_delete h T x)"
proof -
  let ?s = "t_sentinel T" and ?xs = "addrs (Nd l x c r)"
  have root: "x = t_root T" using zipper_root [OF z] by simp
  obtain n where n: "h x = Some n" using z by (auto simp: zipper_def cell_def)
  have xs: "distinct (?s # ?xs)" "addrs u = remove1 x ?xs" using zipper_dist [OF z] u by (auto simp: remove1_append)
  have "zipper h ?s (ptr ?s u) x [] u" using z u by (auto simp: zipper_def)
  then obtain h1 where h1: "ngx_rbt_black h (ptr ?s u) = Some h1" "zipper h1 ?s (ptr ?s u) x [] (paint False u)"
    "relinks (insert ?s (set (addrs u))) h h1"
    using zipper_black by fastforce
  have x: "x \<notin> insert ?s (set (addrs u))" using xs u by auto
  then have "h1 x = Some n" using relinks_outside [OF h1(3)] n by simp
  then have "ngx_rbtree_delete h T x = Some (h1(x \<mapsto> cleared n), T\<lparr>t_root := ptr ?s u\<rparr>)"
    using subst root h1(1) by (simp add: ngx_rbtree_delete_def clear_node_Some)
  then show ?thesis
  proof (rule deletedI)
    show "zipper (h1(x \<mapsto> cleared n)) ?s (ptr ?s u) x [] (paint False u)"
      using h1(2) x zipper_upd [of x ?s "[]" "paint False u" h1] by simp
    have "relinks_except x (insert ?s (set ?xs)) h h1"
      using u by (intro relinks_exceptI relinks_mono [OF h1(3)]) auto
    then show "relinks_except x (insert ?s (set ?xs)) h (h1(x \<mapsto> cleared n))"
      by (rule relinks_except_trans) (simp add: relinks_except_upd)
    show "(h1(x \<mapsto> cleared n)) x = Some (cleared n)" by simp
  qed (use rb xs n in simp_all)
qed

lemma delete_leaf:
  assumes z: "zipper h (t_sentinel T) (t_root T) q (f # k) (Nd l x c r)" and u: "l = Lf \<and> u = r \<or> r = Lf \<and> u = l"
    and subst: "find_subst h (t_sentinel T) x = Some (x, ptr (t_sentinel T) u)"
    and rb: "rb (plug (f # k) (Nd l x c r))"
  shows "deleted h T (addrs (plug (f # k) (Nd l x c r))) x (ngx_rbtree_delete h T x)"
proof -
  let ?s = "t_sentinel T" and ?root = "t_root T" and ?k = "f # k"
  let ?A = "insert ?s (set (addrs (plug ?k (Nd l x c r))))"
  obtain h1 h2 n where h1: "relink_left h ?root x (ptr ?s u) = Some (h1, ?root)"
    and h2: "st h1 (ptr ?s u) (set_parent (par q ?k)) = Some h2" "ctx_at h2 ?s ?root q ?k (ptr ?s u)"
      "tree_at h2 ?s (par q ?k) u" "sentinel_ok h2 ?s" "ld h2 rb_parent (ptr ?s u) = Some (par q ?k)"
    and n: "h x = Some n" "h1 x = Some n" "h2 x = Some n" and r2: "relinks ?A h h2"
    using unlink [OF z u, of "par q ?k"] by blast
  have dist: "distinct (?s # x # addrs u @ before ?k @ after ?k)" using zipper_dist [OF z] u by auto
  then have distu: "distinct (?s # addrs (plug ?k u))" and x: "x \<notin> set (?s # addrs (plug ?k u))" by auto
  let ?h3 = "h2(x \<mapsto> cleared n)"
  have z3: "zipper ?h3 ?s ?root q ?k u"
    using zipper_upd [OF x, of h2] h2(2-4) distu by (simp only: zipper_def simp_thms)
  have p3: "ld ?h3 rb_parent (ptr ?s u) = Some (par q ?k)" using h2(5) x by (cases u) auto
  note bal = remove_balance [OF rb u]
  obtain h4 root4 t4 where 4: "rebalance c ?h3 ?root ?s (ptr ?s u) = Some (h4, root4)" "zipper h4 ?s root4 q [] t4"
    "rb t4" "addrs t4 = addrs (plug ?k u)" "relinks (insert ?s (set (addrs (plug ?k u)))) ?h3 h4"
    using rebalance_correct [OF z3 p3, of c] bal by blast
  have root: "x \<noteq> ?root" using zipper_not_root [OF z] by simp
  obtain pp pl where pl: "ld h rb_parent x = Some pp" "ld h rb_left pp = Some pl"
    "(if x = pl then st h pp (set_left (ptr ?s u)) else st h pp (set_right (ptr ?s u))) = Some h1"
    using relink_left_Some [OF h1 root] by blast
  have par: "pp = par q ?k" "ld h1 rb_parent x = Some (par q ?k)"
    using zipper_ld(3) [OF z] pl(1) n(1,2) by (simp_all add: ld_def)
  have "ngx_rbtree_delete h T x = Option.bind (rebalance c ?h3 ?root ?s (ptr ?s u)) (\<lambda>(h, root). Some (h, T\<lparr>t_root := root\<rparr>))"
    using subst root zipper_ld(4) [OF z] pl par h2(1) n(3)
    by (cases "x = pl") (simp_all add: ngx_rbtree_delete_def rebalance_tree clear_node_Some Let_def)
  then have "ngx_rbtree_delete h T x = Some (h4, T\<lparr>t_root := root4\<rparr>)" using 4(1) by simp
  then show ?thesis
  proof (rule deletedI [OF _ 4(2,3)])
    show "addrs t4 = remove1 x (addrs (plug ?k (Nd l x c r)))"
      using 4(4) u x zipper_dist [OF z] by (auto simp: remove1_append)
    show "h4 x = Some (cleared n)" using relinks_outside [OF 4(5)] x by auto
    show "map_option payload (h x) = Some (payload n)" using n(1) by simp
    have "relinks_except x ?A h ?h3"
      by (rule relinks_except_trans [OF relinks_exceptI [OF r2]]) (simp add: relinks_except_upd)
    moreover have "relinks_except x ?A ?h3 h4"
      using u by (intro relinks_exceptI relinks_mono [OF 4(5)]) auto
    ultimately show "relinks_except x ?A h h4" by (rule relinks_except_trans)
  qed
qed


lemma zipper_append: "zipper h s root q (k1 @ k2) t = zipper h s root q k2 (plug k1 t)"
  using zipper_plug [of h s root q "k1 @ k2" t] zipper_plug [of h s root q k2 "plug k1 t"] by simp

lemma rename_balance:
  "rb (plug (k @ FR l x c # k') t) \<Longrightarrow> rb (plug (k @ FR l y c # k') t)"
  "lacks (k @ FR l x c # k') t \<Longrightarrow> lacks (k @ FR l y c # k') t"
proof -
  have "red (plug k' (Nd l y c t1)) = red (plug k' (Nd l x c t1))" for t1
    by (cases k') (simp_all only: red_plug [of _ _ "Nd l y c t1" "Nd l x c t1"] plug.simps red.simps)
  then have "red (plug (k @ FR l y c # k') t1) = red (plug (k @ FR l x c # k') t1)" for t1
    by (simp only: plug_append plug.simps)
  then show "rb (plug (k @ FR l x c # k') t) \<Longrightarrow> rb (plug (k @ FR l y c # k') t)"
    "lacks (k @ FR l x c # k') t \<Longrightarrow> lacks (k @ FR l y c # k') t"
    by (simp_all only: rb_def lacks_def invc_plug invh_plug rename_ctx [of _ k l y c k' x] append_is_Nil_conv
        list.distinct simp_thms)
qed

lemma delete_inner:
  assumes z: "zipper h (t_sentinel T) (t_root T) q k (Nd l x c r)" and lr: "l \<noteq> Lf" "r \<noteq> Lf"
    and rb: "rb (plug k (Nd l x c r))"
  shows "deleted h T (addrs (plug k (Nd l x c r))) x (ngx_rbtree_delete h T x)"
proof -
  let ?s = "t_sentinel T" and ?root = "t_root T"
  have zr: "zipper h ?s ?root q (FR l x c # k) r" using z by simp
  obtain kr y cy ry where min: "ngx_rbtree_min h (ptr ?s r) ?s = Some y" and r: "r = plug kr (Nd Lf y cy ry)"
    and kr: "before kr = []"
    using min_correct [OF zr lr(2)] by blast
  define K0 where "K0 = kr @ FR l x c # k"
  define K where "K = kr @ FR l y c # k"
  have z0: "zipper h ?s ?root q K0 (Nd Lf y cy ry)"
    using zr zipper_append [of h ?s ?root q kr "FR l x c # k"] r by (simp add: K0_def)
  have plug0: "plug K0 t = plug k (Nd l x c (plug kr t))" and plugK: "plug K t = plug k (Nd l y c (plug kr t))" for t
    by (simp_all add: K0_def K_def)
  obtain f k0 where f: "K0 = f # k0" by (cases K0) (auto simp: K0_def)
  have dist: "distinct (?s # x # y # before k @ addrs l @ addrs ry @ after kr @ after k)"
    using zipper_dist [OF z] kr by (auto simp: r)
  have root: "y \<noteq> ?root" using zipper_not_root [of h ?s ?root q f k0] z0 f by auto
  have yx: "y \<noteq> x" using dist by auto
  let ?A = "insert ?s (set (addrs (plug k (Nd l x c r))))"
  have subst: "find_subst h ?s x = Some (y, ptr ?s ry)"
  proof -
    have "ptr ?s l \<noteq> ?s" "ptr ?s r \<noteq> ?s" using zipper_dist [OF z] lr by (cases l; cases r; auto)+
    then show ?thesis using zipper_ld(1,2) [OF z] zipper_ld(1,2) [OF z0] min by (simp add: find_subst_def)
  qed
  define v where "v = (if par q K0 = x then y else par q K0)"
  have v: "v = par q K" "kr = [] \<or> v = par q K0"
    using dist kr unfolding v_def K_def K0_def by (cases kr; cases "hd kr"; auto)+
  obtain h1 h2 n where h1: "relink_left h ?root y (ptr ?s ry) = Some (h1, ?root)"
    and h2: "st h1 (ptr ?s ry) (set_parent v) = Some h2" "ctx_at h2 ?s ?root q K0 (ptr ?s ry)"
      "tree_at h2 ?s v ry" "sentinel_ok h2 ?s" "ld h2 rb_parent (ptr ?s ry) = Some v"
    and n: "h y = Some n" "h1 y = Some n" "h2 y = Some n" and r2: "relinks ?A h h2"
    using unlink [of h ?s ?root q f k0 Lf y cy ry ry v] z0 unfolding f [symmetric] plug0 r [symmetric] by blast
  have at_x: "cell h2 (par q k) (ptr ?s l) x c (ptr ?s (plug kr ry)) \<and> ctx_at h2 ?s ?root q k x \<and>
      tree_at h2 ?s x l \<and> (\<exists>q'. tree_at h2 ?s q' (plug kr ry))"
  proof (cases "kr = []")
    case True
    then show ?thesis using h2(2,3) by (auto simp: K0_def)
  next
    case False
    have "zipper h2 ?s ?root q K0 ry"
      using h2(2-4) v(2) False dist kr unfolding zipper_def plug0 by (auto simp: r)
    then have "zipper h2 ?s ?root q k (Nd l x c (plug kr ry))"
      unfolding K0_def zipper_append by simp
    then show ?thesis by (auto simp: zipper_def)
  qed
  then obtain q' where q': "tree_at h2 ?s q' (plug kr ry)" by blast
  have "distinct (?s # x # y # before k @ addrs l @ addrs (plug kr ry) @ after k)" using dist kr by auto
  then obtain h3 root3 where h3: "replace_node h2 ?root ?s x y = Some (h3, root3)"
    "zipper h3 ?s root3 q k (Nd l y c (plug kr ry))"
    and r3: "relinks (insert y (set (before k @ addrs l @ addrs (plug kr ry) @ after k))) h2 h3"
    using replace_node_correct [of h2 q k ?s l x c "plug kr ry" ?root x q' y n] at_x q' n(3) h2(4) by blast
  have z3: "zipper h3 ?s root3 q K ry" using h3(2) unfolding K_def zipper_append by simp
  obtain m where m: "h2 x = Some m" "h3 x = Some m"
    using at_x relinks_outside [OF r3, of x] dist kr by (auto simp: cell_def)
  have s3: "h3 ?s = h2 ?s" using dist kr by (intro relinks_outside [OF r3]) auto
  have xK: "x \<notin> set (?s # addrs (plug K ry))" using dist kr by (auto simp: K_def)
  let ?h4 = "h3(x \<mapsto> cleared m)"
  have z4: "zipper ?h4 ?s root3 q K ry" using zipper_upd [OF xK] z3 by blast
  have p4: "ld ?h4 rb_parent (ptr ?s ry) = Some (par q K)"
  proof (cases ry)
    case Lf
    then show ?thesis using h2(5) s3 v(1) dist by (simp add: ld_def)
  next
    case (Nd a b d e) then show ?thesis using zipper_ld(3) [of ?h4 ?s root3 q K a b d e] z4 by simp
  qed
  have bal: "cy \<Longrightarrow> rb (plug K ry)" "\<not> cy \<Longrightarrow> lacks K ry"
    using remove_balance(1,2) [of K0 Lf y cy ry ry] rb rename_balance [of kr l x c k ry y]
    unfolding plug0 r [symmetric] unfolding K0_def K_def by auto
  obtain h5 root5 t5 where 5: "rebalance cy ?h4 root3 ?s (ptr ?s ry) = Some (h5, root5)" "zipper h5 ?s root5 q [] t5"
    "rb t5" "addrs t5 = addrs (plug K ry)" "relinks (insert ?s (set (addrs (plug K ry)))) ?h4 h5"
    using rebalance_correct [OF z4 p4 bal] by blast
  obtain pp pl where pl: "ld h rb_parent y = Some pp" "ld h rb_left pp = Some pl"
    "(if y = pl then st h pp (set_left (ptr ?s ry)) else st h pp (set_right (ptr ?s ry))) = Some h1"
    using relink_left_Some [OF h1 root] by blast
  have par: "pp = par q K0" "ld h1 rb_parent y = Some (par q K0)"
    using zipper_ld(3) [OF z0] pl(1) n(1,2) by (simp_all add: ld_def)
  have set_v: "(if par q K0 = x then st h1 (ptr ?s ry) (set_parent y) else st h1 (ptr ?s ry) (set_parent (par q K0))) = Some h2"
    using h2(1) by (simp add: v_def split: if_splits)
  have "ngx_rbtree_delete h T x = Option.bind (rebalance cy ?h4 root3 ?s (ptr ?s ry)) (\<lambda>(h, root). Some (h, T\<lparr>t_root := root\<rparr>))"
    using subst root yx zipper_ld(4) [OF z0] pl par set_v h3(1) m(2)
    by (cases "y = pl"; cases "par q K0 = x")
      (simp_all add: ngx_rbtree_delete_def rebalance_tree clear_node_Some Let_def)
  then have "ngx_rbtree_delete h T x = Some (h5, T\<lparr>t_root := root5\<rparr>)" using 5(1) by simp
  then show ?thesis
  proof (rule deletedI [OF _ 5(2,3)])
    have "addrs (plug K ry) = before k @ addrs l @ y # addrs ry @ after kr @ after k"
      and "addrs (plug k (Nd l x c r)) = before k @ addrs l @ x # y # addrs ry @ after kr @ after k"
      using kr by (simp_all add: K_def r)
    then show "addrs t5 = remove1 x (addrs (plug k (Nd l x c r)))"
      using 5(4) dist by (auto simp: remove1_append)
    show "h5 x = Some (cleared m)" using relinks_outside [OF 5(5)] xK by auto
    have "map_option payload (h2 x) = map_option payload (h x)" using r2 by (simp add: relinks_def)
    then show "map_option payload (h x) = Some (payload m)" using m(1) by simp
    have "relinks_except x ?A h h2" using r2 by (rule relinks_exceptI)
    also have "relinks_except x ?A h2 h3"
      using kr by (intro relinks_exceptI relinks_mono [OF r3]) (auto simp: r)
    also have "relinks_except x ?A h3 ?h4" by (simp add: relinks_except_upd)
    also have "relinks_except x ?A ?h4 h5"
      using kr by (intro relinks_exceptI relinks_mono [OF 5(5)]) (auto simp: r K_def)
    finally show "relinks_except x ?A h h5" .
  qed
qed

lemma delete_correct:
  assumes T: "rbtree_at h T t" and rb: "rb t" and x: "x \<in> set (addrs t)"
  shows "deleted h T (addrs t) x (ngx_rbtree_delete h T x)"
proof -
  obtain q where zt: "zipper h (t_sentinel T) (t_root T) q [] t" using T by (auto simp: rbtree_at_def)
  obtain k l c r where t: "t = plug k (Nd l x c r)" using in_plug [OF x] by blast
  have z: "zipper h (t_sentinel T) (t_root T) q k (Nd l x c r)" using zt unfolding t zipper_plug .
  note ld = zipper_ld(1,2) [OF z]
  show ?thesis
  proof (cases "l \<noteq> Lf \<and> r \<noteq> Lf")
    case True
    then show ?thesis using delete_inner [OF z] rb unfolding t by blast
  next
    case False
    define u where "u = (if l = Lf then r else l)"
    have u: "l = Lf \<and> u = r \<or> r = Lf \<and> u = l" using False by (auto simp: u_def)
    have "l \<noteq> Lf \<Longrightarrow> ptr (t_sentinel T) l \<noteq> t_sentinel T" using zipper_dist [OF z] by (cases l) auto
    then have subst: "find_subst h (t_sentinel T) x = Some (x, ptr (t_sentinel T) u)"
      using ld False by (auto simp: find_subst_def u_def)
    note bal = remove_balance [OF rb [unfolded t] u]
    show ?thesis
    proof (cases k)
      case Nil
      then show ?thesis using delete_root [OF z [unfolded Nil] u subst bal(3)] t by simp
    next
      case (Cons f k')
      then show ?thesis using delete_leaf [OF z [unfolded Cons] u subst rb [unfolded t Cons]] t by blast
    qed
  qed
qed

end
