(* ===== verification/Rbnext.thy ===== *)
theory Rbnext imports Rbdelete begin

text \<open>
  The walk to the next node, the depth of the tree, and the properties of insertion, deletion and the
  walk for the two insertion functions of \<open>ngx_rbtree.c\<close>.
\<close>

subsection \<open>The next node\<close>

definition first :: "u64 list \<Rightarrow> u64" where
  "first xs = (case xs of [] \<Rightarrow> 0 | y # ys \<Rightarrow> y)"

lemma next_loop_correct:
  assumes "zipper h s root q k t" "t \<noteq> Lf"
  shows "next_loop h root (ptr s t) = Some (first (after k))"
  using assms
proof (induction k arbitrary: t)
  case Nil
  then obtain l a c r where "t = Nd l a c r" by (cases t) auto
  then show ?case using zipper_root [OF Nil.prems(1)] zipper_ld(3) [of h s root q "[]" l a c r] Nil.prems
    by (subst next_loop.simps) (simp add: first_def)
next
  case (Cons f k)
  obtain l a c r where t: "t = Nd l a c r" using Cons.prems by (cases t) auto
  have p: "ld h rb_parent a = Some (frame_addr f)" using zipper_ld(3) [of h s root q "f # k"] Cons.prems t by simp
  have root: "a \<noteq> root" using zipper_not_root [of h s root q f k] Cons.prems t by auto
  show ?case
  proof (cases f)
    case (FL b d u)
    then have "ld h rb_left b = Some a" using zipper_ld(1) [of h s root q k t b d u] Cons.prems t by simp
    then show ?thesis using t p root FL by (subst next_loop.simps) (simp add: first_def)
  next
    case (FR u b d)
    have z: "zipper h s root q k (Nd u b d t)" using Cons.prems FR by simp
    have "a \<noteq> s" "a \<notin> set (addrs u)" using zipper_dist [OF z] t by auto
    then have "a \<noteq> ptr s u" by simp
    moreover have "ld h rb_left b = Some (ptr s u)" using zipper_ld(1) [OF z] .
    ultimately have "next_loop h root a = next_loop h root b"
      using p root FR by (subst next_loop.simps) simp
    then show ?thesis using Cons.IH [OF z] t FR by simp
  qed
qed

lemma next_correct:
  assumes "rbtree_at h T t" "addrs t = xs @ x # ys"
  shows "ngx_rbtree_next h T x = Some (first ys)"
proof -
  let ?s = "t_sentinel T"
  obtain q where zt: "zipper h ?s (t_root T) q [] t" using assms(1) by (auto simp: rbtree_at_def)
  have "x \<in> set (addrs t)" using assms(2) by simp
  then obtain k l c r where t: "t = plug k (Nd l x c r)" using in_plug by blast
  have z: "zipper h ?s (t_root T) q k (Nd l x c r)" using zt unfolding t zipper_plug .
  have ys: "ys = addrs r @ after k"
    using assms(2) zipper_dist [OF z] unfolding t
    by (auto simp: append_eq_append_conv2 append_eq_Cons_conv Cons_eq_append_conv)
  show ?thesis
  proof (cases r)
    case Lf
    then show ?thesis using next_loop_correct [OF z] zipper_ld(2) [OF z] ys by (simp add: ngx_rbtree_next_def)
  next
    case (Nd l1 b d r1)
    have zr: "zipper h ?s (t_root T) q (FR l x c # k) r" using z by simp
    obtain k' y e r' where "ngx_rbtree_min h (ptr ?s r) ?s = Some y" "r = plug k' (Nd Lf y e r')" "before k' = []"
      using min_correct [OF zr] Nd by blast
    moreover have "ptr ?s r \<noteq> ?s" using zipper_dist [OF z] Nd by auto
    ultimately show ?thesis using zipper_ld(2) [OF z] ys by (simp add: ngx_rbtree_next_def first_def)
  qed
qed

subsection \<open>Depth\<close>

fun depth :: "rbtree \<Rightarrow> nat" where
  "depth Lf = 0"
| "depth (Nd l a c r) = Suc (max (depth l) (depth r))"

lemma depth_bh: "invc t \<Longrightarrow> invh t \<Longrightarrow> depth t \<le> 2 * bh t + (if red t then 1 else 0)"
  by (induction t) (auto split: if_splits)

lemma bh_size: "invh t \<Longrightarrow> 2 ^ bh t \<le> length (addrs t) + 1"
proof (induction t)
  case (Nd l a c r)
  then have "2 ^ bh l \<le> length (addrs l) + 1" "2 ^ bh l \<le> length (addrs r) + 1" by auto
  then show ?case by auto
qed simp

lemma depth_size:
  assumes "rb t" shows "2 ^ (depth t div 2) \<le> length (addrs t) + 1"
proof -
  have "depth t div 2 \<le> bh t" using depth_bh [of t] assms by (simp add: rb_def)
  then have "(2 :: nat) ^ (depth t div 2) \<le> 2 ^ bh t" by (rule power_increasing) simp
  also have "\<dots> \<le> length (addrs t) + 1" using assms by (intro bh_size) (simp add: rb_def)
  finally show ?thesis .
qed

text \<open>The parent pointers lead from every node to the root.\<close>

definition up :: "'a rbheap \<Rightarrow> u64 \<Rightarrow> u64" where
  "up h p = rb_parent (the (h p))"

lemma depth_plug: "length k + depth t \<le> depth (plug k t)"
proof (induction k t rule: plug.induct)
  case (2 a c r k t) then show ?case by simp
next
  case (3 l a c k t) then show ?case by simp
qed simp

lemma up_root:
  assumes "zipper h s root q k t" "t \<noteq> Lf" shows "(up h ^^ length k) (ptr s t) = root"
  using assms
proof (induction k arbitrary: t)
  case Nil then show ?case using zipper_root by fastforce
next
  case (Cons f k)
  obtain l a c r where t: "t = Nd l a c r" using Cons.prems by (cases t) auto
  have "up h a = frame_addr f"
    using zipper_ld(3) [of h s root q "f # k" l a c r] Cons.prems t by (auto simp: up_def ld_def)
  moreover have "(up h ^^ length k) (frame_addr f) = root"
    using Cons.IH [of "plug [f] t"] Cons.prems by (cases f) auto
  ultimately show ?case using t by (simp add: funpow_swap1)
qed

lemma height_bound:
  assumes "rbtree_at h T t" "rb t" "x \<in> set (addrs t)"
  shows "\<exists>d. (up h ^^ d) x = t_root T \<and> 2 ^ (Suc d div 2) \<le> length (addrs t) + 1"
proof -
  obtain q where zt: "zipper h (t_sentinel T) (t_root T) q [] t" using assms(1) by (auto simp: rbtree_at_def)
  obtain k l c r where t: "t = plug k (Nd l x c r)" using in_plug assms(3) by blast
  have z: "zipper h (t_sentinel T) (t_root T) q k (Nd l x c r)" using zt unfolding t zipper_plug .
  have "Suc (length k) \<le> depth t" using depth_plug [of k "Nd l x c r"] unfolding t by simp
  then have "(2 :: nat) ^ (Suc (length k) div 2) \<le> 2 ^ (depth t div 2)"
    by (intro power_increasing div_le_mono) simp_all
  also have "\<dots> \<le> length (addrs t) + 1" using assms(2) by (rule depth_size)
  finally show ?thesis using up_root [OF z] by (intro exI [of _ "length k"]) simp
qed

subsection \<open>Sequences of insertions and deletions\<close>

text \<open>
  The abstract tree is the list of its nodes in order, with the key every node has: insertion puts a node
  behind those of smaller or equal keys, deletion takes it out and clears its key.  Nodes are inserted
  from a set \<open>A\<close> of allocated ones.
\<close>

datatype rb_op = Insert u64 | Delete u64

fun run_ops :: "'a rbheap \<Rightarrow> 'a ngx_rbtree \<Rightarrow> rb_op list \<Rightarrow> ('a rbheap \<times> 'a ngx_rbtree) option" where
  "run_ops h T [] = Some (h, T)"
| "run_ops h T (Insert x # ops) =
     do { (h, T) \<leftarrow> ngx_rbtree_insert h T x; run_ops h T ops }"
| "run_ops h T (Delete x # ops) =
     do { (h, T) \<leftarrow> ngx_rbtree_delete h T x; run_ops h T ops }"

fun spec_ops :: "u64 set \<Rightarrow> (u64 \<Rightarrow> u64) \<Rightarrow> u64 list \<Rightarrow> rb_op list \<Rightarrow> ((u64 \<Rightarrow> u64) \<times> u64 list) option" where
  "spec_ops A key xs [] = Some (key, xs)"
| "spec_ops A key xs (Insert x # ops) =
     (if x \<in> A \<and> x \<notin> set xs then spec_ops A key (insert_after key x xs) ops else None)"
| "spec_ops A key xs (Delete x # ops) =
     (if x \<in> set xs then spec_ops A (key(x := 0)) (remove1 x xs) ops else None)"

text \<open>The simulation\<close>

definition implements :: "u64 set \<Rightarrow> 'a rbheap \<Rightarrow> 'a ngx_rbtree \<Rightarrow> (u64 \<Rightarrow> u64) \<Rightarrow> u64 list \<Rightarrow> bool" where
  "implements A h T key xs \<longleftrightarrow>
     t_insert T = ngx_rbtree_insert_value \<and> t_sentinel T \<notin> A \<and> set xs \<subseteq> A \<and> sorted (map key xs) \<and>
     (\<forall>a\<in>A. \<exists>n. h a = Some n \<and> rb_key n = key a) \<and>
     (\<exists>t. rbtree_at h T t \<and> rb t \<and> addrs t = xs)"

lemma payload_key_eq:
  assumes "map_option payload (h' a) = map_option payload (h a)" "h a = Some n"
  shows "\<exists>m. h' a = Some m \<and> rb_key m = rb_key n"
proof -
  obtain m where "h' a = Some m" "payload m = payload n" using assms by auto
  then show ?thesis using payload_keyD by blast
qed

lemma implements_insert:
  assumes "implements A h T key xs" "x \<in> A" "x \<notin> set xs"
  shows "\<exists>h' T'. ngx_rbtree_insert h T x = Some (h', T') \<and> implements A h' T' key (insert_after key x xs)"
proof -
  obtain t where t: "rbtree_at h T t" "rb t" "addrs t = xs" using assms(1) by (auto simp: implements_def)
  have T: "t_insert T = insert_by value_less" "t_sentinel T \<notin> A" "set xs \<subseteq> A" "sorted (map key xs)"
    and A: "\<forall>a\<in>A. \<exists>n. h a = Some n \<and> rb_key n = key a"
    using assms(1) by (simp_all add: implements_def ngx_rbtree_insert_value_def)
  have keys: "map (key_at rb_key h) xs = map key xs" and key: "a \<in> A \<Longrightarrow> key_at rb_key h a = key a" for a
    using A T(3) by fastforce+
  obtain n where n: "h x = Some n" using A assms(2) by blast
  have "ordered rb_key (\<lambda>_. True) h (addrs t)" using T(4) unfolding ordered_def t(3) keys by simp
  then obtain h' root' t' where h': "ngx_rbtree_insert h T x = Some (h', T\<lparr>t_root := root'\<rparr>)"
    "rbtree_at h' (T\<lparr>t_root := root'\<rparr>) t'" "rb t'"
    "addrs t' = insert_after (key_at rb_key h) x xs" and r: "relinks (insert x (set xs)) h h'"
    using value_order.insert_correct [OF t(1) T(1) t(2) _ n] assms(2,3) T(2) t(3) by auto
  have after: "insert_after (key_at rb_key h) x xs = insert_after key x xs"
    unfolding insert_after_def using key assms(2) T(3)
    by (auto intro!: arg_cong2 [of _ _ _ _ "(@)"] takeWhile_cong dropWhile_cong)
  have "\<exists>m. h' a = Some m \<and> rb_key m = key a" if a: "a \<in> A" for a
  proof -
    have "map_option payload (h' a) = map_option payload (h a)" using r unfolding relinks_def by blast
    moreover obtain n where "h a = Some n" "rb_key n = key a" using A a by blast
    ultimately show ?thesis using payload_key_eq [of h' a h n] by simp
  qed
  then have "implements A h' (T\<lparr>t_root := root'\<rparr>) key (insert_after key x xs)"
    using T h'(2-4) after assms(2) sorted_insert_after [OF T(4), of x]
    by (auto simp: implements_def ngx_rbtree_insert_value_def)
  then show ?thesis using h'(1) by blast
qed

lemma sorted_remove1_map: "sorted (map f xs) \<Longrightarrow> sorted (map f (remove1 x xs))"
  by (induction xs) (auto dest: notin_set_remove1)

lemma implements_delete:
  assumes "implements A h T key xs" "x \<in> set xs"
  shows "\<exists>h' T'. ngx_rbtree_delete h T x = Some (h', T') \<and> implements A h' T' (key(x := 0)) (remove1 x xs)"
proof -
  obtain t where t: "rbtree_at h T t" "rb t" "addrs t = xs" using assms(1) by (auto simp: implements_def)
  have T: "t_insert T = ngx_rbtree_insert_value" "t_sentinel T \<notin> A" "set xs \<subseteq> A" "sorted (map key xs)"
    and A: "\<forall>a\<in>A. \<exists>n. h a = Some n \<and> rb_key n = key a"
    using assms(1) by (simp_all add: implements_def)
  obtain h' root' t' n where h': "ngx_rbtree_delete h T x = Some (h', T\<lparr>t_root := root'\<rparr>)"
    "rbtree_at h' (T\<lparr>t_root := root'\<rparr>) t'" "rb t'" "addrs t' = remove1 x xs" "h' x = Some (cleared n)"
    and r: "relinks_except x (insert (t_sentinel T) (set xs)) h h'"
    using delete_correct [OF t(1,2), of x] assms(2) unfolding deleted_def t(3) by blast
  have "\<exists>m. h' a = Some m \<and> rb_key m = (key(x := 0)) a" if "a \<in> A" for a
  proof (cases "a = x")
    case False
    then have "map_option payload (h' a) = map_option payload (h a)" using r by (simp add: relinks_except_def)
    then show ?thesis using A that False payload_key_eq [of h' a h] by fastforce
  qed (use h'(5) in \<open>simp add: cleared_def\<close>)
  moreover have "distinct xs" using t(1,3) by (auto simp: rbtree_at_def zipper_def)
  then have "map (key(x := 0)) (remove1 x xs) = map key (remove1 x xs)" by auto
  then have "sorted (map (key(x := 0)) (remove1 x xs))"
    using sorted_remove1_map [OF T(4)] by (simp only:)
  ultimately have "implements A h' (T\<lparr>t_root := root'\<rparr>) (key(x := 0)) (remove1 x xs)"
    using T h'(2-4) set_remove1_subset [of x xs] by (auto simp: implements_def)
  then show ?thesis using h'(1) by blast
qed

lemma implements_ops:
  assumes "implements A h T key xs" "spec_ops A key xs ops = Some (key', xs')"
  shows "\<exists>h' T'. run_ops h T ops = Some (h', T') \<and> implements A h' T' key' xs'"
  using assms
proof (induction A key xs ops arbitrary: h T rule: spec_ops.induct)
  case (2 A key xs x ops)
  then show ?case using implements_insert [OF "2.prems"(1), of x] by (fastforce split: if_splits)
next
  case (3 A key xs x ops)
  then show ?case using implements_delete [OF "3.prems"(1), of x] by (fastforce split: if_splits)
qed simp


subsection \<open>Properties\<close>

text \<open>
  C4: \<open>ngx_rbtree_init\<close> and any sequence of insertions of allocated nodes and of deletions of nodes of
  the tree run without a fault and end; the tree is then that of the abstract list, ordered by the keys,
  with the red-black invariants, and every node is within \<open>2 * log2 (n + 1)\<close> parent links of the root.
\<close>

theorem ngx_rbtree_sequence:
  assumes "ngx_rbtree_init h s ngx_rbtree_insert_value = Some (h0, T0)" "s \<notin> A"
    and "\<forall>a\<in>A. map_option rb_key (h a) = Some (key a)"
    and "spec_ops A key [] ops = Some (key', xs)"
  shows "\<exists>h' T' t. run_ops h0 T0 ops = Some (h', T') \<and> rbtree_at h' T' t \<and> rb t \<and> addrs t = xs \<and>
    sorted (map key' xs) \<and> (\<forall>a\<in>A. map_option rb_key (h' a) = Some (key' a)) \<and>
    (\<forall>x\<in>set xs. \<exists>d. (up h' ^^ d) x = t_root T' \<and> 2 ^ (Suc d div 2) \<le> length xs + 1)"
proof -
  obtain n where n: "h s = Some n" and 0: "h0 = h(s \<mapsto> set_color 0 n)"
    "T0 = \<lparr>t_root = s, t_sentinel = s, t_insert = ngx_rbtree_insert_value\<rparr>"
    using assms(1)
    by (auto simp: ngx_rbtree_init_def ngx_rbtree_sentinel_init_def ngx_rbt_black_def st_def bind_eq_Some_conv
        split: option.splits)
  have "rbtree_at h0 T0 Lf" by (simp add: rbtree_at_def zipper_def sentinel_ok_def 0)
  moreover have "\<forall>a\<in>A. \<exists>n. h0 a = Some n \<and> rb_key n = key a"
    using assms(2,3) by (auto simp: 0(1))
  ultimately have "implements A h0 T0 key []"
    using assms(2) by (auto simp: implements_def 0(2) rb_def intro!: exI [of _ Lf])
  then obtain h' T' where run: "run_ops h0 T0 ops = Some (h', T')" and imp: "implements A h' T' key' xs"
    using implements_ops assms(4) by blast
  obtain t where t: "rbtree_at h' T' t" "rb t" "addrs t = xs" using imp by (auto simp: implements_def)
  have "\<forall>a\<in>A. map_option rb_key (h' a) = Some (key' a)" "sorted (map key' xs)"
    using imp by (auto simp: implements_def)
  then show ?thesis using run t height_bound [OF t(1,2)] by blast
qed

text \<open>Five nodes, the first of them the sentinel, and a tree of three\<close>

definition rb_node :: "u64 \<Rightarrow> u64 \<Rightarrow> u64 \<Rightarrow> u64 \<Rightarrow> u8 \<Rightarrow> ngx_rbtree_node" where
  "rb_node k l r p c = \<lparr>rb_key = k, rb_left = l, rb_right = r, rb_parent = p, rb_color = c, rb_data = 0\<rparr>"

definition free_nodes :: "unit rbheap" where
  "free_nodes = [0x10 \<mapsto> rb_node 0 0 0 0 1, 0x20 \<mapsto> rb_node 5 0 0 0 0, 0x30 \<mapsto> rb_node 3 0 0 0 0,
     0x40 \<mapsto> rb_node 5 0 0 0 0, 0x50 \<mapsto> rb_node 9 0 0 0 0]"

lemma ngx_rbtree_sequence_witness:
  "\<exists>h0 T0 h' T' t. ngx_rbtree_init free_nodes 0x10 ngx_rbtree_insert_value = Some (h0, T0) \<and>
    run_ops h0 T0 [Insert 0x20, Insert 0x30, Insert 0x40, Insert 0x50, Delete 0x20, Insert 0x20] = Some (h', T') \<and>
    rbtree_at h' T' t \<and> rb t \<and> addrs t = [0x20, 0x30, 0x40, 0x50]"
proof -
  let ?key = "\<lambda>a. rb_key (the (free_nodes a))"
  obtain h0 T0 where init: "ngx_rbtree_init free_nodes 0x10 ngx_rbtree_insert_value = Some (h0, T0)"
    by (simp add: ngx_rbtree_init_def ngx_rbtree_sentinel_init_def ngx_rbt_black_def st_def free_nodes_def)
  have spec: "spec_ops {0x20, 0x30, 0x40, 0x50} ?key []
      [Insert 0x20, Insert 0x30, Insert 0x40, Insert 0x50, Delete 0x20, Insert 0x20] =
      Some (?key(0x20 := 0), [0x20, 0x30, 0x40, 0x50])"
    by (simp add: insert_after_def free_nodes_def rb_node_def)
  have "\<forall>a\<in>{0x20, 0x30, 0x40, 0x50}. map_option rb_key (free_nodes a) = Some (?key a)"
    by (simp add: free_nodes_def)
  from ngx_rbtree_sequence [OF init _ this spec] init show ?thesis by auto
qed

text \<open>
  C5: Deleting a node of a red-black tree ends with a red-black tree of the other nodes in the same
  order; the keys and data of all nodes but the deleted one stay, memory outside the tree is untouched, and
  the deleted node is cleared.
\<close>

theorem ngx_rbtree_delete_correct:
  assumes "rbtree_at h T t" "rb t" "x \<in> set (addrs t)"
  shows "\<exists>h' root t'. ngx_rbtree_delete h T x = Some (h', T\<lparr>t_root := root\<rparr>) \<and>
    rbtree_at h' (T\<lparr>t_root := root\<rparr>) t' \<and> rb t' \<and> addrs t' = remove1 x (addrs t) \<and>
    (\<exists>n. h' x = Some (cleared n) \<and> map_option payload (h x) = Some (payload n)) \<and>
    (\<forall>p. p \<noteq> x \<longrightarrow> map_option payload (h' p) = map_option payload (h p)) \<and>
    (\<forall>p. p \<notin> insert (t_sentinel T) (set (addrs t)) \<longrightarrow> h' p = h p)"
  using delete_correct [OF assms] unfolding deleted_def relinks_except_def by blast

definition three_nodes :: "unit rbheap" where
  "three_nodes = [0x10 \<mapsto> rb_node 0 0 0 0 0, 0x20 \<mapsto> rb_node 5 0x30 0x40 0 0, 0x30 \<mapsto> rb_node 3 0x10 0x10 0x20 1,
     0x40 \<mapsto> rb_node 5 0x10 0x10 0x20 1, 0x50 \<mapsto> rb_node 9 0 0 0 0]"

definition three :: "(unit rbheap \<Rightarrow> u64 \<Rightarrow> u64 \<Rightarrow> u64 \<Rightarrow> unit rbheap option) \<Rightarrow> unit ngx_rbtree" where
  "three i = \<lparr>t_root = 0x20, t_sentinel = 0x10, t_insert = i\<rparr>"

definition three_tree :: rbtree where
  "three_tree = Nd (Nd Lf 0x30 True Lf) 0x20 False (Nd Lf 0x40 True Lf)"

lemma three_at: "rbtree_at three_nodes (three i) three_tree" and three_rb: "rb three_tree"
  and three_addrs: "addrs three_tree = [0x30, 0x20, 0x40]"
  by (simp_all add: rbtree_at_def zipper_def sentinel_ok_def cell_def three_nodes_def three_def three_tree_def
      rb_node_def rb_def)

lemma ngx_rbtree_delete_correct_witness:
  "\<exists>h' T' t'. ngx_rbtree_delete three_nodes (three ngx_rbtree_insert_value) 0x20 = Some (h', T') \<and>
    rbtree_at h' T' t' \<and> rb t' \<and> addrs t' = [0x30, 0x40] \<and> h' 0x50 = three_nodes 0x50"
  using ngx_rbtree_delete_correct [OF three_at three_rb, of "0x20" ngx_rbtree_insert_value]
  by (force simp: three_addrs three_def)

text \<open>
  C27: \<open>ngx_rbtree_next\<close> returns on every node of a tree, with the node that follows in the order of the
  tree, NULL for the last one.
\<close>

theorem ngx_rbtree_next_correct:
  assumes "rbtree_at h T t" "addrs t = xs @ x # ys"
  shows "ngx_rbtree_next h T x = Some (case ys of [] \<Rightarrow> 0 | y # _ \<Rightarrow> y)"
  using next_correct [OF assms] by (simp add: first_def)

lemma ngx_rbtree_next_correct_witness:
  "ngx_rbtree_next three_nodes (three ngx_rbtree_insert_value) 0x30 = Some 0x20 \<and>
   ngx_rbtree_next three_nodes (three ngx_rbtree_insert_value) 0x40 = Some 0"
  using ngx_rbtree_next_correct [OF three_at, of "[]" "0x30" "[0x20, 0x40]"]
    ngx_rbtree_next_correct [OF three_at, of "[0x30, 0x20]" "0x40" "[]"]
  by (simp add: three_addrs)

text \<open>
  C26: \<open>ngx_rbtree_insert\<close> with \<open>ngx_rbtree_insert_timer_value\<close> keeps timers in the order of their
  distance from \<open>base\<close>, although their numbers may have wrapped around, as long as all of them lie
  within \<open>2 ^ 63\<close> after \<open>base\<close>.
\<close>

theorem ngx_rbtree_insert_timer_correct:
  assumes "rbtree_at h T t" "rb t" "t_insert T = ngx_rbtree_insert_timer_value"
    and "sorted (map (\<lambda>a. rb_key (the (h a)) - base) (addrs t))"
    and "\<forall>a\<in>set (x # addrs t). rb_key (the (h a)) - base < 2 ^ 63"
    and "h x \<noteq> None" "x \<notin> set (t_sentinel T # addrs t)"
  shows "\<exists>h' root t'. ngx_rbtree_insert h T x = Some (h', T\<lparr>t_root := root\<rparr>) \<and>
    rbtree_at h' (T\<lparr>t_root := root\<rparr>) t' \<and> rb t' \<and>
    addrs t' = insert_after (\<lambda>a. rb_key (the (h a)) - base) x (addrs t) \<and>
    sorted (map (\<lambda>a. rb_key (the (h' a)) - base) (addrs t')) \<and> relinks (insert x (set (addrs t))) h h'"
proof -
  obtain n where n: "h x = Some n" using assms(6) by blast
  have T: "t_insert T = insert_by timer_less" using assms(3) by (simp add: ngx_rbtree_insert_timer_value_def)
  have "ordered (\<lambda>n. rb_key n - base) (\<lambda>n. rb_key n - base < 2 ^ 63) h (addrs t)"
    using assms(4,5) by (simp add: ordered_def)
  from timer_order.insert_correct [OF assms(1) T assms(2) this n _ assms(7)] assms(5) n
  obtain h' root t' where "ngx_rbtree_insert h T x = Some (h', T\<lparr>t_root := root\<rparr>)"
    "rbtree_at h' (T\<lparr>t_root := root\<rparr>) t'" "rb t'"
    "addrs t' = insert_after (\<lambda>a. rb_key (the (h a)) - base) x (addrs t)"
    "ordered (\<lambda>n. rb_key n - base) (\<lambda>n. rb_key n - base < 2 ^ 63) h' (addrs t')"
    "relinks (insert x (set (addrs t))) h h'" by auto
  then show ?thesis unfolding ordered_def by blast
qed

text \<open>The keys 3 and 5 come after the maximal key when the clock has wrapped around.\<close>

lemma ngx_rbtree_insert_timer_correct_witness:
  "\<exists>h' T' t'. ngx_rbtree_insert (three_nodes(0x50 \<mapsto> rb_node (- 1) 0 0 0 0)) (three ngx_rbtree_insert_timer_value) 0x50 =
      Some (h', T') \<and> rbtree_at h' T' t' \<and> rb t' \<and> addrs t' = [0x50, 0x30, 0x20, 0x40]"
proof -
  let ?h = "three_nodes(0x50 \<mapsto> rb_node (- 1) 0 0 0 0)"
  have "rbtree_at ?h (three i) three_tree" for i
    by (simp add: rbtree_at_def zipper_def sentinel_ok_def cell_def three_nodes_def three_def three_tree_def rb_node_def)
  note at = this
  have "sorted (map (\<lambda>a. rb_key (the (?h a)) - (- 3)) (addrs three_tree))"
    and "\<forall>a\<in>set (0x50 # addrs three_tree). rb_key (the (?h a)) - (- 3) < 2 ^ 63"
    and "?h 0x50 \<noteq> None" "0x50 \<notin> set (t_sentinel (three ngx_rbtree_insert_timer_value) # addrs three_tree)"
    and "t_insert (three ngx_rbtree_insert_timer_value) = ngx_rbtree_insert_timer_value"
    and order: "insert_after (\<lambda>a. rb_key (the (?h a)) - (- 3)) 0x50 (addrs three_tree) = [0x50, 0x30, 0x20, 0x40]"
    by (simp_all add: three_addrs three_nodes_def three_def rb_node_def insert_after_def)
  then show ?thesis
    using ngx_rbtree_insert_timer_correct [OF at three_rb, of ngx_rbtree_insert_timer_value "- 3" "0x50"]
    unfolding order by blast
qed

end
