(* ===== verification/Strtree.thy ===== *)
theory Strtree imports Rbnext "HOL-Library.Product_Lexorder" "HOL-Library.List_Lexorder" begin

text \<open>
  The red-black tree of strings of \<open>ngx/ngx_string.c\<close>: nodes that start with an \<open>ngx_rbtree_node_t\<close>, whose
  key is a hash of the string, ordered by hash, length and bytes.
\<close>

record ngx_str_node = ngx_rbtree_node +
  sn_len :: u64
  sn_data :: cptr

type_synonym str_heap = "u64 \<Rightarrow> ngx_str_node option"

subsection \<open>\<open>ngx_str_rbtree_insert_value\<close>\<close>

text \<open>The test of the loop, which is that of theory \<open>Rbtree\<close>\<close>

definition str_less :: "str_heap \<Rightarrow> u64 \<Rightarrow> u64 \<Rightarrow> bool option" where
  "str_less h node temp =
     do {
       nk \<leftarrow> ld h rb_key node;
       tk \<leftarrow> ld h rb_key temp;
       if nk \<noteq> tk then Some (nk < tk)
       else do {
         nl \<leftarrow> ld h sn_len node;
         tl \<leftarrow> ld h sn_len temp;
         if nl \<noteq> tl then Some (nl < tl)
         else do {
           nd \<leftarrow> ld h sn_data node;
           td \<leftarrow> ld h sn_data temp;
           rc \<leftarrow> memcmp nd td (unat nl);
           Some (rc < 0) } } }"

definition ngx_str_rbtree_insert_value :: "str_heap \<Rightarrow> u64 \<Rightarrow> u64 \<Rightarrow> u64 \<Rightarrow> str_heap option" where
  "ngx_str_rbtree_insert_value = insert_by str_less"

subsection \<open>\<open>ngx_str_rbtree_lookup\<close>\<close>

partial_function (option) str_lookup_loop ::
  "str_heap \<Rightarrow> u64 \<Rightarrow> u64 \<Rightarrow> cptr \<Rightarrow> u32 \<Rightarrow> u64 \<Rightarrow> u64 option" where
  "str_lookup_loop h sentinel len data hash node =
     (if node = sentinel then Some 0
      else do {
        k \<leftarrow> ld h rb_key node;
        if ucast hash \<noteq> k then do {
          node \<leftarrow> child h (ucast hash < k) node;
          str_lookup_loop h sentinel len data hash node }
        else do {
          nl \<leftarrow> ld h sn_len node;
          if len \<noteq> nl then do {
            node \<leftarrow> child h (len < nl) node;
            str_lookup_loop h sentinel len data hash node }
          else do {
            nd \<leftarrow> ld h sn_data node;
            rc \<leftarrow> memcmp data nd (unat len);
            if rc < 0 then do {
              node \<leftarrow> ld h rb_left node;
              str_lookup_loop h sentinel len data hash node }
            else if rc > 0 then do {
              node \<leftarrow> ld h rb_right node;
              str_lookup_loop h sentinel len data hash node }
            else Some node } } })"

definition ngx_str_rbtree_lookup :: "str_heap \<Rightarrow> unit ngx_str_node_ext ngx_rbtree \<Rightarrow> u64 \<times> cptr \<Rightarrow> u32 \<Rightarrow> u64 option" where
  "ngx_str_rbtree_lookup h T val hash =
     str_lookup_loop h (t_sentinel T) (fst val) (snd val) hash (t_root T)"

subsection \<open>The order\<close>

definition str_key :: "ngx_str_node \<Rightarrow> u64 \<times> u64 \<times> bytes" where
  "str_key n = (rb_key n, sn_len n, take (unat (sn_len n)) (sn_data n))"

text \<open>The string of the node has its length.\<close>

definition str_ok :: "ngx_str_node \<Rightarrow> bool" where
  "str_ok n \<longleftrightarrow> unat (sn_len n) \<le> length (sn_data n)"

lemma memcmp_seen_less:
  "length xs = length ys \<Longrightarrow> memcmp_seen xs ys < 0 \<longleftrightarrow> xs < ys"
  "length xs = length ys \<Longrightarrow> 0 < memcmp_seen xs ys \<longleftrightarrow> ys < xs"
  by (induction xs ys rule: memcmp_seen.induct) (auto simp: word_less_def)

lemma payload_str:
  fixes m n :: ngx_str_node
  assumes "payload m = payload n"
  shows "rb_key m = rb_key n" "sn_len m = sn_len n" "sn_data m = sn_data n"
proof -
  have "rb_key (payload x) = rb_key x" "sn_len (payload x) = sn_len x" "sn_data (payload x) = sn_data x"
    for x :: ngx_str_node by (simp_all add: payload_def)
  then show "rb_key m = rb_key n" "sn_len m = sn_len n" "sn_data m = sn_data n" using assms by metis+
qed

interpretation str_order: node_order str_less str_key str_ok
proof
  fix m n :: ngx_str_node
  assume "payload m = payload n"
  note payload_str [OF this]
  then show "str_key m = str_key n" "str_ok m = str_ok n" by (simp_all add: str_key_def str_ok_def)
next
  fix h :: str_heap and x m y n
  assume "h x = Some m" "h y = Some n" "str_ok m" "str_ok n"
  then show "str_less h x y = Some (str_key m < str_key n)"
    using memcmp_seen_less(1) [of "take (unat (sn_len m)) (sn_data m)" "take (unat (sn_len m)) (sn_data n)"]
    by (auto simp: str_less_def str_key_def str_ok_def memcmp_def)
qed

subsection \<open>Lookup\<close>

text \<open>The result of a search for \<open>K\<close> among the nodes \<open>A\<close>\<close>

definition finds :: "str_heap \<Rightarrow> u64 \<times> u64 \<times> bytes \<Rightarrow> u64 set \<Rightarrow> u64 \<Rightarrow> bool" where
  "finds h K A a \<longleftrightarrow>
     (if \<exists>b\<in>A. key_at str_key h b = K then a \<in> A \<and> key_at str_key h a = K else a = 0)"

lemma finds_more: "finds h K A a \<Longrightarrow> A \<subseteq> B \<Longrightarrow> \<forall>b\<in>B - A. key_at str_key h b \<noteq> K \<Longrightarrow> finds h K B a"
  unfolding finds_def by (auto split: if_splits)

lemma str_lookup_loop_correct:
  assumes "zipper h s root q k t" "ordered str_key str_ok h (addrs t)" "unat len \<le> length data"
  shows "\<exists>a. str_lookup_loop h s len data hash (ptr s t) = Some a \<and>
    finds h (ucast hash, len, take (unat len) data) (set (addrs t)) a"
  using assms(1,2)
proof (induction t arbitrary: k)
  case Lf
  then show ?case by (subst str_lookup_loop.simps) (simp add: finds_def)
next
  case (Nd l a c r)
  let ?K = "(ucast hash, len, take (unat len) data)"
  obtain m where m: "h a = Some m" using Nd.prems(1) by (auto simp: zipper_def cell_def)
  have keys: "\<forall>b\<in>set (addrs l). key_at str_key h b \<le> str_key m" "\<forall>b\<in>set (addrs r). str_key m \<le> key_at str_key h b"
    "str_ok m" "ordered str_key str_ok h (addrs l)" "ordered str_key str_ok h (addrs r)"
    using Nd.prems(2) m by (auto simp: ordered_def sorted_append)
  have as: "a \<noteq> s" using zipper_dist [OF Nd.prems(1)] by auto
  have cmp: "memcmp data (sn_data m) (unat len) = Some (memcmp_seen (take (unat len) data) (take (unat len) (sn_data m)))"
    if "len = sn_len m" using that assms(3) keys(3) by (simp add: memcmp_def str_ok_def)
  have less: "memcmp_seen (take (unat len) data) (take (unat len) (sn_data m)) < 0 \<longleftrightarrow>
        take (unat len) data < take (unat len) (sn_data m)"
      "0 < memcmp_seen (take (unat len) data) (take (unat len) (sn_data m)) \<longleftrightarrow>
        take (unat len) (sn_data m) < take (unat len) data"
    if "len = sn_len m" using that assms(3) keys(3) by (simp_all add: memcmp_seen_less str_ok_def)
  note ld = zipper_ld(1,2) [OF Nd.prems(1)]
  consider "?K < str_key m" | "str_key m < ?K" | "?K = str_key m" by (rule linorder_cases)
  then show ?case
  proof cases
    case 1
    then have "str_lookup_loop h s len data hash a = str_lookup_loop h s len data hash (ptr s l)"
      using m as ld cmp less
      by (subst str_lookup_loop.simps) (auto simp: str_key_def child_def)
    moreover have "\<forall>b\<in>set (addrs (Nd l a c r)) - set (addrs l). key_at str_key h b \<noteq> ?K"
      using keys(2) 1 m by fastforce
    ultimately show ?thesis
      using Nd.IH(1) [of "FL a c r # k"] Nd.prems(1) keys(4) finds_more [of h ?K "set (addrs l)" _ "set (addrs (Nd l a c r))"]
      by fastforce
  next
    case 2
    then have "str_lookup_loop h s len data hash a = str_lookup_loop h s len data hash (ptr s r)"
      using m as ld cmp less
      by (subst str_lookup_loop.simps) (auto simp: str_key_def child_def)
    moreover have "\<forall>b\<in>set (addrs (Nd l a c r)) - set (addrs r). key_at str_key h b \<noteq> ?K"
      using keys(1) 2 m by fastforce
    ultimately show ?thesis
      using Nd.IH(2) [of "FR l a c # k"] Nd.prems(1) keys(5) finds_more [of h ?K "set (addrs r)" _ "set (addrs (Nd l a c r))"]
      by fastforce
  next
    case 3
    then have "str_lookup_loop h s len data hash a = Some a"
      using m as ld cmp less
      by (subst str_lookup_loop.simps) (auto simp: str_key_def)
    then show ?thesis using 3 m by (auto simp: finds_def)
  qed
qed


subsection \<open>Property\<close>

text \<open>
  C25: \<open>ngx_rbtree_insert\<close> with \<open>ngx_str_rbtree_insert_value\<close> keeps the tree red-black and ordered by
  hash, length and bytes, and \<open>ngx_str_rbtree_lookup\<close> on the tree returns a node of the given hash and
  string when there is one, the inserted one or an older one, and NULL otherwise.
\<close>

theorem ngx_str_rbtree_lookup_correct:
  assumes "rbtree_at h T t" "rb t" "t_insert T = ngx_str_rbtree_insert_value" "ordered str_key str_ok h (addrs t)"
    and "h x = Some n" "str_ok n" "x \<notin> set (t_sentinel T # addrs t)" and len: "unat len \<le> length data"
  shows "\<exists>h' T' t' a. ngx_rbtree_insert h T x = Some (h', T') \<and> rbtree_at h' T' t' \<and> rb t' \<and>
    ordered str_key str_ok h' (addrs t') \<and> set (addrs t') = insert x (set (addrs t)) \<and>
    (\<forall>b\<in>set (addrs t'). key_at str_key h' b = key_at str_key h b) \<and>
    ngx_str_rbtree_lookup h' T' (len, data) hash = Some a \<and>
    finds h (ucast hash, len, take (unat len) data) (insert x (set (addrs t))) a"
proof -
  have T: "t_insert T = insert_by str_less" using assms(3) by (simp add: ngx_str_rbtree_insert_value_def)
  obtain h' root' t' where h': "ngx_rbtree_insert h T x = Some (h', T\<lparr>t_root := root'\<rparr>)"
    "rbtree_at h' (T\<lparr>t_root := root'\<rparr>) t'" "rb t'" "ordered str_key str_ok h' (addrs t')"
    "addrs t' = insert_after (key_at str_key h) x (addrs t)" "relinks (insert x (set (addrs t))) h h'"
    using str_order.insert_correct [OF assms(1) T assms(2,4,5,6,7)] by blast
  have set: "set (addrs t') = insert x (set (addrs t))" using h'(5) by simp
  obtain q0 where z0: "zipper h (t_sentinel T) (t_root T) q0 [] t" using assms(1) by (auto simp: rbtree_at_def)
  have "\<forall>b\<in>set (addrs t'). h b \<noteq> None" using zipper_alloc [OF z0] set assms(5) by auto
  then have key: "\<forall>b\<in>set (addrs t'). key_at str_key h' b = key_at str_key h b"
    using str_order.key_relinks [OF h'(6)] by blast
  obtain q where z: "zipper h' (t_sentinel T) root' q [] t'" using h'(2) by (auto simp: rbtree_at_def)
  have lookup: "ngx_str_rbtree_lookup h' (T\<lparr>t_root := root'\<rparr>) (len, data) hash =
      str_lookup_loop h' (t_sentinel T) len data hash (ptr (t_sentinel T) t')"
    using zipper_root [OF z] by (simp add: ngx_str_rbtree_lookup_def)
  obtain a where "str_lookup_loop h' (t_sentinel T) len data hash (ptr (t_sentinel T) t') = Some a"
    "finds h' (ucast hash, len, take (unat len) data) (set (addrs t')) a"
    using str_lookup_loop_correct [OF z h'(4) len, of hash] by blast
  moreover have "finds h' K (set (addrs t')) a = finds h K (set (addrs t')) a" for K a
    using key unfolding finds_def by (auto split: if_splits)
  ultimately show ?thesis using h'(1-4) key lookup unfolding set [symmetric] by metis
qed

text \<open>A tree of one string, to which a second one of the same hash is added\<close>

definition str_node :: "u64 \<Rightarrow> u64 \<Rightarrow> cptr \<Rightarrow> ngx_str_node" where
  "str_node k n d = \<lparr>rb_key = k, rb_left = 0x10, rb_right = 0x10, rb_parent = 0, rb_color = 0, rb_data = 0,
     sn_len = n, sn_data = d\<rparr>"

definition str_heap :: str_heap where
  "str_heap = [0x10 \<mapsto> str_node 0 0 [], 0x20 \<mapsto> str_node 7 4 (ascii ''main''), 0x30 \<mapsto> str_node 7 4 (ascii ''loop'')]"

definition str_tree :: "unit ngx_str_node_ext ngx_rbtree" where
  "str_tree = \<lparr>t_root = 0x20, t_sentinel = 0x10, t_insert = ngx_str_rbtree_insert_value\<rparr>"

lemma ngx_str_rbtree_lookup_correct_witness:
  "\<exists>h' T'. ngx_rbtree_insert str_heap str_tree 0x30 = Some (h', T') \<and>
    ngx_str_rbtree_lookup h' T' (4, ascii ''main'') 7 = Some 0x20"
proof -
  have "rbtree_at str_heap str_tree (Nd Lf 0x20 False Lf)" "rb (Nd Lf 0x20 False Lf)"
    by (simp_all add: rbtree_at_def zipper_def sentinel_ok_def cell_def str_heap_def str_tree_def str_node_def rb_def)
  moreover have "t_insert str_tree = ngx_str_rbtree_insert_value" by (simp add: str_tree_def)
  moreover have "ordered str_key str_ok str_heap (addrs (Nd Lf 0x20 False Lf))"
    by (simp add: ordered_def str_heap_def str_node_def str_ok_def)
  moreover have "str_heap 0x30 = Some (str_node 7 4 (ascii ''loop''))" "str_ok (str_node 7 4 (ascii ''loop''))"
    "0x30 \<notin> set (t_sentinel str_tree # addrs (Nd Lf 0x20 False Lf))" "unat (4 :: u64) \<le> length (ascii ''main'')"
    by (simp_all add: str_heap_def str_tree_def str_node_def str_ok_def)
  ultimately obtain h' T' a where "ngx_rbtree_insert str_heap str_tree 0x30 = Some (h', T')"
    "ngx_str_rbtree_lookup h' T' (4, ascii ''main'') 7 = Some a"
    and a: "finds str_heap (ucast (7 :: u32), 4, take (unat (4 :: u64)) (ascii ''main''))
      (insert 0x30 (set (addrs (Nd Lf 0x20 False Lf)))) a"
    using ngx_str_rbtree_lookup_correct [of str_heap str_tree "Nd Lf 0x20 False Lf" "0x30" _ 4 "ascii ''main''" 7] by blast
  moreover have "a = 0x20" using a by (simp add: finds_def str_key_def str_heap_def str_node_def split: if_splits)
  ultimately show ?thesis by blast
qed

end
