(* ===== verification/Tutorial.thy ===== *)
theory Tutorial imports Command begin

unbundle bit_operations_syntax

text \<open>
  The stand-alone programs of \<open>src/blog\<close> that trace a process: the breakpoint programs
  \<open>dbug_break.c\<close>, \<open>attach.c\<close>, \<open>softbreak.c\<close> and \<open>hardbreak.c\<close>, the system call tracers \<open>dbug.c\<close> and
  \<open>getsyscall.c\<close>, the symbol printer \<open>syn.c\<close>, and \<open>base.c\<close>, \<open>getinfo.c\<close>, \<open>readmem.c\<close>, \<open>writemem.c\<close>.

  Their copies of \<open>read_pro_mem\<close>, \<open>write_pro_mem\<close>, \<open>get_pid_base\<close>, \<open>get_file_word\<close>,
  \<open>get_section_addr\<close>, \<open>get_all_func\<close> and \<open>find_func\<close> have the text of \<open>mem.c\<close> and \<open>elf_parse.c\<close>, and the
  definitions of \<open>Procmem\<close> and \<open>Elfsym\<close> are used for them.  The kernel is the record \<open>kernel\<close>; the
  registers a program has before the first \<open>PTRACE_GETREGS\<close>, which are not initialised, are an
  argument.  The \<open>kill\<close> by which a traced child stops itself does not fail (a process may always
  signal itself), so its error message is left out.  A program that is still running after \<open>n\<close> rounds of its loop is \<open>Ret\<close>, one that returned
  from \<open>main\<close> is \<open>Exit\<close>.
\<close>

subsection \<open>State of a tracing program\<close>

record tracer =
  tc_proc :: "tracee option"
  tc_regs :: user_regs
  tc_out :: "out list"

definition tsay :: "out list \<Rightarrow> tracer \<Rightarrow> tracer" where
  "tsay os s = s\<lparr>tc_out := tc_out s @ os\<rparr>"

text \<open>
  Resuming the process with \<open>run\<close> (\<open>PTRACE_CONT\<close> or \<open>PTRACE_SYSCALL\<close>), with its error text, and the
  \<open>wait\<close> with the test for the exit of the process that follows.
\<close>

definition next_stop :: "(tracee \<Rightarrow> tracee option \<times> u32) \<Rightarrow> string \<Rightarrow> tracer \<Rightarrow> tracer outcome" where
  "next_stop run err s =
     (case tc_proc s of
        None \<Rightarrow> Exit (- 1) (tc_out s @ [Perror err])
      | Some t \<Rightarrow>
          (case run t of (t', status) \<Rightarrow>
             if WIFEXITED status then Exit 0 (tc_out s) else Ret (s\<lparr>tc_proc := t'\<rparr>)))"

definition getregs :: "tracer \<Rightarrow> tracer" where
  "getregs s = (case tc_proc s of None \<Rightarrow> s | Some t \<Rightarrow> s\<lparr>tc_regs := tr_regs t\<rparr>)"

definition setregs :: "user_regs \<Rightarrow> tracee option \<Rightarrow> tracee option" where
  "setregs regs t = map_option (\<lambda>t. t\<lparr>tr_regs := regs\<rparr>) t"

text \<open>
  The start the programs share: \<open>fork\<close>, the child's part, and the first \<open>wait\<close> of the parent.
\<close>

definition start :: "kernel \<Rightarrow> user_regs \<Rightarrow> tracer outcome \<Rightarrow> (int \<Rightarrow> tracer \<Rightarrow> tracer outcome) \<Rightarrow> tracer outcome" where
  "start K regs child parent =
     (case k_fork K of
        In_child \<Rightarrow> if \<not> k_traceme K then Exit (- 1) [Perror ''ptrace TRACEME err''] else child
      | Fork_failed \<Rightarrow> Exit (- 1) [Perror ''fork err'']
      | In_parent pid \<Rightarrow>
          (case k_child K pid of (t, status) \<Rightarrow>
             if WIFEXITED status then Exit 0 []
             else parent pid \<lparr>tc_proc = t, tc_regs = regs, tc_out = []\<rparr>))"

subsection \<open>The symbol table of a file\<close>

definition open_file :: "bytes option \<Rightarrow> bytes option option" where
  "open_file fp = (case fp of None \<Rightarrow> Some None | Some f \<Rightarrow> map_option Some (read_image f))"

text \<open>\<open>dbuf\<close> does not test the result of \<open>open_file\<close>: the header is then read through NULL.\<close>

definition dbuf :: "bytes option \<Rightarrow> u64 \<Rightarrow> fun_arr option" where
  "dbuf file base =
     do {
       wordp \<leftarrow> open_file file;
       word \<leftarrow> wordp;
       table_max \<leftarrow> rd_le word 0x3c 2;
       shstrndx \<leftarrow> rd_le word 0x3e 2;
       stables \<leftarrow> rd_le word 0x28 8;
       sh \<leftarrow> rd_shdr word (stables + of_nat (unat shstrndx) * 64);
       (syns, sz) \<leftarrow>
         get_section_addr stables (Some word) (unat table_max) (unat shstrndx) (ascii ''.symtab'') 0;
       (strtab_addr, strsize) \<leftarrow>
         get_section_addr stables (Some word) (unat table_max) (unat shstrndx) (ascii ''.strtab'') 0;
       let sz' = sym_count sz;
       if sz' < 0 then None else get_all_func word syns strtab_addr (nat sz') base
     }"

text \<open>
  \<open>close_file\<close> and \<open>close_dbug\<close> on the system heap; \<open>word_at\<close> reads the member \<open>word\<close> of the table at an
  address.  The programs call them last, before \<open>main\<close> returns.
\<close>

definition close_file :: "sysheap \<Rightarrow> u64 \<Rightarrow> sysheap" where
  "close_file h p = sys_free h p"

definition close_dbug :: "(u64 \<Rightarrow> u64) \<Rightarrow> sysheap \<Rightarrow> u64 \<Rightarrow> sysheap" where
  "close_dbug word_at h p = sys_free (close_file h (word_at p)) p"

text \<open>\<open>main\<close> of \<open>syn.c\<close>: the functions of the file named by the first argument.\<close>

definition syn_main :: "(bytes \<Rightarrow> bytes option) \<Rightarrow> cptr list \<Rightarrow> int outcome" where
  "syn_main files argv =
     (if length argv < 2 then Exit 0 []
      else need (dbuf (files (cstr (argv ! 1))) 0) (\<lambda>funs.
        Exit 0 (map (\<lambda>p. Printf ''%-30s  0x%lx'' [Str (Some (fname p)), Hex (faddr p)]) (fdata funs))))"

subsection \<open>A breakpoint at a function: dbug_break.c and attach.c\<close>

text \<open>The body of the loop, between the stop of the process and the next \<open>PTRACE_CONT\<close>.\<close>

definition break_body :: "kernel \<Rightarrow> u64 \<Rightarrow> u8 \<Rightarrow> tracer \<Rightarrow> tracer outcome" where
  "break_body K fun_addr orig_code s0 =
     (let s = getregs s0;
          s = tsay [Printf ''0x%llx'' [Hex (reg_rip (tc_regs s))]] s
      in need (write_pro_mem (mem_of (tc_proc s)) fun_addr [orig_code] 1) (\<lambda>(st1, m1).
           let regs = (tc_regs s)\<lparr>reg_rip := reg_rip (tc_regs s) - 1\<rparr>;
               t = setregs regs (set_mem (tc_proc s) m1);
               t = Option.bind t (k_step K)
           in need (write_pro_mem (mem_of t) fun_addr [INT_3] 1) (\<lambda>(st2, m2).
                Ret (s\<lparr>tc_proc := set_mem t m2, tc_regs := regs\<rparr>))))"

fun break_rounds :: "kernel \<Rightarrow> u64 \<Rightarrow> u8 \<Rightarrow> nat \<Rightarrow> tracer \<Rightarrow> tracer outcome" where
  "break_rounds K fun_addr orig_code 0 s = Ret s"
| "break_rounds K fun_addr orig_code (Suc n) s =
     obind (break_body K fun_addr orig_code s) (\<lambda>s.
       obind (next_stop (k_cont K) ''CONT err'' s) (break_rounds K fun_addr orig_code n))"

text \<open>
  The common part of the two \<open>main\<close> functions.  When the program has no \<open>print_int\<close> the index is
  \<open>-1\<close>, and the entry before the first one is read.
\<close>

definition break_program :: "kernel \<Rightarrow> bytes option \<Rightarrow> nat \<Rightarrow> int \<Rightarrow> tracer \<Rightarrow> tracer outcome" where
  "break_program K file n pid s =
     need (get_pid_base (k_maps K pid) (k_target K pid)) (\<lambda>base.
     need (dbuf file base) (\<lambda>funs.
     need (find_func (Some funs) (Some (ascii ''print_int'' @ [0]))) (\<lambda>index.
       if index < 0 then Crash
       else
         let fun_addr = faddr (fdata funs ! nat index);
             (st, code) = read_pro_mem (mem_of (tc_proc s)) fun_addr 1;
             orig_code = (case code of [] \<Rightarrow> 0 | c # _ \<Rightarrow> c)
         in need (write_pro_mem (mem_of (tc_proc s)) fun_addr [INT_3] 1) (\<lambda>(st, m).
              obind (next_stop (k_cont K) ''CONT err'' (s\<lparr>tc_proc := set_mem (tc_proc s) m\<rparr>))
                (break_rounds K fun_addr orig_code n)))))"

definition dbug_break_main :: "kernel \<Rightarrow> bytes option \<Rightarrow> user_regs \<Rightarrow> nat \<Rightarrow> tracer outcome" where
  "dbug_break_main K file regs n =
     start K regs
       (if k_exec K (ascii ''./dbuf_break_test'') [Some (ascii ''dbuf_break_test'' @ [0])]
        then Exec (ascii ''./dbuf_break_test'') [Some (ascii ''dbuf_break_test'' @ [0])]
        else Exit 0 [])
       (break_program K file n)"

text \<open>A failed attach is reported only; the \<open>waitpid\<close> then fails too and leaves the status 0.\<close>

definition attach_main :: "kernel \<Rightarrow> bytes option \<Rightarrow> cptr list \<Rightarrow> user_regs \<Rightarrow> nat \<Rightarrow> tracer outcome" where
  "attach_main K file argv regs n =
     (if length argv < 2 then Exit 0 []
      else
        let pid = c_atoi (cstr (argv ! 1));
            (t, status, os) =
              (case k_attach K pid of
                 None \<Rightarrow> (None, 0, [Perror ''attch err''])
               | Some (t, st) \<Rightarrow> (t, (case st of None \<Rightarrow> 0 | Some st \<Rightarrow> st), []))
        in if WIFEXITED status then Exit 0 os
           else break_program K file n pid \<lparr>tc_proc = t, tc_regs = regs, tc_out = os\<rparr>)"

subsection \<open>A breakpoint in a forked copy: softbreak.c\<close>

text \<open>\<open>PTRACE_POKETEXT\<close> without a test of its result.\<close>

definition poke :: "tracee option \<Rightarrow> u64 \<Rightarrow> u64 \<Rightarrow> tracee option" where
  "poke t a w = (case poketext (mem_of t) a w of None \<Rightarrow> t | Some m \<Rightarrow> set_mem t m)"

definition with_int3 :: "u64 \<Rightarrow> u64" where
  "with_int3 orig_code = (orig_code AND 0xFFFFFFFFFFFFFF00) OR 0xCC"

definition soft_body :: "kernel \<Rightarrow> u64 \<Rightarrow> u64 \<Rightarrow> tracer \<Rightarrow> tracer outcome" where
  "soft_body K bar orig_code s0 =
     (let s = getregs s0;
          s = tsay [Printf ''0x%llx'' [Hex (reg_rip (tc_regs s))], Printf ''%p'' [Hex bar]] s;
          t = poke (tc_proc s) bar orig_code;
          regs = (tc_regs s)\<lparr>reg_rip := reg_rip (tc_regs s) - 1\<rparr>;
          t = setregs regs t;
          t = Option.bind t (k_step K);
          t = poke t bar (with_int3 orig_code)
      in Ret (s\<lparr>tc_proc := t, tc_regs := regs\<rparr>))"

fun soft_rounds :: "kernel \<Rightarrow> u64 \<Rightarrow> u64 \<Rightarrow> nat \<Rightarrow> tracer \<Rightarrow> tracer outcome" where
  "soft_rounds K bar orig_code 0 s = Ret s"
| "soft_rounds K bar orig_code (Suc n) s =
     obind (soft_body K bar orig_code s) (\<lambda>s.
       obind (next_stop (k_cont K) ''ptrace SYSCALL err'' s) (soft_rounds K bar orig_code n))"

text \<open>What the child of \<open>softbreak.c\<close> and \<open>hardbreak.c\<close> prints once it runs on.\<close>

definition bar_child :: "tracer outcome" where
  "bar_child = Exit 0 (concat (map (\<lambda>i. [Printf ''%d'' [Dec (int i)], Printf ''num = %d'' [Dec 111]]) [0..<10]))"

definition softbreak_main :: "kernel \<Rightarrow> u64 \<Rightarrow> user_regs \<Rightarrow> nat \<Rightarrow> tracer outcome" where
  "softbreak_main K bar regs n =
     start K regs bar_child (\<lambda>pid s.
       let orig_code = peektext (mem_of (tc_proc s)) bar;
           s = s\<lparr>tc_proc := poke (tc_proc s) bar (with_int3 orig_code)\<rparr>
       in obind (next_stop (k_cont K) ''ptrace SYSCALL err'' s) (soft_rounds K bar orig_code n))"

subsection \<open>A hardware breakpoint: hardbreak.c\<close>

definition hard_body :: "u64 \<Rightarrow> tracer \<Rightarrow> tracer outcome" where
  "hard_body bar s0 =
     (let s = getregs s0
      in Ret (tsay [Printf ''function bar() = %p'' [Hex bar], Printf ''break rip = %llx'' [Hex (reg_rip (tc_regs s))]] s))"

fun hard_rounds :: "kernel \<Rightarrow> u64 \<Rightarrow> nat \<Rightarrow> tracer \<Rightarrow> tracer outcome" where
  "hard_rounds K bar 0 s = Ret s"
| "hard_rounds K bar (Suc n) s =
     obind (hard_body bar s) (\<lambda>s.
       obind (next_stop (k_cont K) ''ptrace SYSCALL err'' s) (hard_rounds K bar n))"

definition hardbreak_main :: "kernel \<Rightarrow> u64 \<Rightarrow> user_regs \<Rightarrow> nat \<Rightarrow> tracer outcome" where
  "hardbreak_main K bar regs n =
     start K regs bar_child (\<lambda>pid s.
       let (t1, o1) = pokeuser K (tc_proc s) 0 bar ''tracer, faile to set DR_0'';
           dr_7 = 0;
           dr_7 = dr_7 OR 1;
           dr_7 = dr_7 OR 2;
           (t2, o2) = pokeuser K t1 7 dr_7 ''tracer, faile to set DR_7''
       in obind (next_stop (k_cont K) ''ptrace SYSCALL err'' (tsay (o1 @ o2) (s\<lparr>tc_proc := t2\<rparr>)))
            (hard_rounds K bar n))"

subsection \<open>System calls: dbug.c and getsyscall.c\<close>

definition SYS_write :: int where "SYS_write = 1"

text \<open>Whether a write is in progress, and its arguments.\<close>

record call =
  iscalling :: bool
  arg1 :: u64
  arg2 :: u64
  arg3 :: u64

text \<open>
  The text \<open>dbug.c\<close> prints: sixteen bytes, twice the word at \<open>arg2\<close>, as a string.
\<close>

definition peeked_text :: "tracer \<Rightarrow> u64 \<Rightarrow> cptr option" where
  "peeked_text s a =
     (let buf = le_bytes 8 (peektext (mem_of (tc_proc s)) a) @ le_bytes 8 (peektext (mem_of (tc_proc s)) a)
      in if 0 \<in> set buf then Some buf else None)"

text \<open>\<open>getsyscall.c\<close> prints the string at \<open>arg2\<close> of its own memory \<open>own\<close>.\<close>

definition own_text :: "(u64 \<Rightarrow> cptr option) \<Rightarrow> tracer \<Rightarrow> u64 \<Rightarrow> cptr option" where
  "own_text own s a = own a"

definition call_body ::
  "(tracer \<Rightarrow> u64 \<Rightarrow> cptr option) \<Rightarrow> tracer \<times> call \<Rightarrow> (tracer \<times> call) outcome" where
  "call_body shown = (\<lambda>(s0, c).
     (let s = getregs s0; regs = tc_regs s; orig_rax = to_int (reg_orig_rax regs)
      in if orig_rax = SYS_write then
           if \<not> iscalling c then
             Ret (s, c\<lparr>iscalling := True, arg1 := reg_rdi regs, arg2 := reg_rsi regs, arg3 := reg_rdx regs\<rparr>)
           else need (shown s (arg2 c)) (\<lambda>buf.
             Ret (tsay [Printf ''%lld = write(%ld,\"%s\",%ld)''
                         [Dec (sint (reg_rax regs)), Dec (sint (arg1 c)), Str (Some buf), Dec (sint (arg3 c))]] s,
                  c\<lparr>iscalling := False\<rparr>))
         else Ret (s, c)))"

fun call_rounds ::
  "(tracee \<Rightarrow> tracee option \<times> u32) \<Rightarrow> (tracer \<Rightarrow> u64 \<Rightarrow> cptr option) \<Rightarrow> nat \<Rightarrow> tracer \<times> call \<Rightarrow>
   (tracer \<times> call) outcome" where
  "call_rounds run shown 0 sc = Ret sc"
| "call_rounds run shown (Suc n) sc =
     obind (call_body shown sc) (\<lambda>(s, c).
       obind (next_stop run ''CONT err'' s) (\<lambda>s. call_rounds run shown n (s, c)))"

text \<open>
  Both \<open>main\<close> functions; \<open>run\<close> is \<open>PTRACE_SYSCALL\<close> and the stop it leads to.  The loop starts with
  no call in progress, and the arguments, which are not initialised then, in \<open>c\<close>.
\<close>

definition blog_dbug_main ::
  "kernel \<Rightarrow> (tracee \<Rightarrow> tracee option \<times> u32) \<Rightarrow> user_regs \<Rightarrow> call \<Rightarrow> nat \<Rightarrow> tracer outcome" where
  "blog_dbug_main K run regs c n =
     start K regs
       (if k_exec K (ascii ''./test'') [Some (ascii ''./test'' @ [0])]
        then Exec (ascii ''./test'') [Some (ascii ''./test'' @ [0])] else Exit 0 [])
       (\<lambda>pid s. obind (next_stop run ''ptrace SYSCALL err'' s) (\<lambda>s.
          obind (call_rounds run peeked_text n (s, c\<lparr>iscalling := False\<rparr>)) (\<lambda>(s, c). Ret s)))"

definition getsyscall_main ::
  "kernel \<Rightarrow> (tracee \<Rightarrow> tracee option \<times> u32) \<Rightarrow> (u64 \<Rightarrow> cptr option) \<Rightarrow> user_regs \<Rightarrow> call \<Rightarrow> nat \<Rightarrow> tracer outcome" where
  "getsyscall_main K run own regs c n =
     start K regs
       (Exit 0 (map Putc (ascii ''aaaa -> '' @ ascii ''bbbb -> '' @ ascii ''cccc -> '')))
       (\<lambda>pid s. obind (next_stop run ''ptrace SYSCALL err'' s) (\<lambda>s.
          obind (call_rounds run (own_text own) n (s, c\<lparr>iscalling := False\<rparr>)) (\<lambda>(s, c). Ret s)))"

subsection \<open>Single requests: base.c, getinfo.c, readmem.c, writemem.c\<close>

text \<open>A child whose \<open>exec\<close> fails goes on like the parent, with the process 0.\<close>

definition base_main :: "kernel \<Rightarrow> unit outcome" where
  "base_main K =
     (let report = (\<lambda>pid. need (get_pid_base (k_maps K pid) (k_target K pid)) (\<lambda>base.
            Exit 0 [Printf ''base = 0x%lx'' [Hex base]]))
      in case k_fork K of
           In_child \<Rightarrow>
             if k_exec K (ascii ''./code'') [Some (ascii ''code'' @ [0])]
             then Exec (ascii ''./code'') [Some (ascii ''code'' @ [0])] else report 0
         | Fork_failed \<Rightarrow> Exit (- 1) [Perror ''fork err'']
         | In_parent pid \<Rightarrow> report pid)"

definition getinfo_main :: "kernel \<Rightarrow> user_regs \<Rightarrow> tracer outcome" where
  "getinfo_main K regs =
     start K regs (Exit 0 [Printf ''child exit'' []])
       (\<lambda>pid s.
          let os1 = (if tc_proc s = None then [Perror ''get regs err''] else []);
              r = tc_regs (getregs s);
              os2 = [Printf ''rax = %llx'' [Hex (reg_rax r)], Printf ''rip = %llx'' [Hex (reg_rip r)],
                     Printf ''rbp = %llx'' [Hex (reg_rbp r)], Printf ''rsp = %llx'' [Hex (reg_rsp r)]];
              os3 = (if tc_proc s = None then [Perror ''CONT err''] else [])
          in Exit 0 (os1 @ os2 @ os3))"

text \<open>\<open>num\<close> is the address of the variable, the same in parent and child.\<close>

definition readmem_main :: "kernel \<Rightarrow> u64 \<Rightarrow> user_regs \<Rightarrow> tracer outcome" where
  "readmem_main K num regs =
     start K regs (Exit 0 [])
       (\<lambda>pid s.
          let tem = peektext (mem_of (tc_proc s)) num;
              os = [Printf ''read num = %ld'' [Dec (sint tem)], Printf ''this num = %ld'' [Dec 0]]
          in if tc_proc s = None then Exit (- 1) (os @ [Perror ''ptrace SYSCALL err'']) else Exit 0 os)"

text \<open>
  The parent of \<open>writemem.c\<close> up to its \<open>PTRACE_CONT\<close>, with the process as it leaves it; the child
  prints the variable before it stops and, with the value \<open>num'\<close> it then has, after it.
\<close>

definition writemem_main :: "kernel \<Rightarrow> u64 \<Rightarrow> u64 \<Rightarrow> user_regs \<Rightarrow> tracer outcome" where
  "writemem_main K num num' regs =
     start K regs
       (Exit 0 [Printf ''not write num = %ld'' [Dec 0], Printf ''write end num = %ld'' [Dec (sint num')]])
       (\<lambda>pid s.
          let s = s\<lparr>tc_proc := poke (tc_proc s) num 120\<rparr>
          in if tc_proc s = None then Exit (- 1) (tc_out s @ [Perror ''ptrace SYSCALL err'']) else Ret s)"

subsection \<open>The table of a file\<close>

lemma bind_result: "Option.bind (if b then None else map_option Some x) (\<lambda>r. r) = (if b then None else x)"
  by (cases x) simp_all

lemma section_bind:
  "Option.bind (rd_shdr w (st + x * 64)) (\<lambda>_. Option.bind (get_section_addr st (Some w) n (unat x) nm sz) g) =
     Option.bind (get_section_addr st (Some w) n (unat x) nm sz) g"
  by (cases "rd_shdr w (st + x * 64)") (simp_all add: get_section_addr_def)

text \<open>\<open>dbuf\<close> is \<open>open_funs\<close> without the test for a file that cannot be opened.\<close>

lemma dbuf_open_funs:
  "dbuf fl base = (case fl of None \<Rightarrow> None | Some f \<Rightarrow> Option.bind (open_funs (Some f) base) (\<lambda>r. r))"
proof (cases fl)
  case None
  then show ?thesis by (simp add: dbuf_def open_file_def)
next
  case (Some f)
  show ?thesis
  proof (cases "read_image f")
    case None
    then show ?thesis using Some by (simp add: dbuf_def open_file_def open_funs_def)
  next
    case (Some w)
    then show ?thesis using \<open>fl = Some f\<close>
      by (cases "rd_le w 0x3c 2"; cases "rd_le w 0x3e 2"; cases "rd_le w 0x28 8")
        (simp_all add: dbuf_def open_file_def open_funs_def section_bind bind_result split_def Let_def
          del: ascii_Cons)
  qed
qed

subsection \<open>The breakpoint loop\<close>

lemma write_loop_none: "write_loop m a 0 0 str = Some (True, 0, m)"
  by (subst write_loop.simps) simp

lemma load_first: "load_buf (b # bs) 0 (Suc 0) = Some [b]"
  by (simp add: load_buf_def)

lemma write_one_cong: "write_pro_mem m a (b # bs) 1 = write_pro_mem m a [b] 1"
proof -
  have "c_words 1 = 0" "c_rest 1 = 1" by (simp_all add: c_words_def c_rest_def)
  then show ?thesis
    by (simp add: write_pro_mem_def write_loop_none load_first del: le_bytes.simps cong: option.case_cong)
qed

lemma write_one_Some: "\<exists>st m'. write_pro_mem m a [b] 1 = Some (st, m')"
proof -
  have "c_words 1 = 0" "c_rest 1 = 1" by (simp_all add: c_words_def c_rest_def)
  then show ?thesis
    by (auto simp: write_pro_mem_def write_loop_none load_first Let_def simp del: le_bytes.simps split: option.splits)
qed

text \<open>
  The body is \<open>resume_INT3_bp_next\<close> of the debugger on a software breakpoint at the function, when
  the process has stopped behind it.
\<close>

lemma break_body_resume:
  assumes "is_sf bp" and "bp_addr bp = a" and "ucast (bp_orig_code bp) = c"
    and rip: "reg_rip (tc_regs (getregs s)) = a + 1"
  shows "break_body K a c s =
    obind (resume_INT3_bp_next K (tc_proc s) bp (tc_regs (getregs s))) (\<lambda>(rc, t, regs).
      Ret (s\<lparr>tc_proc := t, tc_regs := regs, tc_out := tc_out s @ [Printf ''0x%llx'' [Hex (a + 1)]]\<rparr>))"
proof -
  have p: "tc_proc (getregs s) = tc_proc s" "tc_out (getregs s) = tc_out s"
    by (auto simp: getregs_def split: option.splits)
  have w: "write_pro_mem m a (le_bytes 8 (bp_orig_code bp)) 1 = write_pro_mem m a [c] 1" for m
    unfolding le_bytes_8_Cons assms(3) by (rule write_one_cong)
  obtain st1 m1 where 1: "write_pro_mem (mem_of (tc_proc s)) a [c] 1 = Some (st1, m1)"
    using write_one_Some by blast
  define r where "r = (tc_regs (getregs s))\<lparr>reg_rip := a\<rparr>"
  define t3 where "t3 = Option.bind (map_option (\<lambda>t. t\<lparr>tr_regs := r\<rparr>) (set_mem (tc_proc s) m1)) (k_step K)"
  obtain st2 m2 where 2: "write_pro_mem (mem_of t3) a [INT_3] 1 = Some (st2, m2)"
    using write_one_Some by blast
  have "resume_INT3_bp_next K (tc_proc s) bp (tc_regs (getregs s)) = Ret (0, set_mem t3 m2, r)"
    using assms(1,2) w 1 2 by (simp add: resume_INT3_bp_next_def is_sf_def Let_def r_def t3_def del: le_bytes.simps)
  moreover have "break_body K a c s =
      Ret (s\<lparr>tc_proc := set_mem t3 m2, tc_regs := r, tc_out := tc_out s @ [Printf ''0x%llx'' [Hex (a + 1)]]\<rparr>)"
    using rip 1 2 p by (simp add: break_body_def tsay_def Let_def setregs_def r_def t3_def)
  ultimately show ?thesis by simp
qed

text \<open>
  A process with the INT3 in place, and one that has just run into it.
\<close>

definition armed :: "u64 \<Rightarrow> tracee \<Rightarrow> tracee" where
  "armed a t = t\<lparr>tr_mem := (tr_mem t)(a \<mapsto> INT_3)\<rparr>"

definition at_int3 :: "u64 \<Rightarrow> tracee \<Rightarrow> tracee" where
  "at_int3 a t = t\<lparr>tr_mem := (tr_mem t)(a \<mapsto> INT_3), tr_regs := (tr_regs t)\<lparr>reg_rip := a + 1\<rparr>\<rparr>"

definition holds_code :: "u64 \<Rightarrow> u8 \<Rightarrow> tracee \<Rightarrow> bool" where
  "holds_code a c t \<longleftrightarrow> tr_mem t a = Some c \<and> mapped_word (tr_mem t) a"

text \<open>
  The processor and the kernel for a program that leaves its code at \<open>a\<close> alone, in terms of the
  program without a breakpoint: \<open>step\<close> executes the instruction at \<open>a\<close>, \<open>run\<close> runs until the program
  next arrives at \<open>a\<close> or exits (\<open>None\<close>).  With an INT3 at \<open>a\<close> the program traps where it would have
  arrived, with the instruction pointer behind the byte.
\<close>

definition int3_machine ::
  "kernel \<Rightarrow> u64 \<Rightarrow> u8 \<Rightarrow> (tracee \<Rightarrow> tracee option) \<Rightarrow> (tracee \<Rightarrow> tracee) \<Rightarrow> bool" where
  "int3_machine K a c run step \<longleftrightarrow>
     (\<forall>t. holds_code a c t \<and> reg_rip (tr_regs t) = a \<longrightarrow> k_step K t = Some (step t) \<and> holds_code a c (step t)) \<and>
     (\<forall>t. holds_code a c t \<longrightarrow>
        (case run t of
           None \<Rightarrow> k_cont K (armed a t) = (None, 0)
         | Some t' \<Rightarrow> k_cont K (armed a t) = (Some (at_int3 a t'), 0x57f) \<and>
             holds_code a c t' \<and> reg_rip (tr_regs t') = a))"

text \<open>
  The undisturbed program from one arrival at \<open>a\<close>: the number of arrivals seen, this one included, and
  the arrival after \<open>n\<close> more runs, \<open>None\<close> when it exits before.
\<close>

fun arrivals :: "(tracee \<Rightarrow> tracee option) \<Rightarrow> (tracee \<Rightarrow> tracee) \<Rightarrow> nat \<Rightarrow> tracee \<Rightarrow> nat \<times> tracee option" where
  "arrivals run step 0 t = (0, Some t)"
| "arrivals run step (Suc n) t =
     (case run (step t) of
        None \<Rightarrow> (1, None)
      | Some t' \<Rightarrow> (case arrivals run step n t' of (k, r) \<Rightarrow> (Suc k, r)))"

definition hit :: "u64 \<Rightarrow> out" where "hit a = Printf ''0x%llx'' [Hex (a + 1)]"

lemma mem_of_Some [simp]: "mem_of (Some t) = tr_mem t"
  by (simp add: mem_of_def)

lemma set_mem_Some [simp]: "set_mem (Some t) m = Some (t\<lparr>tr_mem := m\<rparr>)"
  by (simp add: set_mem_def)

lemma break_body_at_int3:
  assumes t: "holds_code a c t" "reg_rip (tr_regs t) = a" and p: "tc_proc s = Some (at_int3 a t)"
    and step: "k_step K t = Some t2" "holds_code a c t2"
  shows "break_body K a c s =
    Ret (s\<lparr>tc_proc := Some (armed a t2), tc_regs := tr_regs t, tc_out := tc_out s @ [hit a]\<rparr>)"
proof -
  have acc: "mapped_word ((tr_mem t)(a \<mapsto> INT_3)) a" "mapped_word (tr_mem t2) a"
    using t step(2) by (simp_all add: holds_code_def mapped_word_upd)
  have restored: "(tr_mem t)(a \<mapsto> c) = tr_mem t" "(tr_regs t)\<lparr>reg_rip := a\<rparr> = tr_regs t"
    using t by (auto simp: holds_code_def fun_upd_idem)
  show ?thesis
    using p write_one_byte [OF acc(1), of c] write_one_byte [OF acc(2), of INT_3] restored step(1)
    by (simp add: break_body_def getregs_def tsay_def Let_def at_int3_def setregs_def armed_def hit_def)
qed

text \<open>
  C29: through any number of stops, the breakpoint loop of \<open>dbug_break.c\<close> and \<open>attach.c\<close> is invisible to
  the traced program: on a processor on which INT3 traps where the program would have executed its
  own instruction, the process goes through exactly the states of the undisturbed program, each
  arrival at the function is reported once with the address behind the breakpoint, and the loop ends
  exactly when the program exits.
\<close>

theorem break_rounds_transparent:
  assumes m: "int3_machine K a c run step" and t: "holds_code a c t" "reg_rip (tr_regs t) = a"
    and p: "tc_proc s = Some (at_int3 a t)"
  shows "case arrivals run step n t of
      (k, None) \<Rightarrow> break_rounds K a c n s = Exit 0 (tc_out s @ replicate k (hit a))
    | (k, Some t') \<Rightarrow> k = n \<and> holds_code a c t' \<and> reg_rip (tr_regs t') = a \<and>
        (\<exists>regs. break_rounds K a c n s =
          Ret (s\<lparr>tc_proc := Some (at_int3 a t'), tc_regs := regs, tc_out := tc_out s @ replicate n (hit a)\<rparr>))"
  using t p
proof (induction n arbitrary: t s)
  case 0
  have "s = s\<lparr>tc_proc := Some (at_int3 a t), tc_regs := tc_regs s, tc_out := tc_out s\<rparr>"
    using 0(3) by simp
  then have "\<exists>regs. s = s\<lparr>tc_proc := Some (at_int3 a t), tc_regs := regs, tc_out := tc_out s\<rparr>" by (rule exI)
  then show ?case using 0(1,2) by simp
next
  case (Suc n)
  have st: "k_step K t = Some (step t)" "holds_code a c (step t)"
    using m Suc.prems(1,2) by (auto simp: int3_machine_def)
  define s1 where "s1 = s\<lparr>tc_proc := Some (armed a (step t)), tc_regs := tr_regs t, tc_out := tc_out s @ [hit a]\<rparr>"
  have b: "break_body K a c s = Ret s1"
    unfolding s1_def by (rule break_body_at_int3 [OF Suc.prems st])
  show ?case
  proof (cases "run (step t)")
    case None
    then have "k_cont K (armed a (step t)) = (None, 0)"
      using m st(2) by (auto simp: int3_machine_def split: option.splits)
    then show ?thesis using None b by (simp add: next_stop_def s1_def WIFEXITED_def)
  next
    case (Some t')
    then have c: "k_cont K (armed a (step t)) = (Some (at_int3 a t'), 0x57f)"
      and t': "holds_code a c t'" "reg_rip (tr_regs t') = a"
      using m st(2) by (auto simp: int3_machine_def split: option.splits)
    define s2 where "s2 = s1\<lparr>tc_proc := Some (at_int3 a t')\<rparr>"
    have "next_stop (k_cont K) ''CONT err'' s1 = Ret s2"
      using c by (simp add: next_stop_def s1_def s2_def WIFEXITED_def)
    then have r: "break_rounds K a c (Suc n) s = break_rounds K a c n s2" using b by simp
    have p2: "tc_proc s2 = Some (at_int3 a t')" by (simp add: s2_def)
    have o2: "tc_out s2 = tc_out s @ [hit a]" by (simp add: s2_def s1_def)
    have upd: "s2\<lparr>tc_proc := x, tc_regs := y, tc_out := z\<rparr> = s\<lparr>tc_proc := x, tc_regs := y, tc_out := z\<rparr>" for x y z
      by (simp add: s2_def s1_def)
    show ?thesis
      using Suc.IH [OF t' p2] Some unfolding r o2
      by (auto simp: upd split: prod.splits option.splits)
  qed
qed

text \<open>An example: each step counts in \<open>rax\<close>, and after three the program exits instead of coming back.\<close>

definition count_run :: "tracee \<Rightarrow> tracee option" where
  "count_run t = (if reg_rax (tr_regs t) = 3 then None
     else Some (t\<lparr>tr_regs := (tr_regs t)\<lparr>reg_rip := 0x401136\<rparr>\<rparr>))"

definition count_step :: "tracee \<Rightarrow> tracee" where
  "count_step t = t\<lparr>tr_regs := (tr_regs t)\<lparr>reg_rip := reg_rip (tr_regs t) + 1, reg_rax := reg_rax (tr_regs t) + 1\<rparr>\<rparr>"

definition count_kernel :: kernel where
  "count_kernel = demo_kernel\<lparr>k_step := (\<lambda>t. Some (count_step t)),
     k_cont := (\<lambda>u. case count_run (u\<lparr>tr_mem := (tr_mem u)(0x401136 \<mapsto> 0x90)\<rparr>) of
        None \<Rightarrow> (None, 0) | Some t \<Rightarrow> (Some (at_int3 0x401136 t), 0x57f))\<rparr>"

lemma count_machine: "int3_machine count_kernel 0x401136 0x90 count_run count_step"
proof -
  have "t\<lparr>tr_mem := (tr_mem t)(0x401136 \<mapsto> 0x90)\<rparr> = t" if "tr_mem t 0x401136 = Some 0x90" for t :: tracee
    using that by (simp add: fun_upd_idem)
  then show ?thesis
    by (auto simp: int3_machine_def count_kernel_def count_step_def holds_code_def armed_def count_run_def)
qed

definition count_tracee :: tracee where
  "count_tracee = demo_tracee\<lparr>tr_regs := demo_regs\<lparr>reg_rip := 0x401136\<rparr>\<rparr>"

lemma break_rounds_transparent_witness:
  "break_rounds count_kernel 0x401136 0x90 5
      \<lparr>tc_proc = Some (at_int3 0x401136 count_tracee), tc_regs = demo_regs, tc_out = []\<rparr> =
   Exit 0 (replicate 3 (hit 0x401136))"
proof -
  have t: "holds_code 0x401136 0x90 count_tracee" "reg_rip (tr_regs count_tracee) = 0x401136"
    by (simp_all add: holds_code_def count_tracee_def demo_tracee_def demo_regs_def mapped_word_iff)
  have "arrivals count_run count_step 5 count_tracee = (3, None)"
  proof -
    have five: "(5 :: nat) = Suc (Suc (Suc (Suc (Suc 0))))" by simp
    show ?thesis
      unfolding five by (simp add: count_run_def count_step_def count_tracee_def demo_tracee_def demo_regs_def)
  qed
  then show ?thesis
    using break_rounds_transparent [OF count_machine t, of "\<lparr>tc_proc = Some (at_int3 0x401136 count_tracee),
      tc_regs = demo_regs, tc_out = []\<rparr>" 5] by simp
qed

subsection \<open>Whole words: softbreak.c\<close>

text \<open>
  Poking the word with its first byte replaced is the one-byte write of \<open>dbug_break.c\<close>.
\<close>

lemma with_int3_bytes: "ucast (with_int3 w) = INT_3" "drop_bit 8 (with_int3 w) = drop_bit 8 w"
proof -
  have m: "(0xFFFFFFFFFFFFFF00 :: u64) = NOT (mask 8)" "(0xCC :: u64) = take_bit 8 0xCC"
    by (simp_all add: mask_eq_exp_minus_1)
  have "take_bit 8 (with_int3 w) = 0xCC"
  proof -
    have "take_bit 8 (w AND NOT (mask 8)) = 0"
      by (intro bit_word_eqI) (auto simp: bit_simps)
    then show ?thesis unfolding with_int3_def m(1) by (simp add: take_bit_or)
  qed
  then have "ucast (take_bit 8 (with_int3 w)) = (0xCC :: u8)" by simp
  moreover have "ucast (take_bit 8 x) = (ucast x :: u8)" for x :: u64
    by (intro bit_word_eqI) (simp add: bit_simps)
  ultimately show "ucast (with_int3 w) = INT_3" by (simp add: INT_3_def)
  have "drop_bit 8 (NOT (mask 8) :: u64) = mask 56"
    unfolding m(1) [symmetric] by (simp add: mask_eq_exp_minus_1)
  moreover have "drop_bit 8 (0xCC :: u64) = 0" by simp
  moreover have "drop_bit 8 w AND mask 56 = drop_bit 8 w"
    by (intro bit_word_eqI) (auto simp: bit_simps dest: bit_imp_le_length)
  ultimately show "drop_bit 8 (with_int3 w) = drop_bit 8 w"
    unfolding with_int3_def m(1) by simp
qed

text \<open>The seven bytes behind \<open>a\<close> are those of the saved word.\<close>

definition rest_intact :: "pmem \<Rightarrow> u64 \<Rightarrow> u64 \<Rightarrow> bool" where
  "rest_intact m a w \<longleftrightarrow> mapped_word m a \<and> tl (range_bytes m a 8) = le_bytes 7 (drop_bit 8 w)"

lemma poke_first_byte:
  assumes "rest_intact m a w" shows "poketext m a w = Some (m(a \<mapsto> ucast w))"
proof -
  have "range_bytes m a 8 = hd (range_bytes m a 8) # tl (range_bytes m a 8)"
    by (rule list.collapse [symmetric]) (simp add: range_bytes_def)
  then have "le_bytes 8 w = [ucast w] @ drop (length [ucast w :: u8]) (range_bytes m a 8)"
    using assms by (simp add: rest_intact_def le_bytes_8_Cons drop_Suc)
  then show ?thesis
    using assms store_with_old_bytes [of m a "[ucast w]"] by (simp add: poketext_def rest_intact_def)
qed

lemma saved_word_intact:
  assumes "mapped_word m a" shows "rest_intact m a (peektext m a)" "ucast (peektext m a) = the (m a)"
proof -
  have "le_bytes 8 (peektext m a) = range_bytes m a 8" by (rule le_bytes_peek_range [OF assms order_refl])
  then have r: "range_bytes m a 8 = ucast (peektext m a) # le_bytes 7 (drop_bit 8 (peektext m a))"
    by (simp add: le_bytes_8_Cons)
  then show "rest_intact m a (peektext m a)" using assms by (simp add: rest_intact_def)
  have "hd (range_bytes m a 8) = the (m a)" by (simp add: range_bytes_def upt_conv_Cons)
  then show "ucast (peektext m a) = the (m a)" using r by simp
qed

lemma arm_word: "mapped_word m a \<Longrightarrow> poketext m a (with_int3 (peektext m a)) = Some (m(a \<mapsto> INT_3))"
  using poke_first_byte [of m a "with_int3 (peektext m a)"] saved_word_intact(1) [of m a]
  by (simp add: rest_intact_def with_int3_bytes)

text \<open>
  While the program leaves the seven bytes alone, the body of \<open>softbreak.c\<close> does what that of
  \<open>dbug_break.c\<close> does; otherwise it writes their old contents back.
\<close>

lemma soft_body_break_body:
  assumes p: "tc_proc s = Some t" and i: "rest_intact (tr_mem t) a w"
    and step: "k_step K (t\<lparr>tr_mem := (tr_mem t)(a \<mapsto> ucast w), tr_regs := (tr_regs t)\<lparr>reg_rip := reg_rip (tr_regs t) - 1\<rparr>\<rparr>) = Some t2"
    and i2: "rest_intact (tr_mem t2) a w"
  shows "\<exists>s1 s2. soft_body K a w s = Ret s1 \<and> break_body K a (ucast w) s = Ret s2 \<and>
    tc_proc s1 = tc_proc s2 \<and> tc_regs s1 = tc_regs s2"
proof -
  have acc: "mapped_word (tr_mem t) a" "mapped_word (tr_mem t2) a" using i i2 by (simp_all add: rest_intact_def)
  have "poketext (tr_mem t2) a (with_int3 w) = Some ((tr_mem t2)(a \<mapsto> INT_3))"
    using poke_first_byte [of "tr_mem t2" a "with_int3 w"] i2 by (simp add: rest_intact_def with_int3_bytes)
  then show ?thesis
    using p step poke_first_byte [OF i] write_one_byte [OF acc(1), of "ucast w"] write_one_byte [OF acc(2), of INT_3]
    by (simp add: soft_body_def break_body_def getregs_def tsay_def Let_def setregs_def poke_def)
qed

text \<open>The value of DR7 in \<open>hardbreak.c\<close> is the one the debugger's \<open>insert_hard_break\<close> sets.\<close>

lemma hardbreak_dr7: "dr7_word (zero_DR7\<lparr>L0 := 1, G0 := 1\<rparr>) = (0 OR 1) OR 2"
  by (simp add: dr7_word_def zero_DR7_def)

subsection \<open>The system call tracers\<close>

text \<open>
  Two stops of a write, on entry and on return, give one line: the result on return with the
  arguments on entry.
\<close>

lemma write_call_reported:
  assumes p: "tc_proc s = Some t" "\<not> iscalling c" "to_int (reg_orig_rax (tr_regs t)) = SYS_write"
    and r: "run t = (Some t2, st)" "\<not> WIFEXITED st" "to_int (reg_orig_rax (tr_regs t2)) = SYS_write"
    and r2: "run t2 = (t3, st2)" "\<not> WIFEXITED st2"
    and shown: "\<And>s. tc_proc s = Some t2 \<Longrightarrow> shown s (reg_rsi (tr_regs t)) = Some buf"
  shows "\<exists>s' c'. call_rounds run shown 2 (s, c) = Ret (s', c') \<and> tc_proc s' = t3 \<and> \<not> iscalling c' \<and>
    tc_out s' = tc_out s @ [Printf ''%lld = write(%ld,\"%s\",%ld)'' [Dec (sint (reg_rax (tr_regs t2))),
      Dec (sint (reg_rdi (tr_regs t))), Str (Some buf), Dec (sint (reg_rdx (tr_regs t)))]]"
  using assms by (simp add: numeral_2_eq_2 call_body_def next_stop_def getregs_def tsay_def Let_def)

text \<open>
  \<open>dbug.c\<close> reads the same eight bytes twice: without a zero among them the text it prints has no end.
\<close>

lemma peeked_text_unterminated:
  assumes "mapped_word (mem_of (tc_proc s)) a" and "0 \<notin> set (range_bytes (mem_of (tc_proc s)) a 8)"
  shows "peeked_text s a = None"
  using assms le_bytes_peek_range [OF assms(1) order_refl] by (simp add: peeked_text_def Let_def del: le_bytes.simps)


end
