(* ===== verification/Spec2Isabelle.thy ===== *)
theory Spec2Isabelle
  imports Command Escape Base64 Numparse Utf8 Strings Sprintf Sort Queue Shmtx Shmem Ngxlist Strtree Tutorial
begin

text \<open>
  A verification library for the debugger in \<open>src/\<close> and the data structures it brings along.

  The program.  \<open>main.c\<close> reads lines with \<open>get_command\<close> and runs them with \<open>play_command\<close>
  (\<open>command.c\<close>).  The handlers act on one traced process: they set, resume and list breakpoints
  (\<open>dbug.c\<close>), read and write the memory of the process word by word through \<open>ptrace\<close> (\<open>mem.c\<close>) and find
  functions in the symbol table of its ELF file, moved by the base address from \<open>/proc\<close>
  (\<open>elf_parse.c\<close>).  The state of the debugger, \<open>struct dbug_struct\<close>, holds its breakpoints and the words
  of the last command in two arrays (\<open>ngx/ngx_array.c\<close>) in one memory pool (\<open>ngx/ngx_palloc.c\<close>).  The
  other files of \<open>ngx/\<close> are the library that pool and array come from: strings, formatted output,
  sorting, list, queue, red-black tree, shared memory and the mutex in it.  \<open>blog/\<close> holds stand-alone
  programs that trace a process the same way.

  Theories and what they model.
  \<^item> \<open>Prelude\<close>, \<open>Bytebuf\<close>: words, C strings, little-endian encodings; byte buffers with checked stores.
  \<^item> \<open>Procmem\<close>: \<open>mem.c\<close>.  Both loops with the C conversions of their bounds; what they read and write for
    every length, and that a failed read is not reported.
  \<^item> \<open>Elfsym\<close>: \<open>elf_parse.c\<close>.  The scan of \<open>/proc/pid/maps\<close>, the section and symbol tables in the bytes of
    the file, the search by name; results on well-formed images and on stripped ones.
  \<^item> \<open>Palloc\<close>: \<open>ngx_palloc.c\<close>.  The pool invariant \<open>pool_ok\<close>, kept by every operation: what is handed out is
    live memory, aligned and disjoint from everything handed out before; reset and destroy free exactly
    what the pool owns.  \<open>Array\<close>, \<open>Ngxlist\<close>: \<open>ngx_array.c\<close> and \<open>ngx_list.c\<close> on top of it, as lists of
    elements.  \<open>Lowmem\<close>: two arrays in one pool stay apart.
  \<^item> \<open>Dbug\<close>: \<open>dbug.c\<close>.  \<open>table_ok\<close> relates the program's own memory, the patched memory and the breakpoint
    table; inserting and resuming keep it.  \<open>Command\<close>: \<open>command.c\<close> and \<open>main.c\<close>; the splitting of a line,
    \<open>b\<close> and \<open>c\<close> over all the components below them, the invariant of the main loop.
  \<^item> \<open>Escape\<close>, \<open>Base64\<close>, \<open>Numparse\<close>, \<open>Utf8\<close>, \<open>Strings\<close>, \<open>Digits\<close>, \<open>Sprintf\<close>, \<open>Sort\<close>, \<open>Strtree\<close>:
    \<open>ngx_string.c\<close> and \<open>ngx_string.h\<close>, one group of functions each.  Room announced and room used, round
    trips, equality with reference functions, and that no access leaves its object.  Escaped HTML and JSON
    are read back by readers stated from the rules of the formats.
  \<^item> \<open>Insertion\<close>: insertion sort as a function on lists and its stability, shared by \<open>Sort\<close> and \<open>Queue\<close>.
  \<^item> \<open>Queue\<close>: \<open>ngx_queue.c\<close>, pointer updates in a heap of links against operations on a list.
  \<^item> \<open>Rbtree\<close>: \<open>ngx_rbtree.c\<close> on a heap of linked nodes.  \<open>Rbheap\<close> and \<open>Rbcolor\<close> give the tree such a heap
    represents and the red-black invariants, \<open>Rbmirror\<close> the symmetry of left and right, \<open>Rbinsert\<close>,
    \<open>Rbdelfix\<close>, \<open>Rbdelete\<close> the two fixup loops, \<open>Rborder\<close> the insertion functions as an interface,
    \<open>Rbnext\<close> the walk in order and any sequence of insertions and deletions against a sorted list.
  \<^item> \<open>Shmtx\<close>: \<open>ngx_shmtx.c\<close> as a step relation of any number of processes, each step one access to the shared
    words; \<open>Shmem\<close>: \<open>ngx_shmem.c\<close>.
  \<^item> \<open>Tutorial\<close>: the tracing programs of \<open>blog/\<close>; the breakpoint loop against the undisturbed program, and
    its relation to \<open>dbug.c\<close>.

  Interfaces.  The contracts several operations share are locales, each interpreted on the definitions
  that provide it: reading and writing process memory, the pool as an allocator, the counting and storing
  passes of the escapers, an alphabet of base64, the decimal parsers, the digit loops, the insertion
  function and the order of a tree.

  Conventions.  The target is x86-64 Linux: \<open>size_t\<close>, pointers and \<open>unsigned long\<close> are words of 64 bits
  and wrap; a C \<open>int\<close> is an integer with its conversions written out.  An access outside an object, a
  NULL dereference or an overflow of a signed integer is \<open>None\<close> (or \<open>Crash\<close>, where the handler may also
  end the program), so a theorem with a defined result excludes them.  Source and destination of a string
  function are separate objects.  Messages are listed without the newline that ends them; output of
  \<open>LOG\<close> and of \<open>perror\<close> in the lower layers is left out.  A handler's test of its own state for NULL is
  left out.

  Loops.  Loops over data are total functions with a measure.  The loops of the queue and of the
  tree follow pointers; they are partial functions, in which not ending is \<open>None\<close>, and the theorems show
  that they end on well-formed structures.  The main loop and the loops of the tracing programs have no
  end; they are run for \<open>n\<close> rounds, and the theorems hold for every \<open>n\<close>.  No result depends on fuel.

  Parameters and assumptions.  \<open>calloc\<close> is a function of the number of calls, the live allocations and the
  size; where a theorem needs it, it returns NULL or fresh memory below \<open>2^47\<close>.  The metadata a pool
  keeps inside its own memory is not stored as bytes.  The kernel and the processor (single step, continue,
  fork, attach, the contents of files) are the record \<open>kernel\<close>; theorems about breakpoints assume of it that
  the program does not change its own patched bytes.  The arithmetic on \<open>double\<close> of \<open>ngx_vslprintf\<close> is a
  parameter.  The memory of the mutex starts as zero, fewer than \<open>2^29\<close> processes use it, and a process
  unlocks only what it holds.

  Not modelled.  \<open>blog/code.c\<close>, \<open>blog/dbuf_break_test.c\<close>, \<open>blog/test.c\<close>, \<open>blog/testsyscall.c\<close> and \<open>test.c\<close> are
  programs to be traced: they print and sleep, and to the debugger they are the traced process of the
  parameter \<open>kernel\<close>.  The tracing programs of \<open>blog/\<close> contain copies of the functions of \<open>mem.c\<close> and
  \<open>elf_parse.c\<close> that differ in comments only; they are modelled once.  The headers declare functions that
  no file defines and macros nothing uses (logging, memory barriers, platform switches of \<open>config.h\<close>);
  they have no behaviour to model.
\<close>

end
